(* ===== verification/Sim_Prelude.thy ===== *)
theory Sim_Prelude
  imports Main "HOL-Library.Word"
begin

text \<open>
  What every component of the simulator shares: the ways a C function can fail to return
  normally, the result type of the functions that can, the conversions between C's integer
  types, and the lemmas on lists and maps that the queue and hash-table proofs use.
\<close>

unbundle bit_operations_syntax

named_theorems queue_simps \<open>rewrite rules for queues kept as lists of object ids\<close>
named_theorems result_simps \<open>rewrite rules for the sequencing of fallible C functions\<close>

section \<open>Failures of C code\<close>

text \<open>
  \<open>NullDeref\<close>: a load or store through NULL. \<open>UseAfterFree\<close>: a load or store through a pointer
  to memory that is not (or no longer) allocated. \<open>AssertFail\<close>: an \<open>assert\<close> that does not hold.
  \<open>OutOfBounds\<close>: an array access outside the array. \<open>DuplicateKey\<close>: an insertion into a hash
  table of an id the table already holds, which the table forbids its callers (and which it checks
  when \<open>HASHTABLE_DEBUG\<close> is defined). \<open>Abort\<close>: a call of \<open>abort\<close>, which the macro \<open>ERROR\<close> ends with.
  \<open>ListCorrupt\<close>: an operation on an intrusive list through a link that no longer belongs to that list.
\<close>

datatype c_error = NullDeref | UseAfterFree | AssertFail | OutOfBounds | DuplicateKey | Abort | ListCorrupt

type_synonym 'a result = "c_error + 'a"

definition bindE :: "'a result \<Rightarrow> ('a \<Rightarrow> 'b result) \<Rightarrow> 'b result" where
  "bindE r f = (case r of Inl e \<Rightarrow> Inl e | Inr x \<Rightarrow> f x)"

lemma bindE_simps [simp, result_simps]:
  "bindE (Inl e) f = Inl e"
  "bindE (Inr x) f = f x"
  by (simp_all add: bindE_def)

lemma bindE_assoc: "bindE (bindE r f) g = bindE r (\<lambda>x. bindE (f x) g)"
  by (simp add: bindE_def split: sum.splits)

lemma bindE_Inr_iff: "bindE r f = Inr y \<longleftrightarrow> (\<exists>x. r = Inr x \<and> f x = Inr y)"
  by (auto simp: bindE_def split: sum.splits)

lemma bindE_Inr_elim [elim!]:
  assumes "bindE r f = Inr y"
  obtains x where "r = Inr x" "f x = Inr y"
  using assms by (auto simp: bindE_Inr_iff)

lemma bindE_cong [fundef_cong]:
  "r = r' \<Longrightarrow> (\<And>x. r' = Inr x \<Longrightarrow> f x = g x) \<Longrightarrow> bindE r f = bindE r' g"
  by (auto simp: bindE_def split: sum.splits)

text \<open>
  A function with a loop that may run for ever has an \<open>outcome\<close>: \<open>None\<close> when it does not return,
  \<open>Some\<close> of a result when it does.
\<close>

type_synonym 'a outcome = "'a result option"

definition bindO :: "'a outcome \<Rightarrow> ('a \<Rightarrow> 'b outcome) \<Rightarrow> 'b outcome" where
  "bindO m f = Option.bind m (\<lambda>r. case r of Inl e \<Rightarrow> Some (Inl e) | Inr x \<Rightarrow> f x)"

lemma bindO_simps [simp, result_simps]:
  "bindO None f = None"
  "bindO (Some (Inl e)) f = Some (Inl e)"
  "bindO (Some (Inr x)) f = f x"
  by (simp_all add: bindO_def)

lemma bindO_mono [partial_function_mono]:
  assumes "mono_option m" "\<And>y. mono_option (\<lambda>f. g y f)"
  shows "mono_option (\<lambda>f. bindO (m f) (\<lambda>y. g y f))"
  unfolding bindO_def
  by (intro bind_mono assms) (use assms(2) in \<open>auto split: sum.splits simp: monotone_def option.leq_refl\<close>)

lemma bindO_assoc: "bindO (bindO m f) g = bindO m (\<lambda>x. bindO (f x) g)"
  by (auto simp: bindO_def split: sum.splits Option.bind_splits)

lemma bindO_SomeE:
  assumes "bindO m f = Some (Inr y)"
  obtains x where "m = Some (Inr x)" "f x = Some (Inr y)"
  using assms by (cases m; cases "the m") auto

section \<open>C integer conversions\<close>

text \<open>
  Signed 64-bit quantities (byte counts, virtual times) are kept as \<^typ>\<open>int\<close>; where the source
  stores a value into a narrower or unsigned type the conversion is written out.
\<close>

definition to_u32 :: "int \<Rightarrow> int" where
  "to_u32 x = x mod 2 ^ 32"

definition to_u64 :: "int \<Rightarrow> int" where
  "to_u64 x = x mod 2 ^ 64"

definition to_i32 :: "int \<Rightarrow> int" where
  "to_i32 x = (x + 2 ^ 31) mod 2 ^ 32 - 2 ^ 31"

definition to_i64 :: "int \<Rightarrow> int" where
  "to_i64 x = (x + 2 ^ 63) mod 2 ^ 64 - 2 ^ 63"

lemma to_u32_bounds [simp]: "0 \<le> to_u32 x" "to_u32 x < 2 ^ 32"
  by (simp_all add: to_u32_def)

lemma to_u64_bounds [simp]: "0 \<le> to_u64 x" "to_u64 x < 2 ^ 64"
  by (simp_all add: to_u64_def)

lemma to_u32_id: "0 \<le> x \<Longrightarrow> x < 2 ^ 32 \<Longrightarrow> to_u32 x = x"
  by (simp add: to_u32_def)

lemma to_u64_id: "0 \<le> x \<Longrightarrow> x < 2 ^ 64 \<Longrightarrow> to_u64 x = x"
  by (simp add: to_u64_def)

lemma to_u32_idem [simp]: "to_u32 (to_u32 x) = to_u32 x"
  by (simp add: to_u32_def)

lemma to_i64_id: "- (2 ^ 63) \<le> x \<Longrightarrow> x < 2 ^ 63 \<Longrightarrow> to_i64 x = x"
  by (simp add: to_i64_def)

section \<open>Lists without repetition\<close>

lemma distinct_remove1_filter: "distinct xs \<Longrightarrow> remove1 x xs = filter (\<lambda>y. y \<noteq> x) xs"
  by (induction xs) (auto intro!: filter_True [symmetric])

lemma set_remove1_distinct [queue_simps]: "distinct xs \<Longrightarrow> set (remove1 x xs) = set xs - {x}"
  by simp

lemma remove1_last_butlast: "distinct xs \<Longrightarrow> xs \<noteq> [] \<Longrightarrow> remove1 (last xs) xs = butlast xs"
  by (induction xs rule: rev_induct) (auto simp: remove1_append)

lemma sum_list_remove1:
  fixes f :: "'a \<Rightarrow> int"
  shows "x \<in> set xs \<Longrightarrow> sum_list (map f (remove1 x xs)) = sum_list (map f xs) - f x"
  by (induction xs) auto

lemma butlast_subset_last_notin:
  "distinct xs \<Longrightarrow> xs \<noteq> [] \<Longrightarrow> set (butlast xs) = set xs - {last xs}"
  by (metis remove1_last_butlast set_remove1_distinct)

text \<open>The argument of a sum over a list matters only on the elements of the list.\<close>

lemma sum_list_map_cong:
  "(\<And>x. x \<in> set xs \<Longrightarrow> f x = g x) \<Longrightarrow> sum_list (map f xs) = sum_list (map g xs)"
  by (rule arg_cong [where f = sum_list]) (rule map_cong, auto)

lemma sum_list_map_fun_upd:
  assumes "distinct xs" "k \<in> set xs"
  shows "sum_list (map (f(k := v)) xs) = sum_list (map f xs) - (f k :: int) + v"
  using assms
proof (induction xs)
  case (Cons x xs)
  then show ?case
    by (cases "x = k") (auto intro!: sum_list_map_cong)
qed simp

end
