(* ===== verification/CacheObj.thy ===== *)
theory CacheObj
  imports Sim_Prelude
begin

text \<open>
  Requests (\<open>include/libCacheSim/request.h\<close>), cached objects (\<open>include/libCacheSim/cacheObj.h\<close>)
  and the intrusive doubly linked list every eviction queue is built from
  (\<open>cache/cacheObj.c\<close>). The list operations are modelled on an explicit heap, pointer write by
  pointer write, and each is shown to implement the list operation it stands for: the higher
  theories keep a queue as a list.
\<close>

section \<open>Requests and objects\<close>

type_synonym obj_id = "64 word"

text \<open>
  The fields of \<open>request_t\<close> the cache reads; the others belong to trace readers and analysers.
  Field names carry the prefix \<open>r_\<close> because \<open>cache_obj_t\<close> has fields of the same name.
\<close>

record request =
  r_clock_time :: int
  r_obj_id :: obj_id
  r_obj_size :: int
  r_ttl :: int
  r_next_access_vtime :: int
  r_valid :: bool

definition new_request :: request where
  "new_request = \<lparr>r_clock_time = 0, r_obj_id = 0, r_obj_size = 1, r_ttl = 0,
     r_next_access_vtime = -2, r_valid = True\<rparr>"

text \<open>
  \<open>cache_obj_t\<close> without its link fields. \<open>md\<close> is the union of the per-algorithm metadata: an
  algorithm instantiates \<open>'m\<close> with the member it uses. The class \<open>zero\<close> on \<open>'m\<close> gives the
  all-zero value \<open>memset\<close> leaves there.
\<close>

record 'm cache_obj =
  obj_id :: obj_id
  obj_size :: int
  misc_next_access_vtime :: int
  misc_freq :: int
  md :: 'm

definition copy_cache_obj_to_request :: "request \<Rightarrow> 'm cache_obj \<Rightarrow> request" where
  "copy_cache_obj_to_request req_dest cache_obj =
     req_dest\<lparr>r_obj_id := obj_id cache_obj, r_obj_size := obj_size cache_obj,
       r_next_access_vtime := misc_next_access_vtime cache_obj, r_valid := True\<rparr>"

text \<open>The object's size field has 32 bits, the request's 64: the assignment truncates.\<close>

definition copy_request_to_cache_obj :: "'m cache_obj \<Rightarrow> request \<Rightarrow> 'm cache_obj" where
  "copy_request_to_cache_obj cache_obj req =
     cache_obj\<lparr>obj_size := to_u32 (r_obj_size req), obj_id := r_obj_id req\<rparr>"

definition zero_obj :: "'m::zero cache_obj" where
  "zero_obj = \<lparr>obj_id = 0, obj_size = 0, misc_next_access_vtime = 0, misc_freq = 0, md = 0\<rparr>"

definition create_cache_obj_from_request :: "request option \<Rightarrow> 'm::zero cache_obj" where
  "create_cache_obj_from_request req =
     (case req of None \<Rightarrow> zero_obj | Some r \<Rightarrow> copy_request_to_cache_obj zero_obj r)"

lemma create_cache_obj_simps [simp]:
  "obj_id (create_cache_obj_from_request (Some r)) = r_obj_id r"
  "obj_size (create_cache_obj_from_request (Some r)) = to_u32 (r_obj_size r)"
  "md (create_cache_obj_from_request (Some r)) = 0"
  "misc_freq (create_cache_obj_from_request (Some r)) = 0"
  by (simp_all add: create_cache_obj_from_request_def copy_request_to_cache_obj_def zero_obj_def)

lemma copy_cache_obj_to_request_simps [simp]:
  "r_obj_id (copy_cache_obj_to_request r x) = obj_id x"
  "r_obj_size (copy_cache_obj_to_request r x) = obj_size x"
  "r_next_access_vtime (copy_cache_obj_to_request r x) = misc_next_access_vtime x"
  by (simp_all add: copy_cache_obj_to_request_def)

section \<open>The heap\<close>

text \<open>
  A pointer is \<open>None\<close> (NULL) or an address. A heap cell holds an object together with its link
  fields \<open>hash_next\<close>, \<open>queue.prev\<close> and \<open>queue.next\<close>; an address with no cell is not allocated.
\<close>

type_synonym addr = nat
type_synonym ptr = "addr option"

record 'm node =
  hash_next :: ptr
  prev :: ptr
  nxt :: ptr
  payload :: "'m cache_obj"

type_synonym 'm heap = "addr \<rightharpoonup> 'm node"

definition load :: "'m heap \<Rightarrow> ptr \<Rightarrow> 'm node result" where
  "load h p = (case p of None \<Rightarrow> Inl NullDeref
     | Some a \<Rightarrow> (case h a of None \<Rightarrow> Inl UseAfterFree | Some n \<Rightarrow> Inr n))"

definition store :: "'m heap \<Rightarrow> ptr \<Rightarrow> ('m node \<Rightarrow> 'm node) \<Rightarrow> 'm heap result" where
  "store h p f = (case p of None \<Rightarrow> Inl NullDeref
     | Some a \<Rightarrow> (case h a of None \<Rightarrow> Inl UseAfterFree | Some n \<Rightarrow> Inr (h(a \<mapsto> f n))))"

lemma load_Some [simp, result_simps]: "h a = Some n \<Longrightarrow> load h (Some a) = Inr n"
  by (simp add: load_def)

lemma store_Some [simp, result_simps]: "h a = Some n \<Longrightarrow> store h (Some a) f = Inr (h(a \<mapsto> f n))"
  by (simp add: store_def)

lemma load_None [simp]: "load h None = Inl NullDeref"
  by (simp add: load_def)

lemma store_None [simp]: "store h None f = Inl NullDeref"
  by (simp add: store_def)

text \<open>\<open>store_if_ptr\<close> is the source's \<open>if (p != NULL) p->f = v\<close>.\<close>

definition store_if_ptr :: "'m heap \<Rightarrow> ptr \<Rightarrow> ('m node \<Rightarrow> 'm node) \<Rightarrow> 'm heap result" where
  "store_if_ptr h p f = (if p = None then Inr h else store h p f)"

lemma store_if_ptr_simps [simp, result_simps]:
  "store_if_ptr h None f = Inr h"
  "store_if_ptr h (Some a) f = store h (Some a) f"
  by (simp_all add: store_if_ptr_def)

section \<open>The doubly linked list of \<open>cacheObj.c\<close>\<close>

text \<open>
  \<open>cache_obj_t **head\<close> is modelled as \<open>ptr option\<close> where the function tests it against NULL:
  \<open>None\<close> is \<open>head == NULL\<close>, \<open>Some p\<close> is \<open>*head == p\<close>. Functions that dereference it without a test
  take the value \<open>*head\<close> itself. \<open>DEBUG_ASSERT\<close> is compiled out at the default log level.
\<close>

definition remove_obj_from_list ::
  "'m heap \<Rightarrow> ptr option \<Rightarrow> ptr option \<Rightarrow> ptr \<Rightarrow> ('m heap \<times> ptr option \<times> ptr option) result" where
  "remove_obj_from_list h head tail cache_obj =
     bindE (if head = Some cache_obj
            then bindE (load h cache_obj) (\<lambda>n.
                 bindE (store_if_ptr h (nxt n) (\<lambda>m. m\<lparr>prev := None\<rparr>)) (\<lambda>h.
                 Inr (h, Some (nxt n))))
            else Inr (h, head)) (\<lambda>(h, head).
     bindE (if tail = Some cache_obj
            then bindE (load h cache_obj) (\<lambda>n.
                 bindE (store_if_ptr h (prev n) (\<lambda>m. m\<lparr>nxt := None\<rparr>)) (\<lambda>h.
                 Inr (h, Some (prev n))))
            else Inr (h, tail)) (\<lambda>(h, tail).
     bindE (load h cache_obj) (\<lambda>n.
     bindE (store_if_ptr h (prev n) (\<lambda>m. m\<lparr>nxt := nxt n\<rparr>)) (\<lambda>h.
     bindE (load h cache_obj) (\<lambda>n.
     bindE (store_if_ptr h (nxt n) (\<lambda>m. m\<lparr>prev := prev n\<rparr>)) (\<lambda>h.
     bindE (store h cache_obj (\<lambda>m. m\<lparr>prev := None\<rparr>)) (\<lambda>h.
     bindE (store h cache_obj (\<lambda>m. m\<lparr>nxt := None\<rparr>)) (\<lambda>h.
     Inr (h, head, tail)))))))))"

definition move_obj_to_tail ::
  "'m heap \<Rightarrow> ptr \<Rightarrow> ptr \<Rightarrow> ptr \<Rightarrow> ('m heap \<times> ptr \<times> ptr) result" where
  "move_obj_to_tail h head tail cache_obj =
     (if head = tail then
        bindE (load h cache_obj) (\<lambda>n.
        if cache_obj = head \<and> nxt n = None \<and> prev n = None then Inr (h, head, tail)
        else Inl AssertFail)
      else if cache_obj = head then
        bindE (load h cache_obj) (\<lambda>n.
        bindE (store h (nxt n) (\<lambda>m. m\<lparr>prev := None\<rparr>)) (\<lambda>h.
        bindE (store h tail (\<lambda>m. m\<lparr>nxt := cache_obj\<rparr>)) (\<lambda>h.
        bindE (store h cache_obj (\<lambda>m. m\<lparr>nxt := None\<rparr>)) (\<lambda>h.
        bindE (store h cache_obj (\<lambda>m. m\<lparr>prev := tail\<rparr>)) (\<lambda>h.
        Inr (h, nxt n, cache_obj))))))
      else if cache_obj = tail then Inr (h, head, tail)
      else
        bindE (load h cache_obj) (\<lambda>n.
        bindE (store h (prev n) (\<lambda>m. m\<lparr>nxt := nxt n\<rparr>)) (\<lambda>h.
        bindE (load h cache_obj) (\<lambda>n.
        bindE (store h (nxt n) (\<lambda>m. m\<lparr>prev := prev n\<rparr>)) (\<lambda>h.
        bindE (store h tail (\<lambda>m. m\<lparr>nxt := cache_obj\<rparr>)) (\<lambda>h.
        bindE (store h cache_obj (\<lambda>m. m\<lparr>nxt := None\<rparr>)) (\<lambda>h.
        bindE (store h cache_obj (\<lambda>m. m\<lparr>prev := tail\<rparr>)) (\<lambda>h.
        Inr (h, head, cache_obj)))))))))"

definition move_obj_to_head ::
  "'m heap \<Rightarrow> ptr \<Rightarrow> ptr option \<Rightarrow> ptr \<Rightarrow> ('m heap \<times> ptr \<times> ptr option) result" where
  "move_obj_to_head h head tail cache_obj =
     (if tail = Some head then Inr (h, head, tail)
      else if cache_obj = head then Inr (h, head, tail)
      else if tail = Some cache_obj then
        bindE (load h cache_obj) (\<lambda>n.
        bindE (store h (prev n) (\<lambda>m. m\<lparr>nxt := nxt n\<rparr>)) (\<lambda>h.
        bindE (load h cache_obj) (\<lambda>n.
        bindE (store h head (\<lambda>m. m\<lparr>prev := cache_obj\<rparr>)) (\<lambda>h.
        bindE (store h cache_obj (\<lambda>m. m\<lparr>prev := None\<rparr>)) (\<lambda>h.
        bindE (store h cache_obj (\<lambda>m. m\<lparr>nxt := head\<rparr>)) (\<lambda>h.
        Inr (h, cache_obj, Some (prev n))))))))
      else
        bindE (load h cache_obj) (\<lambda>n.
        bindE (store h (prev n) (\<lambda>m. m\<lparr>nxt := nxt n\<rparr>)) (\<lambda>h.
        bindE (load h cache_obj) (\<lambda>n.
        bindE (store h (nxt n) (\<lambda>m. m\<lparr>prev := prev n\<rparr>)) (\<lambda>h.
        bindE (store h head (\<lambda>m. m\<lparr>prev := cache_obj\<rparr>)) (\<lambda>h.
        bindE (store h cache_obj (\<lambda>m. m\<lparr>prev := None\<rparr>)) (\<lambda>h.
        bindE (store h cache_obj (\<lambda>m. m\<lparr>nxt := head\<rparr>)) (\<lambda>h.
        Inr (h, cache_obj, tail)))))))))"

definition prepend_obj_to_head ::
  "'m heap \<Rightarrow> ptr option \<Rightarrow> ptr option \<Rightarrow> ptr \<Rightarrow> ('m heap \<times> ptr option \<times> ptr option) result" where
  "prepend_obj_to_head h head tail cache_obj =
     (case head of None \<Rightarrow> Inl AssertFail
      | Some q \<Rightarrow>
        bindE (store h cache_obj (\<lambda>m. m\<lparr>prev := None\<rparr>)) (\<lambda>h.
        bindE (store h cache_obj (\<lambda>m. m\<lparr>nxt := q\<rparr>)) (\<lambda>h.
        let tail = (if tail = Some None then Some cache_obj else tail) in
        bindE (store_if_ptr h q (\<lambda>m. m\<lparr>prev := cache_obj\<rparr>)) (\<lambda>h.
        Inr (h, Some cache_obj, tail)))))"

definition append_obj_to_tail ::
  "'m heap \<Rightarrow> ptr option \<Rightarrow> ptr \<Rightarrow> ptr \<Rightarrow> ('m heap \<times> ptr option \<times> ptr) result" where
  "append_obj_to_tail h head tail cache_obj =
     bindE (store h cache_obj (\<lambda>m. m\<lparr>nxt := None\<rparr>)) (\<lambda>h.
     bindE (store h cache_obj (\<lambda>m. m\<lparr>prev := tail\<rparr>)) (\<lambda>h.
     let head = (if head = Some None then Some cache_obj else head) in
     bindE (store_if_ptr h tail (\<lambda>m. m\<lparr>nxt := cache_obj\<rparr>)) (\<lambda>h.
     Inr (h, head, cache_obj))))"

section \<open>The list a heap represents\<close>

definition first_or :: "addr list \<Rightarrow> ptr \<Rightarrow> ptr" where
  "first_or xs q = (case xs of [] \<Rightarrow> q | x # _ \<Rightarrow> Some x)"

definition last_or :: "ptr \<Rightarrow> addr list \<Rightarrow> ptr" where
  "last_or p xs = (if xs = [] then p else Some (last xs))"

text \<open>
  \<open>dseg h p xs q\<close>: the cells \<open>xs\<close> are chained in both directions, the first one's \<open>prev\<close> being
  \<open>p\<close> and the last one's \<open>next\<close> being \<open>q\<close>.
\<close>

fun dseg :: "'m heap \<Rightarrow> ptr \<Rightarrow> addr list \<Rightarrow> ptr \<Rightarrow> bool" where
  "dseg h p [] q = True"
| "dseg h p (a # as) q = (case h a of None \<Rightarrow> False
     | Some n \<Rightarrow> prev n = p \<and> nxt n = first_or as q \<and> dseg h (Some a) as q)"

definition dll :: "'m heap \<Rightarrow> ptr \<Rightarrow> ptr \<Rightarrow> addr list \<Rightarrow> bool" where
  "dll h head tail xs \<longleftrightarrow>
     distinct xs \<and> dseg h None xs None \<and> head = first_or xs None \<and> tail = last_or None xs"

text \<open>
  What a list operation on the cells \<open>A\<close> leaves alone: every cell outside \<open>A\<close>, and in every cell the
  object itself and its hash chain link.
\<close>

definition unlink :: "'m node \<Rightarrow> 'm node" where
  "unlink n = n\<lparr>prev := None, nxt := None\<rparr>"

definition links_only :: "'m heap \<Rightarrow> 'm heap \<Rightarrow> addr set \<Rightarrow> bool" where
  "links_only h h' A \<longleftrightarrow>
     (\<forall>b. map_option unlink (h' b) = map_option unlink (h b)) \<and> (\<forall>b. b \<notin> A \<longrightarrow> h' b = h b)"

lemma first_or_simps [simp]: "first_or [] q = q" "first_or (x # xs) q = Some x"
  by (simp_all add: first_or_def)

lemma last_or_simps [simp]:
  "last_or p [] = p" "last_or p (xs @ [x]) = Some x" "last_or p [x] = Some x"
  "last_or p (x # xs) = last_or (Some x) xs"
  by (simp_all add: last_or_def)

lemma first_or_append: "first_or (xs @ ys) q = first_or xs (first_or ys q)"
  by (cases xs) simp_all

lemma dseg_append [simp]:
  "dseg h p (as @ bs) q \<longleftrightarrow> dseg h p as (first_or bs q) \<and> dseg h (last_or p as) bs q"
  by (induction as arbitrary: p) (auto simp: first_or_append split: option.splits)

lemma dseg_upd_notin [simp]: "a \<notin> set as \<Longrightarrow> dseg (h(a := v)) p as q = dseg h p as q"
  by (induction as arbitrary: p) (auto split: option.splits)

lemma dseg_cong: "(\<And>a. a \<in> set as \<Longrightarrow> h' a = h a) \<Longrightarrow> dseg h' p as q = dseg h p as q"
  by (induction as arbitrary: p) (auto split: option.splits)

lemma dseg_allocated: "dseg h p as q \<Longrightarrow> a \<in> set as \<Longrightarrow> h a \<noteq> None"
  by (induction as arbitrary: p) (auto split: option.splits)

lemma unlink_simps [simp]:
  "unlink (n\<lparr>prev := p\<rparr>) = unlink n" "unlink (n\<lparr>nxt := p\<rparr>) = unlink n"
  "payload (unlink n) = payload n" "hash_next (unlink n) = hash_next n"
  by (simp_all add: unlink_def)

section \<open>The operations implement the list operations\<close>

text \<open>
  Every operation of the list amounts to making two cells neighbours; \<open>link h p q\<close> is that step, and
  joining two segments with it gives one segment.
\<close>

definition link :: "'m heap \<Rightarrow> ptr \<Rightarrow> ptr \<Rightarrow> 'm heap" where
  "link h p q = (let h1 = (case p of None \<Rightarrow> h
                    | Some a \<Rightarrow> h(a := map_option (\<lambda>n. n\<lparr>nxt := q\<rparr>) (h a)))
                 in case q of None \<Rightarrow> h1
                    | Some b \<Rightarrow> h1(b := map_option (\<lambda>n. n\<lparr>prev := p\<rparr>) (h1 b)))"

lemma link_other: "p \<noteq> Some a \<Longrightarrow> q \<noteq> Some a \<Longrightarrow> link h p q a = h a"
  by (auto simp: link_def Let_def split: option.splits)

lemma unlink_link [simp]: "map_option unlink (link h p q b) = map_option unlink (h b)"
  by (cases "h b") (auto simp: link_def Let_def option.map_comp comp_def split: option.splits)

lemma link_links_only:
  "(\<And>a. p = Some a \<Longrightarrow> a \<in> A) \<Longrightarrow> (\<And>a. q = Some a \<Longrightarrow> a \<in> A) \<Longrightarrow> links_only h (link h p q) A"
  unfolding links_only_def by (metis link_other unlink_link)

lemma links_only_trans: "links_only h h' A \<Longrightarrow> links_only h' h'' A \<Longrightarrow> links_only h h'' A"
  by (auto simp: links_only_def)

lemma links_only_upd:
  "h a = Some n \<Longrightarrow> unlink m = unlink n \<Longrightarrow> a \<in> A \<Longrightarrow> links_only h (h(a \<mapsto> m)) A"
  by (auto simp: links_only_def)

lemma dseg_link:
  assumes "distinct (as @ bs)" "dseg h p as x" "dseg h y bs q"
  shows "dseg (link h (last_or None as) (first_or bs None)) p as (first_or bs None)"
    and "dseg (link h (last_or None as) (first_or bs None)) (last_or None as) bs q"
  using assms
  by (cases as rule: rev_cases; cases bs; auto simp: link_def Let_def split: option.splits)+

lemma dll_cell:
  assumes "dll h head tail (as @ a # bs)"
  obtains n where "h a = Some n" "prev n = last_or None as" "nxt n = first_or bs None"
    "head = first_or (as @ [a]) None" "tail = last_or (Some a) bs"
    "a \<notin> set as" "a \<notin> set bs" "distinct (as @ bs)"
    "dseg h None as (Some a)" "dseg h (Some a) bs None"
    "head = Some a \<longleftrightarrow> as = []" "tail = Some a \<longleftrightarrow> bs = []"
proof -
  have 1: "last_or (Some a) bs = Some a \<longleftrightarrow> bs = []" if "a \<notin> set bs"
    using that by (auto simp: last_or_def)
  have 2: "first_or (as @ [a]) None = Some a \<longleftrightarrow> as = []" if "a \<notin> set as"
    using that by (cases as) auto
  show thesis
    using assms that 1 2 by (auto simp: dll_def last_or_def first_or_append split: option.splits)
qed

lemma dll_remove:
  assumes "dll h head tail (as @ a # bs)" "h a = Some n"
  shows "dll ((link h (last_or None as) (first_or bs None))(a \<mapsto> m))
           (first_or (as @ bs) None) (last_or None (as @ bs)) (as @ bs)"
proof -
  obtain "a \<notin> set as" "a \<notin> set bs" "distinct (as @ bs)"
    "dseg h None as (Some a)" "dseg h (Some a) bs None"
    using dll_cell [OF assms(1)] by metis
  then show ?thesis
    by (simp add: dll_def dseg_link)
qed

lemma dll_prepend:
  assumes "dll h head tail xs" "a \<notin> set xs" "h a = Some n" "prev n = None"
  shows "dll (link h (Some a) (first_or xs None)) (Some a) (last_or (Some a) xs) (a # xs)"
proof -
  have "distinct ([a] @ xs)" "dseg h None [a] (nxt n)" "dseg h None xs None"
    using assms by (simp_all add: dll_def)
  from dseg_link [OF this] show ?thesis
    using assms by (auto simp: dll_def split: option.splits)
qed

lemma dll_append:
  assumes "dll h head tail xs" "a \<notin> set xs" "h a = Some n" "nxt n = None"
  shows "dll (link h (last_or None xs) (Some a)) (first_or xs (Some a)) (Some a) (xs @ [a])"
proof -
  have "distinct (xs @ [a])" "dseg h None xs None" "dseg h (prev n) [a] None"
    using assms by (simp_all add: dll_def)
  from dseg_link [OF this] show ?thesis
    using assms by (simp add: dll_def first_or_append)
qed

lemma remove_obj_from_list_eq:
  assumes "dll h head tail (as @ a # bs)" "h a = Some n"
  shows "remove_obj_from_list h (Some head) (Some tail) (Some a) =
    Inr ((link h (last_or None as) (first_or bs None))(a \<mapsto> unlink n),
         Some (first_or (as @ bs) None), Some (last_or None (as @ bs)))"
proof -
  obtain n' where n': "h a = Some n'" "prev n' = last_or None as" "nxt n' = first_or bs None"
    "head = first_or (as @ [a]) None" "tail = last_or (Some a) bs"
    "a \<notin> set as" "a \<notin> set bs" "distinct (as @ bs)"
    "dseg h None as (Some a)" "dseg h (Some a) bs None"
    "head = Some a \<longleftrightarrow> as = []" "tail = Some a \<longleftrightarrow> bs = []"
    using dll_cell [OF assms(1)] by metis
  note defs = remove_obj_from_list_def link_def unlink_def last_or_def first_or_append fun_eq_iff
  show ?thesis
    using n' assms(2)
    by (cases as rule: rev_cases; cases bs)
      (auto simp: defs split: option.splits)
qed

lemma move_obj_to_head_eq:
  assumes "dll h head tail (as @ a # bs)" "h a = Some n" "as \<noteq> []"
  shows "move_obj_to_head h head (Some tail) (Some a) =
    Inr (link ((link h (last_or None as) (first_or bs None))(a \<mapsto> unlink n)) (Some a) (first_or as None),
         Some a, Some (last_or None (as @ bs)))"
proof -
  obtain n' where n': "h a = Some n'" "prev n' = last_or None as" "nxt n' = first_or bs None"
    "head = first_or (as @ [a]) None" "tail = last_or (Some a) bs"
    "a \<notin> set as" "a \<notin> set bs" "distinct (as @ bs)"
    "dseg h None as (Some a)" "dseg h (Some a) bs None"
    "head = Some a \<longleftrightarrow> as = []" "tail = Some a \<longleftrightarrow> bs = []"
    using dll_cell [OF assms(1)] by metis
  note defs = move_obj_to_head_def link_def unlink_def last_or_def first_or_append fun_eq_iff
  obtain as' c where as: "as = as' @ [c]" using assms(3) by (metis rev_exhaust)
  have ht: "head \<noteq> tail" using n' as by (cases bs; cases as') (auto simp: last_or_def split: if_splits)
  show ?thesis
    using n' assms(2,3) as ht
    by (cases as'; cases bs)
      (auto simp: defs split: option.splits)
qed


lemma move_obj_to_tail_eq:
  assumes "dll h head tail (as @ a # bs)" "h a = Some n" "bs \<noteq> []"
  shows "move_obj_to_tail h head tail (Some a) =
    Inr (link ((link h (last_or None as) (first_or bs None))(a \<mapsto> unlink n)) (last_or None bs) (Some a),
         first_or (as @ bs) None, Some a)"
proof -
  obtain n' where n': "h a = Some n'" "prev n' = last_or None as" "nxt n' = first_or bs None"
    "head = first_or (as @ [a]) None" "tail = last_or (Some a) bs"
    "a \<notin> set as" "a \<notin> set bs" "distinct (as @ bs)"
    "dseg h None as (Some a)" "dseg h (Some a) bs None"
    "head = Some a \<longleftrightarrow> as = []" "tail = Some a \<longleftrightarrow> bs = []"
    using dll_cell [OF assms(1)] by metis
  note defs = move_obj_to_tail_def link_def unlink_def first_or_append fun_eq_iff
  obtain bs' c where bs: "bs = bs' @ [c]" using assms(3) by (metis rev_exhaust)
  have ht: "head \<noteq> tail" using n' bs by (cases as; cases bs') (auto simp: last_or_def split: if_splits)
  show ?thesis
    using n' assms(2,3) bs ht
    by (cases as rule: rev_cases; cases bs')
      (auto simp: defs split: option.splits)
qed

lemma prepend_obj_to_head_eq:
  assumes "dll h head tail xs" "h a = Some n" "a \<notin> set xs"
  shows "prepend_obj_to_head h (Some head) (Some tail) (Some a) =
    Inr (link (h(a \<mapsto> n\<lparr>prev := None\<rparr>)) (Some a) (first_or xs None),
         Some (Some a), Some (last_or (Some a) xs))"
proof (cases xs)
  case Nil
  with assms show ?thesis
    by (auto simp: prepend_obj_to_head_def dll_def link_def Let_def)
next
  case (Cons b bs)
  with assms show ?thesis
    by (auto simp: prepend_obj_to_head_def dll_def link_def Let_def last_or_def fun_eq_iff
        split: option.splits)
qed

lemma append_obj_to_tail_eq:
  assumes "dll h head tail xs" "h a = Some n" "a \<notin> set xs"
  shows "append_obj_to_tail h (Some head) tail (Some a) =
    Inr (link (h(a \<mapsto> n\<lparr>nxt := None\<rparr>)) (last_or None xs) (Some a),
         Some (first_or xs (Some a)), Some a)"
proof (cases xs rule: rev_cases)
  case Nil
  with assms show ?thesis
    by (auto simp: append_obj_to_tail_def dll_def link_def Let_def)
next
  case (snoc bs b)
  with assms show ?thesis
    by (cases bs) (auto simp: append_obj_to_tail_def dll_def link_def Let_def fun_eq_iff
        split: option.splits)
qed


lemma dll_change_outside:
  "dll h head tail xs \<Longrightarrow> a \<notin> set xs \<Longrightarrow> dll (h(a := v)) head tail xs"
  by (simp add: dll_def)

lemma unlink_unlink [simp]: "unlink (unlink n) = unlink n"
  by (simp add: unlink_def)

lemma last_or_mem: "last_or None xs = Some a \<Longrightarrow> a \<in> set xs"
  by (auto simp: last_or_def split: if_splits)

lemma first_or_mem: "first_or xs None = Some a \<Longrightarrow> a \<in> set xs"
  by (cases xs) auto

lemmas end_mem = last_or_mem first_or_mem

text \<open>A heap with the list \<open>[1, 2]\<close> and the separate cell \<open>3\<close>, for the examples below.\<close>

definition example_heap :: "nat heap" where
  "example_heap = Map.empty
     (1 \<mapsto> \<lparr>hash_next = None, prev = None, nxt = Some 2, payload = zero_obj\<rparr>,
      2 \<mapsto> \<lparr>hash_next = None, prev = Some 1, nxt = None, payload = zero_obj\<rparr>,
      3 \<mapsto> \<lparr>hash_next = None, prev = None, nxt = None, payload = zero_obj\<rparr>)"

lemma example_heap_dll: "dll example_heap (Some 1) (Some 2) [1, 2]"
  by (simp add: dll_def example_heap_def)

lemma example_heap_cell: "example_heap 3 = Some \<lparr>hash_next = None, prev = None, nxt = None, payload = zero_obj\<rparr>"
  by (simp add: example_heap_def)

text \<open>
  \<open>prepend_obj_to_head\<close> on a doubly linked list and a cell outside it ends without a bad
  access, and the heap then holds the list with that cell in front; no object, no hash chain and no
  cell outside the list is changed.
\<close>

lemma prepend_obj_to_head_refines:
  assumes "dll h head tail xs" "h a = Some n" "a \<notin> set xs"
  shows "\<exists>h' tail'. prepend_obj_to_head h (Some head) (Some tail) (Some a) =
             Inr (h', Some (Some a), Some tail')
           \<and> dll h' (Some a) tail' (a # xs) \<and> links_only h h' (insert a (set xs))"
proof -
  let ?h = "h(a \<mapsto> n\<lparr>prev := None\<rparr>)"
  have "dll ?h head tail xs"
    using assms by (simp add: dll_change_outside)
  then have "dll (link ?h (Some a) (first_or xs None)) (Some a) (last_or (Some a) xs) (a # xs)"
    using assms by (simp add: dll_prepend [where n = "n\<lparr>prev := None\<rparr>"])
  moreover have "links_only h (link ?h (Some a) (first_or xs None)) (insert a (set xs))"
    by (rule links_only_trans [OF links_only_upd link_links_only])
      (use assms in \<open>auto dest: end_mem\<close>)
  ultimately show ?thesis
    using prepend_obj_to_head_eq [OF assms] by blast
qed

text \<open>
  \<open>append_obj_to_tail\<close> on a doubly linked list and a cell outside it ends without a bad
  access, and the heap then holds the list with that cell at the end; no object, no hash chain and
  no cell outside the list is changed.
\<close>

lemma append_obj_to_tail_refines:
  assumes "dll h head tail xs" "h a = Some n" "a \<notin> set xs"
  shows "\<exists>h' head'. append_obj_to_tail h (Some head) tail (Some a) =
             Inr (h', Some head', Some a)
           \<and> dll h' head' (Some a) (xs @ [a]) \<and> links_only h h' (insert a (set xs))"
proof -
  let ?h = "h(a \<mapsto> n\<lparr>nxt := None\<rparr>)"
  have "dll ?h head tail xs"
    using assms by (simp add: dll_change_outside)
  then have "dll (link ?h (last_or None xs) (Some a)) (first_or xs (Some a)) (Some a) (xs @ [a])"
    using assms by (simp add: dll_append [where n = "n\<lparr>nxt := None\<rparr>"])
  moreover have "links_only h (link ?h (last_or None xs) (Some a)) (insert a (set xs))"
    by (rule links_only_trans [OF links_only_upd link_links_only])
      (use assms in \<open>auto dest: end_mem\<close>)
  ultimately show ?thesis
    using append_obj_to_tail_eq [OF assms] by blast
qed

text \<open>The cells the removal of \<open>a\<close> writes: its neighbours and \<open>a\<close> itself.\<close>

lemma remove_links_only:
  assumes "h a = Some n" "a \<notin> set as" "a \<notin> set bs"
  shows "links_only h ((link h (last_or None as) (first_or bs None))(a \<mapsto> unlink n))
           (set (as @ a # bs))"
proof (rule links_only_trans [OF link_links_only links_only_upd])
  show "link h (last_or None as) (first_or bs None) a = Some n"
    using assms link_other [of "last_or None as" a "first_or bs None" h] by (auto dest: end_mem)
qed (auto dest: end_mem)

text \<open>
  \<open>remove_obj_from_list\<close> of any cell of a doubly linked list (first, last, inner or only one)
  ends without a bad access and leaves the list without that cell and everything else as it was.
\<close>

lemma remove_obj_from_list_refines:
  assumes "dll h head tail xs" "a \<in> set xs"
  shows "\<exists>h' head' tail'. remove_obj_from_list h (Some head) (Some tail) (Some a) =
             Inr (h', Some head', Some tail')
           \<and> dll h' head' tail' (remove1 a xs) \<and> links_only h h' (set xs)"
proof -
  obtain as bs where xs: "xs = as @ a # bs" and a: "a \<notin> set as"
    using assms(2) by (meson split_list_first)
  obtain n where n: "h a = Some n" "a \<notin> set bs"
    using dll_cell [OF assms(1) [unfolded xs]] by metis
  have "remove1 a xs = as @ bs"
    using xs a by (simp add: remove1_append)
  then show ?thesis
    using remove_obj_from_list_eq [OF assms(1) [unfolded xs] n(1)]
      dll_remove [OF assms(1) [unfolded xs] n(1)] remove_links_only [of h a n as bs] a n
    by (simp add: xs)
qed

text \<open>
  \<open>move_obj_to_head\<close> of any cell of a doubly linked list ends without a bad access and leaves
  the list with that cell in front and the others in their order.
\<close>

lemma move_obj_to_head_refines:
  assumes "dll h head tail xs" "a \<in> set xs"
  shows "\<exists>h' head' tail'. move_obj_to_head h head (Some tail) (Some a) = Inr (h', head', Some tail')
           \<and> dll h' head' tail' (a # remove1 a xs) \<and> links_only h h' (set xs)"
proof -
  obtain as bs where xs: "xs = as @ a # bs" and a: "a \<notin> set as"
    using assms(2) by (meson split_list_first)
  obtain n where n: "h a = Some n" "a \<notin> set bs"
    using dll_cell [OF assms(1) [unfolded xs]] by metis
  have r: "remove1 a xs = as @ bs"
    using xs a by (simp add: remove1_append)
  show ?thesis
  proof (cases "as = []")
    case True
    then show ?thesis
      using assms xs r by (auto simp: move_obj_to_head_def dll_def links_only_def)
  next
    case False
    let ?h = "(link h (last_or None as) (first_or bs None))(a \<mapsto> unlink n)"
    have rem: "links_only h ?h (set xs)"
      using remove_links_only [of h a n as bs] a n by (simp add: xs)
    have f: "first_or (as @ bs) None = first_or as None"
      using False by (cases as) simp_all
    have "dll ?h (first_or (as @ bs) None) (last_or None (as @ bs)) (as @ bs)"
      using assms(1) n by (simp add: xs dll_remove)
    then have "dll (link ?h (Some a) (first_or as None)) (Some a) (last_or (Some a) (as @ bs))
                 (a # as @ bs)"
      using dll_prepend [of ?h _ _ "as @ bs" a "unlink n"] a n f by (simp add: unlink_def)
    moreover have "last_or (Some a) (as @ bs) = last_or None (as @ bs)"
      using False by (simp add: last_or_def)
    moreover have "links_only ?h (link ?h (Some a) (first_or as None)) (set xs)"
      by (rule link_links_only) (use xs in \<open>auto dest: end_mem\<close>)
    with rem have "links_only h (link ?h (Some a) (first_or as None)) (set xs)"
      by (rule links_only_trans)
    ultimately show ?thesis
      using move_obj_to_head_eq [OF assms(1) [unfolded xs] n(1) False] r by auto
  qed
qed

text \<open>
  \<open>move_obj_to_tail\<close> of any cell of a doubly linked list ends without a bad access and leaves
  the list with that cell at the end and the others in their order.
\<close>

lemma move_obj_to_tail_refines:
  assumes "dll h head tail xs" "a \<in> set xs"
  shows "\<exists>h' head' tail'. move_obj_to_tail h head tail (Some a) = Inr (h', head', tail')
           \<and> dll h' head' tail' (remove1 a xs @ [a]) \<and> links_only h h' (set xs)"
proof -
  obtain as bs where xs: "xs = as @ a # bs" and a: "a \<notin> set as"
    using assms(2) by (meson split_list_first)
  obtain n where n: "h a = Some n" "a \<notin> set bs" "nxt n = first_or bs None" "prev n = last_or None as"
    "head = Some a \<longleftrightarrow> as = []" "tail = Some a \<longleftrightarrow> bs = []"
    using dll_cell [OF assms(1) [unfolded xs]] by metis
  have r: "remove1 a xs = as @ bs"
    using xs a by (simp add: remove1_append)
  show ?thesis
  proof (cases "bs = []")
    case True
    then show ?thesis
      using assms xs r n by (cases "as = []") (auto simp: move_obj_to_tail_def dll_def links_only_def)
  next
    case False
    let ?h = "(link h (last_or None as) (first_or bs None))(a \<mapsto> unlink n)"
    have rem: "links_only h ?h (set xs)"
      using remove_links_only [of h a n as bs] a n by (simp add: xs)
    have f: "last_or None (as @ bs) = last_or None bs"
      using False by (simp add: last_or_def)
    have "dll ?h (first_or (as @ bs) None) (last_or None (as @ bs)) (as @ bs)"
      using assms(1) n by (simp add: xs dll_remove)
    then have "dll (link ?h (last_or None bs) (Some a)) (first_or (as @ bs) (Some a)) (Some a)
                 ((as @ bs) @ [a])"
      using dll_append [of ?h _ _ "as @ bs" a "unlink n"] a n f by (simp add: unlink_def)
    moreover have "first_or (as @ bs) (Some a) = first_or (as @ bs) None"
      using False by (cases as; cases bs) simp_all
    moreover have "links_only ?h (link ?h (last_or None bs) (Some a)) (set xs)"
      by (rule link_links_only) (use xs in \<open>auto dest: end_mem\<close>)
    with rem have "links_only h (link ?h (last_or None bs) (Some a)) (set xs)"
      by (rule links_only_trans)
    ultimately show ?thesis
      using move_obj_to_tail_eq [OF assms(1) [unfolded xs] n(1) False] r by auto
  qed
qed

section \<open>Properties\<close>

text \<open>
  C25: the two insertions into a doubly linked list implement those into a list. \<open>prepend_obj_to_head\<close> and
  \<open>append_obj_to_tail\<close> with a cell outside the list end without a bad access, and the heap then holds the
  list with that cell in front (at the end); no object, no hash chain and no cell outside is changed.
\<close>

theorem list_insertions_refine:
  assumes "dll h head tail xs" "h a = Some n" "a \<notin> set xs"
  shows "(\<exists>h' tail'. prepend_obj_to_head h (Some head) (Some tail) (Some a) = Inr (h', Some (Some a), Some tail') \<and>
       dll h' (Some a) tail' (a # xs) \<and> links_only h h' (insert a (set xs))) \<and>
     (\<exists>h' head'. append_obj_to_tail h (Some head) tail (Some a) = Inr (h', Some head', Some a) \<and>
       dll h' head' (Some a) (xs @ [a]) \<and> links_only h h' (insert a (set xs)))"
  using prepend_obj_to_head_refines [OF assms] append_obj_to_tail_refines [OF assms] by blast

theorem list_insertions_refine_witness:
  "(\<exists>h' tail'. prepend_obj_to_head example_heap (Some (Some 1)) (Some (Some 2)) (Some 3) =
      Inr (h', Some (Some 3), Some tail') \<and> dll h' (Some 3) tail' [3, 1, 2]) \<and>
   (\<exists>h' head'. append_obj_to_tail example_heap (Some (Some 1)) (Some 2) (Some 3) =
      Inr (h', Some head', Some 3) \<and> dll h' head' (Some 3) [1, 2, 3])"
  using list_insertions_refine [OF example_heap_dll example_heap_cell] by auto

text \<open>
  C26: removing any cell of a doubly linked list (first, last, inner or only one), and moving it to either
  end, ends without a bad access, leaves the others in their order and changes nothing but links.
\<close>

theorem list_removals_refine:
  assumes "dll h head tail xs" "a \<in> set xs"
  shows "(\<exists>h' head' tail'. remove_obj_from_list h (Some head) (Some tail) (Some a) = Inr (h', Some head', Some tail') \<and>
       dll h' head' tail' (remove1 a xs) \<and> links_only h h' (set xs)) \<and>
     (\<exists>h' head' tail'. move_obj_to_head h head (Some tail) (Some a) = Inr (h', head', Some tail') \<and>
       dll h' head' tail' (a # remove1 a xs) \<and> links_only h h' (set xs)) \<and>
     (\<exists>h' head' tail'. move_obj_to_tail h head tail (Some a) = Inr (h', head', tail') \<and>
       dll h' head' tail' (remove1 a xs @ [a]) \<and> links_only h h' (set xs))"
  by (intro conjI remove_obj_from_list_refines [OF assms] move_obj_to_head_refines [OF assms]
      move_obj_to_tail_refines [OF assms])

theorem list_removals_refine_witness:
  "(\<exists>h' head' tail'. remove_obj_from_list example_heap (Some (Some 1)) (Some (Some 2)) (Some 1) =
      Inr (h', Some head', Some tail') \<and> dll h' head' tail' [2]) \<and>
   (\<exists>h' head' tail'. move_obj_to_tail example_heap (Some 1) (Some 2) (Some 1) =
      Inr (h', head', tail') \<and> dll h' head' tail' [2, 1])"
  using list_removals_refine [OF example_heap_dll, of 1] by auto

end
