(* ===== verification/XXHash.thy ===== *)
theory XXHash
  imports Sim_Prelude
begin

text \<open>
  The two hash functions the simulator applies to 8-byte object ids
  (\<open>dataStructure/hash/hash.h\<close>): \<open>XXH3_64bits\<close>, which picks the bucket of the hash table
  (\<open>get_hash_value_int_64\<close>), and \<open>XXH64\<close>, which picks the counters of the sketch. Both are
  modelled on the path an input of 8 bytes takes, on a little-endian machine, and
  \<open>XXH3_64bits\<close> is shown to be injective there: two ids share a bucket only because the table
  keeps the low bits of the hash.
\<close>

section \<open>Primitives\<close>

definition XXH_rotl64 :: "64 word \<Rightarrow> nat \<Rightarrow> 64 word" where
  "XXH_rotl64 x r = push_bit r x OR drop_bit (64 - r) x"

definition XXH_xorshift64 :: "64 word \<Rightarrow> nat \<Rightarrow> 64 word" where
  "XXH_xorshift64 v64 shift = v64 XOR drop_bit shift v64"

definition XXH_swap32 :: "32 word \<Rightarrow> 32 word" where
  "XXH_swap32 x = (push_bit 24 x AND 0xff000000) OR (push_bit 8 x AND 0x00ff0000)
     OR (drop_bit 8 x AND 0x0000ff00) OR (drop_bit 24 x AND 0x000000ff)"

text \<open>\<open>XXH_readLE64\<close> on a list of bytes, least significant byte first.\<close>

definition XXH_readLE64 :: "nat list \<Rightarrow> 64 word" where
  "XXH_readLE64 bytes = foldr (\<lambda>b acc. of_nat b + 256 * acc) (take 8 bytes) 0"

section \<open>\<open>XXH3_64bits\<close> on 8 bytes\<close>

definition XXH3_kSecret :: "nat list" where
  "XXH3_kSecret =
     [184, 254, 108, 57, 35, 164, 75, 190, 124, 1, 129, 44, 247, 33, 173, 28,
      222, 212, 109, 233, 131, 144, 151, 219, 114, 64, 164, 164, 183, 179, 103, 31,
      203, 121, 230, 78, 204, 192, 229, 120, 130, 90, 208, 125, 204, 255, 114, 33,
      184, 8, 70, 116, 247, 67, 36, 142, 224, 53, 144, 230, 129, 58, 38, 76,
      60, 40, 82, 187, 145, 195, 0, 203, 136, 208, 101, 139, 27, 83, 46, 163,
      113, 100, 72, 151, 162, 13, 249, 78, 56, 25, 239, 70, 169, 222, 172, 216,
      168, 250, 118, 63, 227, 156, 52, 63, 249, 220, 187, 199, 199, 11, 79, 29,
      138, 81, 224, 75, 205, 180, 89, 49, 200, 159, 126, 201, 217, 120, 115, 100,
      234, 197, 172, 131, 52, 211, 235, 195, 197, 129, 160, 255, 250, 19, 99, 235,
      23, 13, 221, 81, 183, 240, 218, 73, 211, 22, 85, 38, 41, 212, 104, 158,
      43, 22, 190, 88, 125, 71, 161, 252, 143, 248, 184, 209, 122, 208, 49, 206,
      69, 203, 58, 143, 149, 22, 4, 40, 175, 215, 251, 202, 187, 75, 64, 126]"

definition XXH3_rrmxmx :: "64 word \<Rightarrow> 64 word \<Rightarrow> 64 word" where
  "XXH3_rrmxmx h64 len =
     (let h64 = h64 XOR (XXH_rotl64 h64 49 XOR XXH_rotl64 h64 24);
          h64 = h64 * 0x9FB21C651E98DF25;
          h64 = h64 XOR (drop_bit 35 h64 + len);
          h64 = h64 * 0x9FB21C651E98DF25
      in XXH_xorshift64 h64 28)"

text \<open>The input is the 8-byte key itself: its low half is \<open>input1\<close>, its high half \<open>input2\<close>.\<close>

definition XXH3_len_4to8_64b :: "64 word \<Rightarrow> nat list \<Rightarrow> 64 word \<Rightarrow> 64 word" where
  "XXH3_len_4to8_64b input secret seed =
     (let seed = seed XOR push_bit 32 (ucast (XXH_swap32 (ucast seed)));
          input1 = (ucast input :: 32 word);
          input2 = (ucast (drop_bit 32 input) :: 32 word);
          bitflip = (XXH_readLE64 (drop 8 secret) XOR XXH_readLE64 (drop 16 secret)) - seed;
          input64 = ucast input2 + push_bit 32 (ucast input1);
          keyed = input64 XOR bitflip
      in XXH3_rrmxmx keyed 8)"

definition get_hash_value_int_64 :: "64 word \<Rightarrow> 64 word" where
  "get_hash_value_int_64 key = XXH3_len_4to8_64b key XXH3_kSecret 0"

section \<open>\<open>XXH64\<close> on 8 bytes\<close>

definition XXH_PRIME64_1 :: "64 word" where "XXH_PRIME64_1 = 0x9E3779B185EBCA87"
definition XXH_PRIME64_2 :: "64 word" where "XXH_PRIME64_2 = 0xC2B2AE3D27D4EB4F"
definition XXH_PRIME64_3 :: "64 word" where "XXH_PRIME64_3 = 0x165667B19E3779F9"
definition XXH_PRIME64_4 :: "64 word" where "XXH_PRIME64_4 = 0x85EBCA77C2B2AE63"
definition XXH_PRIME64_5 :: "64 word" where "XXH_PRIME64_5 = 0x27D4EB2F165667C5"

definition XXH64_round :: "64 word \<Rightarrow> 64 word \<Rightarrow> 64 word" where
  "XXH64_round acc input = XXH_rotl64 (acc + input * XXH_PRIME64_2) 31 * XXH_PRIME64_1"

definition XXH64_avalanche :: "64 word \<Rightarrow> 64 word" where
  "XXH64_avalanche h64 =
     (let h64 = h64 XOR drop_bit 33 h64;
          h64 = h64 * XXH_PRIME64_2;
          h64 = h64 XOR drop_bit 29 h64;
          h64 = h64 * XXH_PRIME64_3
      in h64 XOR drop_bit 32 h64)"

text \<open>\<open>XXH64\<close> of an 8-byte input: no 32-byte stripe, one \<open>XXH_PROCESS8_64\<close> step, the avalanche.\<close>

definition XXH64 :: "64 word \<Rightarrow> 64 word \<Rightarrow> 64 word" where
  "XXH64 input seed =
     (let h64 = seed + XXH_PRIME64_5;
          h64 = h64 + 8;
          k1 = XXH64_round 0 input;
          h64 = h64 XOR k1;
          h64 = XXH_rotl64 h64 27 * XXH_PRIME64_1 + XXH_PRIME64_4
      in XXH64_avalanche h64)"

section \<open>\<open>XXH3_64bits\<close> is injective on ids\<close>

lemma bit_XXH_rotl64:
  assumes "r < 64" "n < 64"
  shows "bit (XXH_rotl64 x r) n \<longleftrightarrow> bit x ((n + 64 - r) mod 64)"
proof (cases "r \<le> n")
  case True
  then have "(n + 64 - r) mod 64 = n - r"
    using assms by (simp add: mod_if)
  then show ?thesis
    using True assms bit_imp_le_length [of x "64 - r + n"]
    by (auto simp: XXH_rotl64_def bit_simps)
next
  case False
  then have "(n + 64 - r) mod 64 = 64 - r + n"
    using assms by simp
  then show ?thesis
    using False assms by (auto simp: XXH_rotl64_def bit_simps)
qed

lemma XXH_rotl64_add:
  assumes "a < 64" "b < 64"
  shows "XXH_rotl64 (XXH_rotl64 x a) b = XXH_rotl64 x ((a + b) mod 64)"
proof (rule bit_word_eqI)
  fix n assume n: "n < LENGTH(64)"
  have "((n + 64 - b) mod 64 + 64 - a) mod 64 = ((n + 64 - b) mod 64 + (64 - a)) mod 64"
    using assms by simp
  also have "\<dots> = (n + 64 - b + (64 - a)) mod 64"
    by (simp only: mod_add_left_eq)
  also have "\<dots> = (n + 64 - (a + b) mod 64) mod 64"
  proof (cases "a + b < 64")
    case True
    then have "n + 64 - b + (64 - a) = n + 64 - (a + b) + 64" by simp
    with True show ?thesis by (simp only: mod_less mod_add_self2)
  next
    case False
    then have "(a + b) mod 64 = a + b - 64"
      using assms by (simp add: le_mod_geq)
    then show ?thesis using assms False by (simp add: add.commute)
  qed
  finally have "((n + 64 - b) mod 64 + 64 - a) mod 64 = (n + 64 - (a + b) mod 64) mod 64" .
  then show "bit (XXH_rotl64 (XXH_rotl64 x a) b) n = bit (XXH_rotl64 x ((a + b) mod 64)) n"
    using assms n by (simp add: bit_XXH_rotl64)
qed

lemma XXH_rotl64_xor:
  "r < 64 \<Longrightarrow> XXH_rotl64 (x XOR y) r = XXH_rotl64 x r XOR XXH_rotl64 y r"
  by (rule bit_word_eqI) (auto simp: bit_XXH_rotl64 bit_xor_iff)

lemma XXH_rotl64_0: "XXH_rotl64 x 0 = x"
  by (rule bit_word_eqI) (simp add: bit_XXH_rotl64)

text \<open>
  The first step of \<open>XXH3_rrmxmx\<close> adds two rotations of a word to itself. Doing it twice doubles
  both rotation amounts, so doing it 64 times rotates by multiples of 64 and is the identity.
\<close>

definition rot_mix :: "nat \<Rightarrow> nat \<Rightarrow> 64 word \<Rightarrow> 64 word" where
  "rot_mix a b h = h XOR (XXH_rotl64 h a XOR XXH_rotl64 h b)"

lemma xor_cancel_cross:
  "(h XOR (p XOR q)) XOR ((p XOR (pp XOR pq)) XOR (q XOR (pq XOR qq))) = h XOR (pp XOR (qq :: 64 word))"
  by (rule bit_word_eqI) (auto simp: bit_xor_iff)

lemma rot_mix_twice:
  assumes "a < 64" "b < 64"
  shows "rot_mix a b (rot_mix a b h) = rot_mix ((a + a) mod 64) ((b + b) mod 64) h"
  using assms
  by (simp add: rot_mix_def XXH_rotl64_xor XXH_rotl64_add add.commute [of b a] xor_cancel_cross)

lemma rot_mix_inj_double:
  assumes "a < 64" "b < 64" "inj (rot_mix ((a + a) mod 64) ((b + b) mod 64))"
  shows "inj (rot_mix a b)"
proof (rule injI)
  fix x y assume "rot_mix a b x = rot_mix a b y"
  then have "rot_mix a b (rot_mix a b x) = rot_mix a b (rot_mix a b y)"
    by simp
  then show "x = y"
    using assms by (simp add: rot_mix_twice inj_eq)
qed

lemma rot_mix_49_24_inj: "inj (rot_mix 49 24)"
proof -
  have "inj (rot_mix 0 0)"
    by (rule injI) (simp add: rot_mix_def XXH_rotl64_0)
  then have "inj (rot_mix 32 0)"
    using rot_mix_inj_double [of 32 0] by simp
  then have "inj (rot_mix 16 0)"
    using rot_mix_inj_double [of 16 0] by simp
  then have "inj (rot_mix 8 0)"
    using rot_mix_inj_double [of 8 0] by simp
  then have "inj (rot_mix 4 32)"
    using rot_mix_inj_double [of 4 32] by simp
  then have "inj (rot_mix 34 48)"
    using rot_mix_inj_double [of 34 48] by simp
  then show ?thesis
    using rot_mix_inj_double [of 49 24] by simp
qed

lemma xor_right_eq_iff: "x XOR c = y XOR c \<longleftrightarrow> x = (y :: 64 word)"
proof
  assume "x XOR c = y XOR c"
  then have "(x XOR c) XOR c = (y XOR c) XOR c" by simp
  then show "x = y" by (simp add: xor.assoc)
qed simp

lemma mult_odd_inj:
  assumes "c * d = (1 :: 64 word)"
  shows "inj (\<lambda>x. x * c)"
proof (rule injI)
  fix x y :: "64 word" assume "x * c = y * c"
  then have "x * c * d = y * c * d" by simp
  then show "x = y" by (simp add: assms mult.assoc)
qed

lemma rrmxmx_mult_inj: "inj (\<lambda>x :: 64 word. x * 0x9FB21C651E98DF25)"
  by (rule mult_odd_inj [where d = 192419422752744621]) simp

lemma xorshift_28_inj: "inj (\<lambda>x. XXH_xorshift64 x 28)"
proof (rule inj_on_inverseI)
  fix x
  show "XXH_xorshift64 x 28 XOR drop_bit 28 (XXH_xorshift64 x 28) XOR
          drop_bit 56 (XXH_xorshift64 x 28) = x"
    by (rule bit_word_eqI) (auto simp: XXH_xorshift64_def bit_simps dest: bit_imp_le_length)
qed

text \<open>Adding the length disturbs only low bits, below the ones the shift reads.\<close>

lemma drop_35_small: "drop_bit 35 (drop_bit 35 (x :: 64 word) + 8) = 0"
proof -
  have "unat (drop_bit 35 x) < 2 ^ 29"
    using unsigned_less [of x, where 'a = nat]
    by (simp only: unat_drop_bit_eq) (simp add: drop_bit_eq_div less_mult_imp_div_less)
  then have "unat (drop_bit 35 x + 8) < 2 ^ 30"
    by (subst unat_word_ariths) (simp only: unat_numeral, simp)
  then have "unat (drop_bit 35 (drop_bit 35 x + 8)) = 0"
    by (simp only: unat_drop_bit_eq) (simp add: drop_bit_eq_div)
  then show ?thesis by (simp only: unat_eq_zero)
qed

lemma xor_add_len_inj: "inj (\<lambda>x :: 64 word. x XOR (drop_bit 35 x + 8))"
proof (rule injI)
  fix x y :: "64 word" assume eq: "x XOR (drop_bit 35 x + 8) = y XOR (drop_bit 35 y + 8)"
  have top: "drop_bit 35 (z XOR (drop_bit 35 z + 8)) = drop_bit 35 z" for z :: "64 word"
    by (simp add: drop_bit_xor drop_35_small)
  have "drop_bit 35 x = drop_bit 35 y"
    using arg_cong [OF eq, of "drop_bit 35"] by (simp only: top)
  with eq show "x = y"
    by (simp add: xor_right_eq_iff)
qed

lemma XXH3_rrmxmx_inj: "inj (\<lambda>k. XXH3_rrmxmx k 8)"
proof (rule injI)
  fix x y assume "XXH3_rrmxmx x 8 = XXH3_rrmxmx y 8"
  then have "rot_mix 49 24 x = rot_mix 49 24 y"
    unfolding XXH3_rrmxmx_def Let_def rot_mix_def [symmetric]
    by (rule injD [OF rrmxmx_mult_inj, OF injD [OF xor_add_len_inj,
          OF injD [OF rrmxmx_mult_inj, OF injD [OF xorshift_28_inj]]]])
  then show "x = y"
    using rot_mix_49_24_inj by (simp add: inj_eq)
qed

lemma swap_halves_inj:
  "inj (\<lambda>x :: 64 word. ucast (ucast (drop_bit 32 x) :: 32 word) + push_bit 32 (ucast (ucast x :: 32 word)) :: 64 word)"
proof (rule injI)
  fix x y :: "64 word"
  let ?s = "\<lambda>x :: 64 word. ucast (ucast (drop_bit 32 x) :: 32 word) + push_bit 32 (ucast (ucast x :: 32 word)) :: 64 word"
  have "?s z = XXH_rotl64 z 32" for z
  proof -
    have "?s z = ucast (ucast (drop_bit 32 z) :: 32 word) OR push_bit 32 (ucast (ucast z :: 32 word))"
      by (rule disjunctive_add) (auto simp: bit_simps)
    also have "\<dots> = XXH_rotl64 z 32"
      by (rule bit_word_eqI) (auto simp: XXH_rotl64_def bit_simps dest: bit_imp_le_length)
    finally show ?thesis .
  qed
  note s = this
  assume "?s x = ?s y"
  then have "XXH_rotl64 x 32 = XXH_rotl64 y 32"
    by (simp only: s)
  then have "XXH_rotl64 (XXH_rotl64 x 32) 32 = XXH_rotl64 (XXH_rotl64 y 32) 32"
    by (rule arg_cong)
  then show "x = y"
    by (simp add: XXH_rotl64_add XXH_rotl64_0)
qed

text \<open>
  C24: the hash of an object id is injective: two different ids have different 64-bit hash values, so
  a chain of the hash table holds different ids only because their masked low bits agree.
\<close>

theorem get_hash_value_int_64_inj: "inj get_hash_value_int_64"
proof (rule injI)
  fix x y assume "get_hash_value_int_64 x = get_hash_value_int_64 y"
  then show "x = y"
    unfolding get_hash_value_int_64_def XXH3_len_4to8_64b_def Let_def
    by (rule injD [OF swap_halves_inj, OF iffD1 [OF xor_right_eq_iff, OF injD [OF XXH3_rrmxmx_inj]]])
qed

end
