(* ===== verification/HashTable.thy ===== *)
theory HashTable
  imports CacheObj XXHash
begin

text \<open>
  The chained hash table of \<open>dataStructure/hashtable/chainedHashTableV2.c\<close>, the one the build
  selects: an array of \<open>2 ^ hashpower\<close> bucket pointers, each the head of a chain of objects linked
  through \<open>hash_next\<close>. The operations are modelled pointer by pointer on the heap of
  \<open>CacheObj\<close> and shown to implement a finite set of objects addressed by id.
\<close>

section \<open>The table\<close>

definition hashsize :: "nat \<Rightarrow> 64 word" where
  "hashsize n = push_bit n 1"

definition hashmask :: "nat \<Rightarrow> 64 word" where
  "hashmask n = hashsize n - 1"

record hashtable =
  ptr_table :: "ptr list"
  ht_n_obj :: "64 word"
  hashpower :: nat
  external_obj :: bool

definition CHAINED_HASHTABLE_EXPAND_THRESHOLD :: "64 word" where
  "CHAINED_HASHTABLE_EXPAND_THRESHOLD = 1"

text \<open>The bucket of an id in a table of power \<open>p\<close>.\<close>

definition bucket_of :: "nat \<Rightarrow> obj_id \<Rightarrow> nat" where
  "bucket_of p i = unat (get_hash_value_int_64 i AND hashmask p)"

text \<open>Reading and writing \<open>ptr_table[hv]\<close>.\<close>

definition slot :: "hashtable \<Rightarrow> nat \<Rightarrow> ptr result" where
  "slot ht i = (if i < length (ptr_table ht) then Inr (ptr_table ht ! i) else Inl OutOfBounds)"

definition set_slot :: "hashtable \<Rightarrow> nat \<Rightarrow> ptr \<Rightarrow> hashtable result" where
  "set_slot ht i p = (if i < length (ptr_table ht)
     then Inr (ht\<lparr>ptr_table := (ptr_table ht)[i := p]\<rparr>) else Inl OutOfBounds)"

text \<open>
  \<open>my_malloc_n\<close> is \<open>calloc\<close> in the default build, so the table starts with null pointers although the
  \<open>memset\<close> of the creation, whose size is computed before \<open>hashpower\<close> is set, covers one entry only.
\<close>

definition create_chained_hashtable_v2 :: "nat \<Rightarrow> hashtable" where
  "create_chained_hashtable_v2 pw =
     \<lparr>ptr_table = replicate (2 ^ pw) None, ht_n_obj = 0, hashpower = pw, external_obj = False\<rparr>"

section \<open>Operations\<close>

definition add_to_bucket :: "'m heap \<Rightarrow> hashtable \<Rightarrow> ptr \<Rightarrow> ('m heap \<times> hashtable) result" where
  "add_to_bucket h ht cache_obj =
     bindE (load h cache_obj) (\<lambda>n.
     let hv = bucket_of (hashpower ht) (obj_id (payload n)) in
     bindE (slot ht hv) (\<lambda>head_ptr.
     if head_ptr = None then
       bindE (set_slot ht hv cache_obj) (\<lambda>ht. Inr (h, ht))
     else
       bindE (store h cache_obj (\<lambda>m. m\<lparr>hash_next := head_ptr\<rparr>)) (\<lambda>h.
       bindE (set_slot ht hv cache_obj) (\<lambda>ht. Inr (h, ht)))))"

text \<open>The loop of \<open>chained_hashtable_find_obj_id_v2\<close> along one chain.\<close>

partial_function (option) find_in_chain :: "'m heap \<Rightarrow> obj_id \<Rightarrow> ptr \<Rightarrow> ptr outcome" where
  "find_in_chain h i cache_obj =
     (if cache_obj = None then Some (Inr None)
      else case load h cache_obj of Inl e \<Rightarrow> Some (Inl e)
        | Inr n \<Rightarrow> if obj_id (payload n) = i then Some (Inr cache_obj)
                   else find_in_chain h i (hash_next n))"

definition chained_hashtable_find_obj_id_v2 ::
  "'m heap \<Rightarrow> hashtable \<Rightarrow> obj_id \<Rightarrow> ptr outcome" where
  "chained_hashtable_find_obj_id_v2 h ht i =
     (case slot ht (bucket_of (hashpower ht) i) of Inl e \<Rightarrow> Some (Inl e)
      | Inr p \<Rightarrow> find_in_chain h i p)"

definition chained_hashtable_find_v2 :: "'m heap \<Rightarrow> hashtable \<Rightarrow> request \<Rightarrow> ptr outcome" where
  "chained_hashtable_find_v2 h ht req = chained_hashtable_find_obj_id_v2 h ht (r_obj_id req)"

definition chained_hashtable_find_obj_v2 :: "'m heap \<Rightarrow> hashtable \<Rightarrow> ptr \<Rightarrow> ptr outcome" where
  "chained_hashtable_find_obj_v2 h ht obj_to_find =
     (case load h obj_to_find of Inl e \<Rightarrow> Some (Inl e)
      | Inr n \<Rightarrow> chained_hashtable_find_obj_id_v2 h ht (obj_id (payload n)))"

text \<open>
  Growing the table: the inner loop moves one chain of the old table over, the outer one all chains.
\<close>

partial_function (option) rehash_chain ::
  "'m heap \<Rightarrow> hashtable \<Rightarrow> ptr \<Rightarrow> ('m heap \<times> hashtable) outcome" where
  "rehash_chain h ht cur_obj =
     (if cur_obj = None then Some (Inr (h, ht))
      else case load h cur_obj of Inl e \<Rightarrow> Some (Inl e)
        | Inr n \<Rightarrow> (case bindE (store h cur_obj (\<lambda>m. m\<lparr>hash_next := None\<rparr>))
                           (\<lambda>h. add_to_bucket h ht cur_obj) of
              Inl e \<Rightarrow> Some (Inl e)
            | Inr x \<Rightarrow> rehash_chain (fst x) (snd x) (hash_next n)))"

fun rehash_table :: "'m heap \<Rightarrow> hashtable \<Rightarrow> ptr list \<Rightarrow> ('m heap \<times> hashtable) outcome" where
  "rehash_table h ht [] = Some (Inr (h, ht))"
| "rehash_table h ht (p # ps) = bindO (rehash_chain h ht p) (\<lambda>(h, ht). rehash_table h ht ps)"

definition chained_hashtable_expand_v2 ::
  "'m heap \<Rightarrow> hashtable \<Rightarrow> ('m heap \<times> hashtable) outcome" where
  "chained_hashtable_expand_v2 h ht =
     (let old_table = ptr_table ht; pw = Suc (hashpower ht)
      in rehash_table h (ht\<lparr>hashpower := pw, ptr_table := replicate (2 ^ pw) None\<rparr>) old_table)"

definition expand_if_full :: "'m heap \<Rightarrow> hashtable \<Rightarrow> ('m heap \<times> hashtable) outcome" where
  "expand_if_full h ht =
     (if ht_n_obj ht > hashsize (hashpower ht) * CHAINED_HASHTABLE_EXPAND_THRESHOLD
      then chained_hashtable_expand_v2 h ht else Some (Inr (h, ht)))"

text \<open>
  \<open>a\<close> is the pointer \<open>malloc\<close> returns to \<open>create_cache_obj_from_request\<close>; the code does not test it
  for NULL before writing through it.
\<close>

definition chained_hashtable_insert_v2 ::
  "'m::zero heap \<Rightarrow> hashtable \<Rightarrow> ptr \<Rightarrow> request \<Rightarrow> ('m heap \<times> hashtable \<times> ptr) outcome" where
  "chained_hashtable_insert_v2 h ht a req =
     bindO (expand_if_full h ht) (\<lambda>(h, ht).
     case a of None \<Rightarrow> Some (Inl NullDeref)
     | Some b \<Rightarrow>
       (let h = h(b \<mapsto> \<lparr>hash_next = None, prev = None, nxt = None,
                        payload = create_cache_obj_from_request (Some req)\<rparr>)
        in Some (bindE (add_to_bucket h ht a) (\<lambda>(h, ht).
             Inr (h, ht\<lparr>ht_n_obj := ht_n_obj ht + 1\<rparr>, a)))))"

definition chained_hashtable_insert_obj_v2 ::
  "'m heap \<Rightarrow> hashtable \<Rightarrow> ptr \<Rightarrow> ('m heap \<times> hashtable \<times> ptr) outcome" where
  "chained_hashtable_insert_obj_v2 h ht cache_obj =
     bindO (expand_if_full h ht) (\<lambda>(h, ht).
     Some (bindE (add_to_bucket h ht cache_obj) (\<lambda>(h, ht).
       Inr (h, ht\<lparr>ht_n_obj := ht_n_obj ht + 1\<rparr>, cache_obj))))"

text \<open>\<open>if (!hashtable->external_obj) free_cache_obj(cache_obj)\<close>\<close>

definition free_unless_external :: "'m heap \<Rightarrow> hashtable \<Rightarrow> ptr \<Rightarrow> 'm heap" where
  "free_unless_external h ht p =
     (if external_obj ht then h else case p of None \<Rightarrow> h | Some a \<Rightarrow> h(a := None))"

text \<open>The walk along a chain up to the cell whose successor is \<open>cache_obj\<close>.\<close>

partial_function (option) find_pred :: "'m heap \<Rightarrow> ptr \<Rightarrow> ptr \<Rightarrow> ptr outcome" where
  "find_pred h cache_obj cur_obj =
     (if cur_obj = None then Some (Inr None)
      else case load h cur_obj of Inl e \<Rightarrow> Some (Inl e)
        | Inr n \<Rightarrow> if hash_next n = cache_obj then Some (Inr cur_obj)
                   else find_pred h cache_obj (hash_next n))"

definition chained_hashtable_delete_v2 ::
  "'m heap \<Rightarrow> hashtable \<Rightarrow> ptr \<Rightarrow> ('m heap \<times> hashtable) outcome" where
  "chained_hashtable_delete_v2 h ht cache_obj =
     (let ht = ht\<lparr>ht_n_obj := ht_n_obj ht - 1\<rparr> in
      case load h cache_obj of Inl e \<Rightarrow> Some (Inl e)
      | Inr n \<Rightarrow>
        (let hv = bucket_of (hashpower ht) (obj_id (payload n)) in
         case slot ht hv of Inl e \<Rightarrow> Some (Inl e)
         | Inr p \<Rightarrow>
           if p = cache_obj then
             Some (bindE (set_slot ht hv (hash_next n)) (\<lambda>ht.
               Inr (free_unless_external h ht cache_obj, ht)))
           else
             bindO (find_pred h cache_obj p) (\<lambda>cur_obj.
             Some (bindE (store h cur_obj (\<lambda>m. m\<lparr>hash_next := hash_next n\<rparr>)) (\<lambda>h.
               Inr (free_unless_external h ht cache_obj, ht))))))"

definition chained_hashtable_try_delete_v2 ::
  "'m heap \<Rightarrow> hashtable \<Rightarrow> ptr \<Rightarrow> ('m heap \<times> hashtable \<times> bool) outcome" where
  "chained_hashtable_try_delete_v2 h ht cache_obj =
     (case load h cache_obj of Inl e \<Rightarrow> Some (Inl e)
      | Inr n \<Rightarrow>
        (let hv = bucket_of (hashpower ht) (obj_id (payload n)) in
         case slot ht hv of Inl e \<Rightarrow> Some (Inl e)
         | Inr p \<Rightarrow>
           if p = cache_obj then
             Some (bindE (set_slot ht hv (hash_next n)) (\<lambda>ht.
               let ht = ht\<lparr>ht_n_obj := ht_n_obj ht - 1\<rparr>
               in Inr (free_unless_external h ht cache_obj, ht, True)))
           else
             bindO (find_pred h cache_obj p) (\<lambda>cur_obj.
             if cur_obj \<noteq> None then
               Some (bindE (store h cur_obj (\<lambda>m. m\<lparr>hash_next := hash_next n\<rparr>)) (\<lambda>h.
                 let ht = ht\<lparr>ht_n_obj := ht_n_obj ht - 1\<rparr>
                 in Inr (free_unless_external h ht cache_obj, ht, True)))
             else Some (Inr (h, ht, False)))))"

text \<open>
  The \<open>do\<close> loop of \<open>chained_hashtable_delete_obj_id_v2\<close>: \<open>prev_obj\<close> trails \<open>cur_obj\<close> until
  \<open>cur_obj\<close> is NULL or has the id.
\<close>

partial_function (option) find_id_with_prev ::
  "'m heap \<Rightarrow> obj_id \<Rightarrow> ptr \<Rightarrow> (ptr \<times> ptr) outcome" where
  "find_id_with_prev h i prev_obj =
     (case load h prev_obj of Inl e \<Rightarrow> Some (Inl e)
      | Inr n \<Rightarrow>
        (let cur_obj = hash_next n in
         if cur_obj = None then Some (Inr (prev_obj, None))
         else case load h cur_obj of Inl e \<Rightarrow> Some (Inl e)
           | Inr m \<Rightarrow> if obj_id (payload m) = i then Some (Inr (prev_obj, cur_obj))
                      else find_id_with_prev h i cur_obj))"

definition chained_hashtable_delete_obj_id_v2 ::
  "'m heap \<Rightarrow> hashtable \<Rightarrow> obj_id \<Rightarrow> ('m heap \<times> hashtable \<times> bool) outcome" where
  "chained_hashtable_delete_obj_id_v2 h ht i =
     (let hv = bucket_of (hashpower ht) i in
      case slot ht hv of Inl e \<Rightarrow> Some (Inl e)
      | Inr cur_obj \<Rightarrow>
        if cur_obj = None then Some (Inr (h, ht, False))
        else case load h cur_obj of Inl e \<Rightarrow> Some (Inl e)
        | Inr n \<Rightarrow>
          if obj_id (payload n) = i then
            Some (bindE (set_slot ht hv (hash_next n)) (\<lambda>ht.
              let h = free_unless_external h ht cur_obj
              in Inr (h, ht\<lparr>ht_n_obj := ht_n_obj ht - 1\<rparr>, True)))
          else
            bindO (find_id_with_prev h i cur_obj) (\<lambda>(prev_obj, cur_obj).
            if cur_obj \<noteq> None then
              Some (bindE (load h cur_obj) (\<lambda>m.
                bindE (store h prev_obj (\<lambda>k. k\<lparr>hash_next := hash_next m\<rparr>)) (\<lambda>h.
                let h = free_unless_external h ht cur_obj
                in Inr (h, ht\<lparr>ht_n_obj := ht_n_obj ht - 1\<rparr>, True))))
            else Some (Inr (h, ht, False))))"

section \<open>What a table represents\<close>

lemma hashmask_mask: "hashmask n = mask n"
  by (simp add: hashmask_def hashsize_def mask_eq_exp_minus_1 push_bit_eq_mult)

lemma bucket_of_less [simp]: "p < 64 \<Longrightarrow> bucket_of p i < 2 ^ p"
  by (simp add: bucket_of_def hashmask_mask take_bit_eq_mask [symmetric] unsigned_take_bit_eq)

text \<open>A chain of cells linked through \<open>hash_next\<close>.\<close>

fun hchain :: "'m heap \<Rightarrow> ptr \<Rightarrow> addr list \<Rightarrow> bool" where
  "hchain h p [] \<longleftrightarrow> p = None"
| "hchain h p (a # as) \<longleftrightarrow>
     p = Some a \<and> (case h a of None \<Rightarrow> False | Some n \<Rightarrow> hchain h (hash_next n) as)"

definition oid :: "'m heap \<Rightarrow> addr \<Rightarrow> obj_id option" where
  "oid h a = map_option (\<lambda>n. obj_id (payload n)) (h a)"

text \<open>
  \<open>ht_repr h ht bs\<close>: bucket \<open>i\<close> of the table is the chain \<open>bs i\<close>, and every object hangs in the
  bucket its id hashes to.
\<close>

definition ht_repr :: "'m heap \<Rightarrow> hashtable \<Rightarrow> (nat \<Rightarrow> addr list) \<Rightarrow> bool" where
  "ht_repr h ht bs \<longleftrightarrow>
     hashpower ht < 64 \<and> length (ptr_table ht) = 2 ^ hashpower ht \<and>
     (\<forall>i < 2 ^ hashpower ht. hchain h (ptr_table ht ! i) (bs i) \<and>
        (\<forall>a \<in> set (bs i). map_option (bucket_of (hashpower ht)) (oid h a) = Some i))"

definition ht_cells :: "hashtable \<Rightarrow> (nat \<Rightarrow> addr list) \<Rightarrow> addr set" where
  "ht_cells ht bs = (\<Union>i < 2 ^ hashpower ht. set (bs i))"

lemma hchain_cong:
  "(\<And>a. a \<in> set as \<Longrightarrow> map_option hash_next (h' a) = map_option hash_next (h a)) \<Longrightarrow>
   hchain h' p as = hchain h p as"
proof (induction as arbitrary: p)
  case (Cons a as)
  have "map_option hash_next (h' a) = map_option hash_next (h a)"
    using Cons.prems by simp
  with Cons show ?case
    by (cases "h a"; cases "h' a") auto
qed simp

lemma hchain_upd_notin [simp]: "a \<notin> set as \<Longrightarrow> hchain (h(a := v)) p as = hchain h p as"
  by (rule hchain_cong) auto

lemma hchain_unique: "hchain h p as \<Longrightarrow> hchain h p bs \<Longrightarrow> as = bs"
proof (induction as arbitrary: p bs)
  case Nil then show ?case by (cases bs) auto
next
  case (Cons a as) then show ?case by (cases bs) (auto split: option.splits)
qed

lemma hchain_suffix: "hchain h p (as @ bs) \<Longrightarrow> \<exists>q. hchain h q bs"
  by (induction as arbitrary: p) (auto split: option.splits)

lemma hchain_distinct: "hchain h p as \<Longrightarrow> distinct as"
proof (induction as arbitrary: p)
  case (Cons a as)
  then obtain n where n: "h a = Some n" "hchain h (hash_next n) as"
    by (auto split: option.splits)
  have "a \<notin> set as"
  proof
    assume "a \<in> set as"
    then obtain xs ys where as: "as = xs @ a # ys"
      by (meson split_list)
    then obtain q where "hchain h q (a # ys)"
      using hchain_suffix n by metis
    then have "hchain h (hash_next n) ys"
      using n by simp
    then have "as = ys"
      using n hchain_unique by blast
    with as show False by simp
  qed
  with Cons n show ?case by auto
qed simp

lemma hchain_allocated: "hchain h p as \<Longrightarrow> a \<in> set as \<Longrightarrow> h a \<noteq> None"
  by (induction as arbitrary: p) (auto split: option.splits)

lemma hchain_first: "hchain h p as \<Longrightarrow> p = first_or as None"
  by (cases as) auto

section \<open>Finding\<close>

lemma find_in_chain_correct:
  "hchain h p as \<Longrightarrow> find_in_chain h i p = Some (Inr (find (\<lambda>a. oid h a = Some i) as))"
proof (induction as arbitrary: p)
  case Nil
  then show ?case by (simp add: find_in_chain.simps)
next
  case (Cons a as)
  then show ?case
    by (subst find_in_chain.simps) (auto simp: oid_def split: option.splits)
qed

lemma slot_bucket: "ht_repr h ht bs \<Longrightarrow> i < 2 ^ hashpower ht \<Longrightarrow> slot ht i = Inr (ptr_table ht ! i)"
  by (simp add: ht_repr_def slot_def)

lemma set_slot_bucket: "ht_repr h ht bs \<Longrightarrow> i < 2 ^ hashpower ht \<Longrightarrow>
   set_slot ht i p = Inr (ht\<lparr>ptr_table := (ptr_table ht)[i := p]\<rparr>)"
  by (simp add: ht_repr_def set_slot_def)

lemma ht_repr_bucket:
  "ht_repr h ht bs \<Longrightarrow> i < 2 ^ hashpower ht \<Longrightarrow> hchain h (ptr_table ht ! i) (bs i)"
  by (simp add: ht_repr_def)

text \<open>A cell of the table lies in the bucket of its id and in no other.\<close>

lemma ht_cell_bucket:
  assumes "ht_repr h ht bs" "a \<in> ht_cells ht bs" "h a = Some n"
  shows "a \<in> set (bs (bucket_of (hashpower ht) (obj_id (payload n))))"
proof -
  obtain i where "i < 2 ^ hashpower ht" "a \<in> set (bs i)"
    using assms(2) by (auto simp: ht_cells_def)
  then show ?thesis
    using assms(1,3) by (fastforce simp: ht_repr_def oid_def)
qed

lemma ht_cell_allocated: "ht_repr h ht bs \<Longrightarrow> a \<in> ht_cells ht bs \<Longrightarrow> \<exists>n. h a = Some n"
  by (fastforce simp: ht_repr_def ht_cells_def dest: hchain_allocated)

definition ht_set :: "'m heap \<Rightarrow> hashtable \<Rightarrow> addr set \<Rightarrow> bool" where
  "ht_set h ht S \<longleftrightarrow> (\<exists>bs. ht_repr h ht bs \<and> S = ht_cells ht bs \<and> inj_on (oid h) S)"

lemma ht_cells_subset: "i < 2 ^ hashpower ht \<Longrightarrow> a \<in> set (bs i) \<Longrightarrow> a \<in> ht_cells ht bs"
  by (auto simp: ht_cells_def)

lemma chained_hashtable_find_obj_id_v2_correct:
  assumes "ht_set h ht S"
  shows "\<exists>p. chained_hashtable_find_obj_id_v2 h ht i = Some (Inr p) \<and>
     (case p of None \<Rightarrow> \<forall>a\<in>S. oid h a \<noteq> Some i | Some a \<Rightarrow> a \<in> S \<and> oid h a = Some i)"
proof -
  obtain bs where bs: "ht_repr h ht bs" "S = ht_cells ht bs"
    using assms by (auto simp: ht_set_def)
  let ?b = "bucket_of (hashpower ht) i"
  have b: "?b < 2 ^ hashpower ht"
    using bs by (simp add: ht_repr_def)
  have "chained_hashtable_find_obj_id_v2 h ht i = Some (Inr (find (\<lambda>a. oid h a = Some i) (bs ?b)))"
    using find_in_chain_correct ht_repr_bucket [OF bs(1) b] slot_bucket [OF bs(1) b]
    by (auto simp: chained_hashtable_find_obj_id_v2_def)
  moreover have "a \<in> set (bs ?b)" if "a \<in> S" "oid h a = Some i" for a
    using that ht_cell_bucket [OF bs(1)] bs(2) by (auto simp: oid_def)
  ultimately show ?thesis
    using bs(2) ht_cells_subset [OF b]
    by (auto simp: find_None_iff find_Some_iff split: option.splits)
qed


section \<open>Adding to a bucket\<close>

text \<open>A table operation changes no cell outside \<open>A\<close>, and in any cell only \<open>hash_next\<close>.\<close>

definition unchain :: "'m node \<Rightarrow> 'm node" where
  "unchain n = n\<lparr>hash_next := None\<rparr>"

definition chains_only :: "'m heap \<Rightarrow> 'm heap \<Rightarrow> addr set \<Rightarrow> bool" where
  "chains_only h h' A \<longleftrightarrow>
     (\<forall>b. map_option unchain (h' b) = map_option unchain (h b)) \<and> (\<forall>b. b \<notin> A \<longrightarrow> h' b = h b)"

lemma chains_only_refl [simp]: "chains_only h h A"
  by (simp add: chains_only_def)

lemma chains_only_trans:
  "chains_only h h' A \<Longrightarrow> chains_only h' h'' B \<Longrightarrow> chains_only h h'' (A \<union> B)"
  by (simp add: chains_only_def)

lemma chains_only_upd:
  "h a = Some n \<Longrightarrow> unchain m = unchain n \<Longrightarrow> a \<in> A \<Longrightarrow> chains_only h (h(a \<mapsto> m)) A"
  by (auto simp: chains_only_def)

lemma unchain_oid: "map_option unchain (h' a) = map_option unchain (h a) \<Longrightarrow> oid h' a = oid h a"
  by (cases "h a"; cases "h' a") (auto simp: oid_def unchain_def dest!: arg_cong [of _ _ payload])

lemma chains_only_oid: "chains_only h h' A \<Longrightarrow> oid h' = oid h"
  by (auto simp: chains_only_def fun_eq_iff intro: unchain_oid)

lemma unchain_simps [simp]: "unchain (n\<lparr>hash_next := p\<rparr>) = unchain n"
  by (simp add: unchain_def)

lemma ht_cells_upd:
  "b < 2 ^ hashpower ht \<Longrightarrow> ht_cells ht (bs(b := a # bs b)) = insert a (ht_cells ht bs)"
  by (auto simp: ht_cells_def split: if_splits)

lemma ht_cells_ptr_table [simp]: "ht_cells (ht\<lparr>ptr_table := t\<rparr>) bs = ht_cells ht bs"
  by (simp add: ht_cells_def)

lemma add_to_bucket_repr:
  assumes ht: "ht_repr h ht bs" and a: "a \<notin> ht_cells ht bs" "h a = Some n" "hash_next n = None"
    and b: "b = bucket_of (hashpower ht) (obj_id (payload n))"
  defines "h' \<equiv> h(a \<mapsto> n\<lparr>hash_next := ptr_table ht ! b\<rparr>)"
    and "ht' \<equiv> ht\<lparr>ptr_table := (ptr_table ht)[b := Some a]\<rparr>"
  shows "add_to_bucket h ht (Some a) = Inr (h', ht')" and "ht_repr h' ht' (bs(b := a # bs b))"
proof -
  have b2: "b < 2 ^ hashpower ht"
    using ht b by (simp add: ht_repr_def)
  have [simp]: "n\<lparr>hash_next := None\<rparr> = n"
    using a(3) by simp
  show "add_to_bucket h ht (Some a) = Inr (h', ht')"
    using a slot_bucket [OF ht b2] set_slot_bucket [OF ht b2] b
    by (auto simp: add_to_bucket_def h'_def ht'_def Let_def fun_upd_idem)
  have o: "oid h' = oid h"
    using a by (auto simp: oid_def h'_def fun_eq_iff)
  have c: "hchain h' p (bs i) = hchain h p (bs i)" if "i < 2 ^ hashpower ht" for p i
  proof -
    have "a \<notin> set (bs i)"
      using ht_cells_subset [OF that, of a bs] a(1) by blast
    then show ?thesis by (simp add: h'_def)
  qed
  show "ht_repr h' ht' (bs(b := a # bs b))"
    using ht b2 c a b unfolding ht_repr_def o ht'_def
    by (auto simp: nth_list_update h'_def oid_def)
qed

text \<open>The same on sets of cells. The scalar fields of the table do not change.\<close>

definition ht_meta :: "hashtable \<Rightarrow> nat \<times> 64 word \<times> bool" where
  "ht_meta ht = (hashpower ht, ht_n_obj ht, external_obj ht)"

lemma add_to_bucket_set:
  assumes "ht_set h ht S" "a \<notin> S" "h a = Some n" "hash_next n = None" "oid h a \<notin> oid h ` S"
  shows "\<exists>h' ht'. add_to_bucket h ht (Some a) = Inr (h', ht') \<and> ht_set h' ht' (insert a S) \<and>
           chains_only h h' {a} \<and> ht_meta ht' = ht_meta ht"
proof -
  obtain bs where bs: "ht_repr h ht bs" "S = ht_cells ht bs" "inj_on (oid h) S"
    using assms by (auto simp: ht_set_def)
  let ?b = "bucket_of (hashpower ht) (obj_id (payload n))"
  let ?h = "h(a \<mapsto> n\<lparr>hash_next := ptr_table ht ! ?b\<rparr>)"
    and ?ht = "ht\<lparr>ptr_table := (ptr_table ht)[?b := Some a]\<rparr>"
  note add = add_to_bucket_repr [OF bs(1), of a n ?b]
  have fr: "chains_only h ?h {a}"
    using assms(3) by (rule chains_only_upd) simp_all
  have "?b < 2 ^ hashpower ht"
    using bs(1) by (simp add: ht_repr_def)
  then have "insert a S = ht_cells ?ht (bs(?b := a # bs ?b))"
    using bs(2) by (simp add: ht_cells_upd)
  moreover have "inj_on (oid ?h) (insert a S)"
    using bs(3) assms(2,5) chains_only_oid [OF fr] by simp
  ultimately have "ht_set ?h ?ht (insert a S)"
    using add(2) assms bs(2) by (auto simp: ht_set_def)
  then show ?thesis
    using add(1) assms bs(2) fr by (auto simp: ht_meta_def)
qed

text \<open>A table only sees the id and the chain link of its objects.\<close>

definition table_view :: "'m node \<Rightarrow> ptr \<times> obj_id" where
  "table_view n = (hash_next n, obj_id (payload n))"

lemma ht_set_cong:
  assumes "ht_set h ht S" "\<And>a. a \<in> S \<Longrightarrow> map_option table_view (h' a) = map_option table_view (h a)"
  shows "ht_set h' ht S"
proof -
  obtain bs where bs: "ht_repr h ht bs" "S = ht_cells ht bs" "inj_on (oid h) S"
    using assms(1) by (auto simp: ht_set_def)
  have v: "oid h' a = oid h a \<and> map_option hash_next (h' a) = map_option hash_next (h a)"
    if "a \<in> S" for a
    using assms(2) [OF that] by (cases "h a"; cases "h' a") (auto simp: oid_def table_view_def)
  have "hchain h' p (bs i) = hchain h p (bs i)" if "i < 2 ^ hashpower ht" for p i
    by (rule hchain_cong) (use v that bs(2) in \<open>auto simp: ht_cells_def\<close>)
  moreover have "oid h' a = oid h a" if "i < 2 ^ hashpower ht" "a \<in> set (bs i)" for i a
    using v that bs(2) by (auto simp: ht_cells_def)
  ultimately have "ht_repr h' ht bs"
    using bs(1) by (simp add: ht_repr_def)
  moreover have "inj_on (oid h') S"
    using bs(3) v by (simp cong: inj_on_cong)
  ultimately show ?thesis
    using bs(2) by (auto simp: ht_set_def)
qed

lemma ht_set_frame: "ht_set h ht S \<Longrightarrow> chains_only h h' A \<Longrightarrow> A \<inter> S = {} \<Longrightarrow> ht_set h' ht S"
  by (erule ht_set_cong) (auto simp: chains_only_def)

lemma hchain_frame:
  "hchain h p as \<Longrightarrow> chains_only h h' A \<Longrightarrow> A \<inter> set as = {} \<Longrightarrow> hchain h' p as"
  by (subst hchain_cong [of _ _ h]) (auto simp: chains_only_def)

section \<open>Growing the table\<close>

lemma rehash_chain_correct:
  assumes "ht_set h ht S" "hchain h p as" "set as \<inter> S = {}" "inj_on (oid h) (S \<union> set as)"
  shows "\<exists>h' ht'. rehash_chain h ht p = Some (Inr (h', ht')) \<and> ht_set h' ht' (S \<union> set as) \<and>
           chains_only h h' (set as) \<and> ht_meta ht' = ht_meta ht"
  using assms
proof (induction as arbitrary: h ht p S)
  case Nil
  then show ?case by (simp add: rehash_chain.simps)
next
  case (Cons a as)
  then obtain n where n: "p = Some a" "h a = Some n" "hchain h (hash_next n) as"
    by (auto split: option.splits)
  have a: "a \<notin> set as" "a \<notin> S"
    using hchain_distinct [OF Cons.prems(2)] Cons.prems(3) by auto
  let ?h = "h(a \<mapsto> n\<lparr>hash_next := None\<rparr>)"
  have fr: "chains_only h ?h {a}"
    using n(2) by (rule chains_only_upd) simp_all
  have "ht_set ?h ht S"
    using Cons.prems(1) fr by (rule ht_set_frame) (use a in auto)
  moreover have "oid ?h a \<notin> oid ?h ` S"
    using Cons.prems(4) a unfolding chains_only_oid [OF fr] by (auto simp: inj_on_def)
  ultimately obtain h1 ht1 where add: "add_to_bucket ?h ht (Some a) = Inr (h1, ht1)"
      "ht_set h1 ht1 (insert a S)" "chains_only ?h h1 {a}" "ht_meta ht1 = ht_meta ht"
    using add_to_bucket_set [of ?h ht S a "n\<lparr>hash_next := None\<rparr>"] a by auto
  have fr1: "chains_only h h1 {a}"
    using chains_only_trans [OF fr add(3)] by simp
  have "hchain h1 (hash_next n) as"
    using n(3) fr1 by (rule hchain_frame) (use a in auto)
  moreover have "inj_on (oid h1) (insert a S \<union> set as)"
    using Cons.prems(4) unfolding chains_only_oid [OF fr1] by simp
  ultimately obtain h2 ht2 where rest: "rehash_chain h1 ht1 (hash_next n) = Some (Inr (h2, ht2))"
      "ht_set h2 ht2 (insert a S \<union> set as)" "chains_only h1 h2 (set as)"
      "ht_meta ht2 = ht_meta ht1"
    using Cons.IH [of h1 ht1 "insert a S" "hash_next n"] add(2) a Cons.prems(3) by auto
  have "rehash_chain h ht p = Some (Inr (h2, ht2))"
    using n add(1) rest(1) by (subst rehash_chain.simps) simp
  then show ?case
    using rest add(4) chains_only_trans [OF fr1 rest(3)] by simp
qed

lemma rehash_table_correct:
  assumes "ht_set h ht S" "list_all2 (hchain h) ps ass" "distinct (concat ass)"
    "set (concat ass) \<inter> S = {}" "inj_on (oid h) (S \<union> set (concat ass))"
  shows "\<exists>h' ht'. rehash_table h ht ps = Some (Inr (h', ht')) \<and>
           ht_set h' ht' (S \<union> set (concat ass)) \<and> chains_only h h' (set (concat ass)) \<and>
           ht_meta ht' = ht_meta ht"
  using assms
proof (induction ass arbitrary: ps h ht S)
  case Nil
  then show ?case by simp
next
  case (Cons as ass)
  then obtain p ps' where ps: "ps = p # ps'" "hchain h p as" "list_all2 (hchain h) ps' ass"
    by (auto simp: list_all2_Cons2)
  have dj: "set as \<inter> S = {}" "set as \<inter> set (concat ass) = {}" "distinct (concat ass)"
    using Cons.prems by auto
  have "inj_on (oid h) (S \<union> set as)"
    using Cons.prems(5) by (rule inj_on_subset) auto
  then obtain h1 ht1 where c: "rehash_chain h ht p = Some (Inr (h1, ht1))"
      "ht_set h1 ht1 (S \<union> set as)" "chains_only h h1 (set as)" "ht_meta ht1 = ht_meta ht"
    using rehash_chain_correct [OF Cons.prems(1) ps(2) dj(1)] by blast
  have "list_all2 (hchain h1) ps' ass"
    using ps(3)
  proof (rule list.rel_mono_strong)
    fix q bs assume "bs \<in> set ass" "hchain h q bs"
    moreover from this(1) have "set as \<inter> set bs = {}"
      using dj(2) by auto
    ultimately show "hchain h1 q bs"
      using c(3) hchain_frame by blast
  qed
  moreover have "inj_on (oid h1) ((S \<union> set as) \<union> set (concat ass))"
    using Cons.prems(5) unfolding chains_only_oid [OF c(3)] by (simp add: Un_assoc)
  moreover have "set (concat ass) \<inter> (S \<union> set as) = {}"
    using Cons.prems(4) dj(2) by auto
  ultimately obtain h2 ht2 where r: "rehash_table h1 ht1 ps' = Some (Inr (h2, ht2))"
      "ht_set h2 ht2 ((S \<union> set as) \<union> set (concat ass))" "chains_only h1 h2 (set (concat ass))"
      "ht_meta ht2 = ht_meta ht1"
    using Cons.IH [OF c(2) _ dj(3)] by blast
  then show ?case
    using ps(1) c chains_only_trans [OF c(3) r(3)] by (simp add: Un_assoc)
qed

text \<open>A table of empty buckets holds nothing.\<close>

lemma ht_set_empty: "pw < 64 \<Longrightarrow> hashpower ht = pw \<Longrightarrow> ptr_table ht = replicate (2 ^ pw) None \<Longrightarrow>
   ht_set h ht {}"
  unfolding ht_set_def
  by (rule exI [of _ "\<lambda>_. []"]) (auto simp: ht_repr_def ht_cells_def)

lemma ht_repr_disjoint:
  "ht_repr h ht bs \<Longrightarrow> i < 2 ^ hashpower ht \<Longrightarrow> j < 2 ^ hashpower ht \<Longrightarrow> i \<noteq> j \<Longrightarrow>
   set (bs i) \<inter> set (bs j) = {}"
  by (auto simp: ht_repr_def) (metis option.inject)

lemma distinct_concat_buckets:
  assumes "\<And>i. i < n \<Longrightarrow> distinct (bs i)"
    "\<And>i j. i < n \<Longrightarrow> j < n \<Longrightarrow> i \<noteq> j \<Longrightarrow> set (bs i) \<inter> set (bs j) = {}"
  shows "distinct (concat (map bs [0..<n]))"
  using assms
proof (induction n)
  case (Suc n)
  have IH: "distinct (concat (map bs [0..<n]))"
    using Suc by simp
  have "set (bs i) \<inter> set (bs n) = {}" if "i < n" for i
    using Suc.prems(2) [of i n] that by simp
  then have "set (concat (map bs [0..<n])) \<inter> set (bs n) = {}"
    by fastforce
  then show ?case
    using IH Suc.prems(1) [of n] by simp
qed simp

theorem chained_hashtable_expand_v2_correct:
  assumes "ht_set h ht S" "hashpower ht < 63"
  shows "\<exists>h' ht'. chained_hashtable_expand_v2 h ht = Some (Inr (h', ht')) \<and> ht_set h' ht' S \<and>
           chains_only h h' S \<and> hashpower ht' = Suc (hashpower ht) \<and>
           ht_n_obj ht' = ht_n_obj ht \<and> external_obj ht' = external_obj ht"
proof -
  obtain bs where bs: "ht_repr h ht bs" "S = ht_cells ht bs" "inj_on (oid h) S"
    using assms by (auto simp: ht_set_def)
  let ?n = "2 ^ hashpower ht :: nat"
  let ?ht = "ht\<lparr>hashpower := Suc (hashpower ht), ptr_table := replicate (2 ^ Suc (hashpower ht)) None\<rparr>"
  let ?ass = "map bs [0..<?n]"
  have S: "set (concat ?ass) = S"
    using bs(2) by (auto simp: ht_cells_def)
  have "ht_set h ?ht {}"
    by (rule ht_set_empty [of "Suc (hashpower ht)"]) (use assms in simp_all)
  moreover have "list_all2 (hchain h) (ptr_table ht) ?ass"
    using bs(1) by (auto simp: list_all2_conv_all_nth ht_repr_def)
  moreover have "distinct (concat ?ass)"
  proof (rule distinct_concat_buckets)
    show "distinct (bs i)" if "i < ?n" for i
      using hchain_distinct ht_repr_bucket [OF bs(1) that] by blast
  qed (rule ht_repr_disjoint [OF bs(1)])
  ultimately show ?thesis
    using rehash_table_correct [of h ?ht "{}" "ptr_table ht" ?ass] S bs(3)
    by (auto simp: chained_hashtable_expand_v2_def Let_def ht_meta_def)
qed


section \<open>Inserting\<close>

definition ht_inv :: "'m heap \<Rightarrow> hashtable \<Rightarrow> addr set \<Rightarrow> bool" where
  "ht_inv h ht S \<longleftrightarrow> ht_set h ht S \<and> ht_n_obj ht = of_nat (card S)"

lemma ht_set_finite: "ht_set h ht S \<Longrightarrow> finite S"
  by (auto simp: ht_set_def ht_cells_def)

lemma ht_set_allocated: "ht_set h ht S \<Longrightarrow> a \<in> S \<Longrightarrow> \<exists>n. h a = Some n"
  by (auto simp: ht_set_def ht_cell_allocated)

lemma ht_set_n_obj [simp]: "ht_set h (ht\<lparr>ht_n_obj := k\<rparr>) S = ht_set h ht S"
  by (simp add: ht_set_def ht_repr_def ht_cells_def)

lemma expand_if_full_correct:
  assumes "ht_set h ht S" "hashpower ht < 63"
  shows "\<exists>h' ht'. expand_if_full h ht = Some (Inr (h', ht')) \<and> ht_set h' ht' S \<and>
           chains_only h h' S \<and> hashpower ht' \<le> Suc (hashpower ht) \<and>
           ht_n_obj ht' = ht_n_obj ht \<and> external_obj ht' = external_obj ht"
  using chained_hashtable_expand_v2_correct [OF assms] assms(1)
  by (fastforce simp: expand_if_full_def)

definition fresh_node :: "request \<Rightarrow> 'm::zero node" where
  "fresh_node req = \<lparr>hash_next = None, prev = None, nxt = None,
     payload = create_cache_obj_from_request (Some req)\<rparr>"

lemma oid_upd: "oid (h(a \<mapsto> n)) b = (if b = a then Some (obj_id (payload n)) else oid h b)"
  by (simp add: oid_def)

theorem chained_hashtable_insert_v2_correct:
  assumes "ht_inv h ht S" "hashpower ht < 63" "h a = None" "Some (r_obj_id req) \<notin> oid h ` S"
  shows "\<exists>h' ht'. chained_hashtable_insert_v2 h ht (Some a) req = Some (Inr (h', ht', Some a)) \<and>
           ht_inv h' ht' (insert a S) \<and> chains_only (h(a \<mapsto> fresh_node req)) h' (insert a S)"
proof -
  have S: "ht_set h ht S" "ht_n_obj ht = of_nat (card S)" "finite S"
    using assms(1) ht_set_finite by (auto simp: ht_inv_def)
  obtain h1 ht1 where e: "expand_if_full h ht = Some (Inr (h1, ht1))" "ht_set h1 ht1 S"
      "chains_only h h1 S" "ht_n_obj ht1 = ht_n_obj ht"
    using expand_if_full_correct [OF S(1) assms(2)] by auto
  have a: "a \<notin> S"
    using ht_set_allocated [OF S(1), of a] assms(3) by auto
  let ?h = "h1(a \<mapsto> fresh_node req)"
  have "ht_set ?h ht1 S"
    using e(2) by (rule ht_set_cong) (use a in auto)
  moreover have "oid ?h a \<notin> oid ?h ` S"
    using assms(4) a chains_only_oid [OF e(3)]
    by (auto simp: oid_upd fresh_node_def image_iff split: if_splits)
  ultimately obtain h2 ht2 where r: "add_to_bucket ?h ht1 (Some a) = Inr (h2, ht2)"
      "ht_set h2 ht2 (insert a S)" "chains_only ?h h2 {a}" "ht_meta ht2 = ht_meta ht1"
    using add_to_bucket_set [of ?h ht1 S a "fresh_node req"] a by (auto simp: fresh_node_def)
  have "chains_only (h(a \<mapsto> fresh_node req)) ?h S"
    using e(3) by (auto simp: chains_only_def)
  from chains_only_trans [OF this r(3)]
  have "chains_only (h(a \<mapsto> fresh_node req)) h2 (insert a S)"
    by simp
  moreover have "ht_inv h2 (ht2\<lparr>ht_n_obj := ht_n_obj ht2 + 1\<rparr>) (insert a S)"
    using r(2,4) e(4) S a by (simp add: ht_inv_def ht_meta_def)
  ultimately show ?thesis
    using e(1) r(1) by (simp add: chained_hashtable_insert_v2_def Let_def fresh_node_def)
qed

section \<open>Deleting\<close>

lemma hchain_unlink:
  assumes "hchain h p (xs @ c # a # ys)" "h a = Some n" "h c = Some m"
  shows "hchain (h(c \<mapsto> m\<lparr>hash_next := hash_next n\<rparr>)) p (xs @ c # ys)"
proof -
  have "c \<notin> set (xs @ a # ys)"
    using hchain_distinct [OF assms(1)] by auto
  then show ?thesis
    using assms by (induction xs arbitrary: p) (auto split: option.splits)
qed

lemma find_pred_correct:
  assumes "hchain h p (xs @ c # a # ys)"
  shows "find_pred h (Some a) p = Some (Inr (Some c))"
  using assms
proof (induction xs arbitrary: p)
  case Nil
  then show ?case
    by (subst find_pred.simps) (auto split: option.splits)
next
  case (Cons x xs)
  obtain n where n: "p = Some x" "h x = Some n" "hchain h (hash_next n) (xs @ c # a # ys)"
    using Cons.prems by (auto split: option.splits)
  have "hash_next n = first_or (xs @ c # a # ys) None"
    using n(3) by (rule hchain_first)
  moreover have "first_or (xs @ c # a # ys) None \<noteq> Some a"
    using hchain_distinct [OF n(3)] by (cases xs) auto
  ultimately show ?case
    using n Cons.IH [OF n(3)] by (subst find_pred.simps) simp
qed

lemma find_pred_none:
  assumes "hchain h p as" "a \<notin> set as"
  shows "find_pred h (Some a) p = Some (Inr None)"
  using assms
proof (induction as arbitrary: p)
  case Nil
  then show ?case by (simp add: find_pred.simps)
next
  case (Cons x xs)
  obtain n where n: "p = Some x" "h x = Some n" "hchain h (hash_next n) xs"
    using Cons.prems by (auto split: option.splits)
  have "hash_next n \<noteq> Some a"
    using hchain_first [OF n(3)] Cons.prems(2) by (cases xs) auto
  then show ?case
    using n Cons.IH [OF n(3)] Cons.prems(2) by (subst find_pred.simps) simp
qed

text \<open>
  Taking \<open>a\<close> out of bucket \<open>b\<close>: a new bucket head if \<open>a\<close> was first, a new successor for its
  predecessor otherwise.
\<close>

lemma ht_cells_remove:
  assumes "ht_repr h ht bs" "b < 2 ^ hashpower ht" "bs b = xs @ a # ys"
  shows "ht_cells ht (bs(b := xs @ ys)) = ht_cells ht bs - {a}"
proof -
  have d: "a \<notin> set xs" "a \<notin> set ys"
    using hchain_distinct [OF ht_repr_bucket [OF assms(1,2)]] assms(3) by auto
  have "a \<notin> set (bs i)" if "i < 2 ^ hashpower ht" "i \<noteq> b" for i
    using ht_repr_disjoint [OF assms(1) that(1) assms(2) that(2)] assms(3) by auto
  then have "a \<notin> (\<Union>i \<in> {..<2 ^ hashpower ht} - {b}. set (bs i))"
    by auto
  moreover have "ht_cells ht f = set (f b) \<union> (\<Union>i \<in> {..<2 ^ hashpower ht} - {b}. set (f i))" for f
    using assms(2) by (auto simp: ht_cells_def)
  ultimately show ?thesis
    using assms(3) d by auto
qed

lemma ht_repr_remove_head:
  assumes "ht_repr h ht bs" "b < 2 ^ hashpower ht" "bs b = a # ys" "h a = Some n"
  shows "ht_repr h (ht\<lparr>ptr_table := (ptr_table ht)[b := hash_next n]\<rparr>) (bs(b := ys))"
  using assms ht_repr_bucket [OF assms(1,2)]
  by (auto simp: ht_repr_def nth_list_update)

lemma ht_repr_remove_inner:
  assumes "ht_repr h ht bs" "b < 2 ^ hashpower ht" "bs b = xs @ c # a # ys" "h a = Some n" "h c = Some m"
  shows "ht_repr (h(c \<mapsto> m\<lparr>hash_next := hash_next n\<rparr>)) ht (bs(b := xs @ c # ys))"
proof -
  let ?h = "h(c \<mapsto> m\<lparr>hash_next := hash_next n\<rparr>)"
  have o: "oid ?h = oid h"
    using assms(5) by (auto simp: oid_def)
  have "hchain ?h (ptr_table ht ! b) (xs @ c # ys)"
    using hchain_unlink ht_repr_bucket [OF assms(1,2)] assms(3-5) by metis
  moreover have "hchain ?h (ptr_table ht ! i) (bs i)" if "i < 2 ^ hashpower ht" "i \<noteq> b" for i
  proof -
    have "c \<notin> set (bs i)"
      using ht_repr_disjoint [OF assms(1) that(1) assms(2) that(2)] assms(3) by auto
    then show ?thesis
      using ht_repr_bucket [OF assms(1) that(1)] by simp
  qed
  ultimately show ?thesis
    using assms(1-3) unfolding ht_repr_def o by auto
qed

text \<open>Freeing a cell that is in no bucket.\<close>

lemma ht_set_free: "ht_set h ht S \<Longrightarrow> a \<notin> S \<Longrightarrow> ht_set (h(a := v)) ht S"
  by (erule ht_set_cong) auto

lemma ht_set_free_unless_external:
  "ht_set h ht S \<Longrightarrow> a \<notin> S \<Longrightarrow> ht_set (free_unless_external h ht' (Some a)) ht S"
  by (simp add: free_unless_external_def ht_set_free)

lemma ht_set_removeI:
  assumes "ht_repr h' ht' bs'" "ht_cells ht' bs' = S - {a}" "oid h' = oid h" "inj_on (oid h) S"
  shows "ht_set h' ht' (S - {a})"
  using assms by (auto simp: ht_set_def intro: inj_on_subset)


lemma bucket_member:
  assumes "ht_set h ht S" "a \<in> S"
  obtains bs n xs ys b where "ht_repr h ht bs" "S = ht_cells ht bs" "inj_on (oid h) S"
    "h a = Some n" "b = bucket_of (hashpower ht) (obj_id (payload n))" "b < 2 ^ hashpower ht"
    "bs b = xs @ a # ys"
proof -
  obtain bs where bs: "ht_repr h ht bs" "S = ht_cells ht bs" "inj_on (oid h) S"
    using assms(1) by (auto simp: ht_set_def)
  obtain n where n: "h a = Some n"
    using ht_set_allocated [OF assms] by blast
  let ?b = "bucket_of (hashpower ht) (obj_id (payload n))"
  have "a \<in> set (bs ?b)"
    using ht_cell_bucket [OF bs(1) _ n] assms(2) bs(2) by simp
  then obtain xs ys where "bs ?b = xs @ a # ys"
    by (meson split_list)
  moreover have "?b < 2 ^ hashpower ht"
    using bs(1) by (simp add: ht_repr_def)
  ultimately show thesis
    using that bs n by blast
qed

text \<open>
  What deletion leaves of the heap: the cell of \<open>a\<close> is freed (unless the objects are external) and
  the other cells change in their chain links only.
\<close>

definition freed_only :: "'m heap \<Rightarrow> 'm heap \<Rightarrow> bool \<Rightarrow> addr \<Rightarrow> bool" where
  "freed_only h h' ext a \<longleftrightarrow>
     h' a = (if ext then h a else None) \<and>
     (\<forall>b. b \<noteq> a \<longrightarrow> map_option unchain (h' b) = map_option unchain (h b))"

lemma card_remove_word:
  "finite S \<Longrightarrow> a \<in> S \<Longrightarrow> of_nat (card S) - 1 = (of_nat (card (S - {a})) :: 64 word)"
  using card_Suc_Diff1 [of S a, symmetric] by simp

lemma slot_n_obj [simp]: "slot (ht\<lparr>ht_n_obj := x\<rparr>) = slot ht"
  by (simp add: slot_def fun_eq_iff)

text \<open>
  The two positions of a stored cell in its chain, with what unlinking it there does to the table:
  the head of the bucket, or after a predecessor that the walk finds.
\<close>

lemma cell_head:
  assumes "ht_repr h ht bs" "S = ht_cells ht bs" "inj_on (oid h) S" "h a = Some n"
    "b < 2 ^ hashpower ht" "bs b = a # ys"
  shows "slot ht b = Inr (Some a)" (is ?A)
    and "set_slot ht b (hash_next n) = Inr (ht\<lparr>ptr_table := (ptr_table ht)[b := hash_next n]\<rparr>)" (is ?B)
    and "ht_set h (ht\<lparr>ptr_table := (ptr_table ht)[b := hash_next n]\<rparr>) (S - {a})" (is ?C)
proof -
  show ?A
    using slot_bucket [OF assms(1,5)] hchain_first [OF ht_repr_bucket [OF assms(1,5)]] assms(6) by simp
  show ?B
    by (rule set_slot_bucket [OF assms(1,5)])
  have "ht_cells ht (bs(b := ys)) = S - {a}"
    using ht_cells_remove [OF assms(1,5), of "[]" a ys] assms(2,6) by simp
  then have "ht_cells (ht\<lparr>ptr_table := (ptr_table ht)[b := hash_next n]\<rparr>) (bs(b := ys)) = S - {a}"
    by (simp add: ht_cells_def)
  then show ?C
    by (rule ht_set_removeI [OF ht_repr_remove_head [OF assms(1,5,6,4)] _ refl assms(3)])
qed

lemma cell_inner:
  assumes "ht_repr h ht bs" "S = ht_cells ht bs" "inj_on (oid h) S" "h a = Some n" "h c = Some k"
    "b < 2 ^ hashpower ht" "bs b = xs @ c # a # ys"
  shows "c \<noteq> a" (is ?A)
    and "ptr_table ht ! b \<noteq> Some a" (is ?B)
    and "find_pred h (Some a) (ptr_table ht ! b) = Some (Inr (Some c))" (is ?C)
    and "ht_set (h(c \<mapsto> k\<lparr>hash_next := hash_next n\<rparr>)) ht (S - {a})" (is ?D)
proof -
  have ch: "hchain h (ptr_table ht ! b) (xs @ c # a # ys)"
    using ht_repr_bucket [OF assms(1,6)] assms(7) by simp
  have d: "distinct (xs @ c # a # ys)"
    using ch by (rule hchain_distinct)
  then show ?A by simp
  have "ptr_table ht ! b = first_or (xs @ c # a # ys) None"
    by (rule hchain_first [OF ch])
  then show ?B using d by (cases xs) simp_all
  show ?C by (rule find_pred_correct [OF ch])
  have "ht_cells ht (bs(b := xs @ c # ys)) = S - {a}"
    using ht_cells_remove [OF assms(1,6), of "xs @ [c]" a ys] assms(2,7) by simp
  moreover have "oid (h(c \<mapsto> k\<lparr>hash_next := hash_next n\<rparr>)) = oid h"
    using assms(5) by (auto simp: oid_def)
  ultimately show ?D
    using ht_set_removeI [OF ht_repr_remove_inner [OF assms(1,6,7,4,5)]] assms(3) by blast
qed

lemma cell_cases:
  assumes "ht_set h ht S" "a \<in> S"
  obtains (head) n b where "h a = Some n" "b = bucket_of (hashpower ht) (obj_id (payload n))"
      "slot ht b = Inr (Some a)"
      "set_slot ht b (hash_next n) = Inr (ht\<lparr>ptr_table := (ptr_table ht)[b := hash_next n]\<rparr>)"
      "ht_set h (ht\<lparr>ptr_table := (ptr_table ht)[b := hash_next n]\<rparr>) (S - {a})"
  | (inner) n b p c k where "h a = Some n" "b = bucket_of (hashpower ht) (obj_id (payload n))"
      "slot ht b = Inr p" "p \<noteq> Some a" "find_pred h (Some a) p = Some (Inr (Some c))"
      "c \<noteq> a" "h c = Some k" "ht_set (h(c \<mapsto> k\<lparr>hash_next := hash_next n\<rparr>)) ht (S - {a})"
proof -
  obtain bs n xs ys b where m: "ht_repr h ht bs" "S = ht_cells ht bs" "inj_on (oid h) S"
      "h a = Some n" "b = bucket_of (hashpower ht) (obj_id (payload n))" "b < 2 ^ hashpower ht"
      "bs b = xs @ a # ys"
    using bucket_member [OF assms] .
  show thesis
  proof (cases xs rule: rev_cases)
    case Nil
    then show thesis
      using head [OF m(4,5)] cell_head [OF m(1-4,6)] m(7) by simp
  next
    case (snoc xs' c)
    then have x: "bs b = xs' @ c # a # ys"
      using m(7) by simp
    have ch: "hchain h (ptr_table ht ! b) (xs' @ c # a # ys)"
      using ht_repr_bucket [OF m(1,6)] x by simp
    obtain k where k: "h c = Some k"
      using hchain_allocated [OF ch, of c] by auto
    show thesis
      by (rule inner [OF m(4,5) slot_bucket [OF m(1,6)] cell_inner(2,3,1) [OF m(1-4) k m(6) x] k
            cell_inner(4) [OF m(1-4) k m(6) x]])
  qed
qed


lemma set_slot_n_obj:
  "set_slot ht b p = Inr ht' \<Longrightarrow> set_slot (ht\<lparr>ht_n_obj := x\<rparr>) b p = Inr (ht'\<lparr>ht_n_obj := x\<rparr>)"
  by (auto simp: set_slot_def split: if_splits)

lemma freed_only_free: "freed_only h (free_unless_external h ht (Some a)) (external_obj ht) a"
  by (simp add: freed_only_def free_unless_external_def)

lemma freed_only_unlink_free:
  "c \<noteq> a \<Longrightarrow> h c = Some k \<Longrightarrow>
   freed_only h (free_unless_external (h(c \<mapsto> k\<lparr>hash_next := v\<rparr>)) ht (Some a)) (external_obj ht) a"
  by (simp add: freed_only_def free_unless_external_def)

lemma free_unless_external_upd [simp]:
  "free_unless_external h (ht\<lparr>ht_n_obj := x\<rparr>) p = free_unless_external h ht p"
  "free_unless_external h (ht\<lparr>ptr_table := t\<rparr>) p = free_unless_external h ht p"
  by (simp_all add: free_unless_external_def)

theorem chained_hashtable_delete_v2_correct:
  assumes "ht_inv h ht S" "a \<in> S"
  shows "\<exists>h' ht'. chained_hashtable_delete_v2 h ht (Some a) = Some (Inr (h', ht')) \<and>
           ht_inv h' ht' (S - {a}) \<and> freed_only h h' (external_obj ht) a \<and>
           hashpower ht' = hashpower ht \<and> external_obj ht' = external_obj ht"
proof -
  have S: "ht_set h ht S" "ht_n_obj ht = of_nat (card S)" "finite S"
    using assms(1) ht_set_finite by (auto simp: ht_inv_def)
  have n: "ht_n_obj ht - 1 = of_nat (card (S - {a}))"
    using S assms(2) by (simp add: card_remove_word)
  from S(1) assms(2) show ?thesis
  proof (cases rule: cell_cases)
    case (head n b)
    let ?ht = "ht\<lparr>ptr_table := (ptr_table ht)[b := hash_next n], ht_n_obj := ht_n_obj ht - 1\<rparr>"
    let ?h = "free_unless_external h ht (Some a)"
    have "chained_hashtable_delete_v2 h ht (Some a) = Some (Inr (?h, ?ht))"
      using head(1-3) set_slot_n_obj [OF head(4)]
      by (simp add: chained_hashtable_delete_v2_def Let_def)
    moreover have "ht_inv ?h ?ht (S - {a})"
      using head(5) n by (simp add: ht_inv_def ht_set_free_unless_external)
    ultimately show ?thesis
      using freed_only_free by fastforce
  next
    case (inner n b p c k)
    let ?ht = "ht\<lparr>ht_n_obj := ht_n_obj ht - 1\<rparr>"
    let ?h = "free_unless_external (h(c \<mapsto> k\<lparr>hash_next := hash_next n\<rparr>)) ht (Some a)"
    have "chained_hashtable_delete_v2 h ht (Some a) = Some (Inr (?h, ?ht))"
      using inner(1-5,7)
      by (simp add: chained_hashtable_delete_v2_def Let_def)
    moreover have "ht_inv ?h ?ht (S - {a})"
      using inner(8) n by (simp add: ht_inv_def ht_set_free_unless_external)
    ultimately show ?thesis
      using freed_only_unlink_free [of c a h k] inner(6,7) by fastforce
  qed
qed


section \<open>The table as a finite map from ids to cells\<close>

text \<open>
  The contract the caches rely on: the table holds, for every id, at most one cell, and the three
  operations act on this map as lookup, update and removal.
\<close>

definition ht_map :: "'m heap \<Rightarrow> hashtable \<Rightarrow> (obj_id \<rightharpoonup> addr) \<Rightarrow> bool" where
  "ht_map h ht m \<longleftrightarrow> ht_inv h ht (ran m) \<and> (\<forall>i a. m i = Some a \<longrightarrow> oid h a = Some i)"

lemma ht_map_oid: "ht_map h ht m \<Longrightarrow> m i = Some a \<Longrightarrow> oid h a = Some i"
  by (simp add: ht_map_def)

lemma ht_map_inj: "ht_map h ht m \<Longrightarrow> m i = Some a \<Longrightarrow> m j = Some a \<Longrightarrow> i = j"
  using ht_map_oid [of h ht m i a] ht_map_oid [of h ht m j a] by simp

lemma ran_upd_new: "m i = None \<Longrightarrow> ran (m(i \<mapsto> a)) = insert a (ran m)"
  by simp

lemma ran_remove: "ht_map h ht m \<Longrightarrow> m i = Some a \<Longrightarrow> ran (m(i := None)) = ran m - {a}"
  by (auto simp: ran_def dest: ht_map_inj)

lemma ht_map_find:
  assumes "ht_map h ht m"
  shows "chained_hashtable_find_obj_id_v2 h ht i = Some (Inr (m i))"
proof -
  have s: "ht_set h ht (ran m)" and o: "\<And>i a. m i = Some a \<Longrightarrow> oid h a = Some i"
    using assms by (auto simp: ht_map_def ht_inv_def)
  obtain p where p: "chained_hashtable_find_obj_id_v2 h ht i = Some (Inr p)"
      "case p of None \<Rightarrow> \<forall>a\<in>ran m. oid h a \<noteq> Some i | Some a \<Rightarrow> a \<in> ran m \<and> oid h a = Some i"
    using chained_hashtable_find_obj_id_v2_correct [OF s] by blast
  have "p = m i"
    using p(2) o by (cases p; cases "m i") (fastforce simp: ran_def)+
  with p(1) show ?thesis by simp
qed

lemma ht_map_insert:
  assumes "ht_map h ht m" "hashpower ht < 63" "h a = None" "m (r_obj_id req) = None"
  shows "\<exists>h' ht'. chained_hashtable_insert_v2 h ht (Some a) req = Some (Inr (h', ht', Some a)) \<and>
           ht_map h' ht' (m(r_obj_id req \<mapsto> a)) \<and>
           chains_only (h(a \<mapsto> fresh_node req)) h' (insert a (ran m))"
proof -
  have o: "\<And>i a. m i = Some a \<Longrightarrow> oid h a = Some i" and v: "ht_inv h ht (ran m)"
    using assms(1) by (auto simp: ht_map_def)
  have n: "Some (r_obj_id req) \<notin> oid h ` ran m"
    using o assms(4) by (force simp: ran_def)
  obtain h' ht' where i: "chained_hashtable_insert_v2 h ht (Some a) req = Some (Inr (h', ht', Some a))"
      "ht_inv h' ht' (insert a (ran m))" "chains_only (h(a \<mapsto> fresh_node req)) h' (insert a (ran m))"
    using chained_hashtable_insert_v2_correct [OF v assms(2,3) n] by blast
  have "oid h' b = Some j" if "(m(r_obj_id req \<mapsto> a)) j = Some b" for j b
    using that o [of j b] assms(3) unfolding chains_only_oid [OF i(3)]
    by (auto simp: oid_upd fresh_node_def oid_def split: if_splits)
  with i show ?thesis
    using assms(4) by (auto simp: ht_map_def)
qed

lemma freed_only_oid: "freed_only h h' ext a \<Longrightarrow> b \<noteq> a \<Longrightarrow> oid h' b = oid h b"
  by (auto simp: freed_only_def intro: unchain_oid)

lemma ht_map_delete:
  assumes "ht_map h ht m" "m i = Some a"
  shows "\<exists>h' ht'. chained_hashtable_delete_v2 h ht (Some a) = Some (Inr (h', ht')) \<and>
           ht_map h' ht' (m(i := None)) \<and> freed_only h h' (external_obj ht) a"
proof -
  have "ht_inv h ht (ran m)" "a \<in> ran m"
    using assms by (auto simp: ht_map_def ran_def)
  from chained_hashtable_delete_v2_correct [OF this] obtain h' ht' where
    d: "chained_hashtable_delete_v2 h ht (Some a) = Some (Inr (h', ht'))" "ht_inv h' ht' (ran m - {a})"
      "freed_only h h' (external_obj ht) a"
    by blast
  have "oid h' b = Some j" if "(m(i := None)) j = Some b" for j b
  proof -
    have "j \<noteq> i" "m j = Some b"
      using that by (auto split: if_splits)
    then have "b \<noteq> a"
      using ht_map_inj [OF assms(1), of j a i] assms(2) by blast
    then show ?thesis
      using freed_only_oid [OF d(3)] \<open>m j = Some b\<close> assms(1) by (simp add: ht_map_def)
  qed
  with d show ?thesis
    using ran_remove [OF assms] by (auto simp: ht_map_def)
qed

locale object_index =
  fixes repr :: "'s \<Rightarrow> (obj_id \<rightharpoonup> 'c) \<Rightarrow> bool"
    and room :: "'s \<Rightarrow> bool"
    and fresh :: "'s \<Rightarrow> 'c \<Rightarrow> bool"
    and find_id :: "'s \<Rightarrow> obj_id \<Rightarrow> 'c option outcome"
    and insert_req :: "'s \<Rightarrow> 'c \<Rightarrow> request \<Rightarrow> 's outcome"
    and delete_cell :: "'s \<Rightarrow> 'c \<Rightarrow> 's outcome"
  assumes find_id: "repr s m \<Longrightarrow> find_id s i = Some (Inr (m i))"
    and insert_req: "repr s m \<Longrightarrow> room s \<Longrightarrow> fresh s c \<Longrightarrow> m (r_obj_id req) = None \<Longrightarrow>
      \<exists>s'. insert_req s c req = Some (Inr s') \<and> repr s' (m(r_obj_id req \<mapsto> c))"
    and delete_cell: "repr s m \<Longrightarrow> m i = Some c \<Longrightarrow>
      \<exists>s'. delete_cell s c = Some (Inr s') \<and> repr s' (m(i := None))"
begin

lemma find_after_insert:
  assumes "repr s m" "room s" "fresh s c" "m (r_obj_id req) = None"
  shows "bindO (insert_req s c req) (\<lambda>s'. find_id s' j) =
         (if j = r_obj_id req then Some (Inr (Some c)) else find_id s j)"
  using insert_req [OF assms] find_id [OF assms(1)] by (auto simp: find_id)

lemma find_after_delete:
  assumes "repr s m" "m i = Some c"
  shows "bindO (delete_cell s c) (\<lambda>s'. find_id s' j) =
         (if j = i then Some (Inr None) else find_id s j)"
  using delete_cell [OF assms] find_id [OF assms(1)] by (auto simp: find_id)

lemma insert_delete:
  assumes "repr s m" "room s" "fresh s c" "m (r_obj_id req) = None"
  shows "\<exists>s'. bindO (insert_req s c req) (\<lambda>s'. delete_cell s' c) = Some (Inr s') \<and> repr s' m"
proof -
  obtain s1 where s1: "insert_req s c req = Some (Inr s1)" "repr s1 (m(r_obj_id req \<mapsto> c))"
    using insert_req [OF assms] by blast
  obtain s2 where "delete_cell s1 c = Some (Inr s2)" "repr s2 ((m(r_obj_id req \<mapsto> c))(r_obj_id req := None))"
    using delete_cell [OF s1(2), of "r_obj_id req" c] by auto
  with s1 show ?thesis
    using assms(4) by (simp add: fun_upd_idem)
qed

end

interpretation ht: object_index
  "\<lambda>(h, t) m. ht_map h t m"
  "\<lambda>(h, t). hashpower t < 63"
  "\<lambda>(h, t) a. h a = None"
  "\<lambda>(h, t). chained_hashtable_find_obj_id_v2 h t"
  "\<lambda>(h, t) a req. bindO (chained_hashtable_insert_v2 h t (Some a) req) (\<lambda>(h', t', _). Some (Inr (h', t')))"
  "\<lambda>(h, t) a. chained_hashtable_delete_v2 h t (Some a)"
proof (unfold_locales, goal_cases)
  case (1 s m i)
  then show ?case by (auto simp: ht_map_find)
next
  case (2 s m c req)
  then show ?case using ht_map_insert [of "fst s" "snd s" m c req] by (auto simp: split_beta)
next
  case (3 s m i c)
  then show ?case using ht_map_delete [of "fst s" "snd s" m i c] by (auto simp: split_beta)
qed

section \<open>Properties\<close>

text \<open>A new table is the empty map, and a table with one object, for the examples below.\<close>

lemma create_ht_map: "pw < 64 \<Longrightarrow> ht_map h (create_chained_hashtable_v2 pw) Map.empty"
  by (auto simp: ht_map_def ht_inv_def create_chained_hashtable_v2_def intro: ht_set_empty)

definition example_table :: "nat heap \<times> hashtable" where
  "example_table = ([1 \<mapsto> fresh_node (new_request\<lparr>r_obj_id := 5\<rparr>)],
     \<lparr>ptr_table = [Some 1], ht_n_obj = 1, hashpower = 0, external_obj = False\<rparr>)"

lemma example_table_map: "ht_map (fst example_table) (snd example_table) [5 \<mapsto> 1]"
proof -
  have "ht_set (fst example_table) (snd example_table) {1}"
    unfolding ht_set_def
    by (rule exI [of _ "\<lambda>_. [1]"])
      (simp add: ht_repr_def ht_cells_def example_table_def fresh_node_def bucket_of_def
        hashmask_def hashsize_def oid_def lessThan_Suc create_cache_obj_from_request_def
        copy_request_to_cache_obj_def)
  then show ?thesis
    by (simp add: ht_map_def ht_inv_def example_table_def oid_def fresh_node_def
        create_cache_obj_from_request_def copy_request_to_cache_obj_def)
qed

text \<open>
  C13: inserting an object whose id is not in the table always returns (the chains are finite, the
  table grows when it is full) and from then on a lookup of that id returns the new cell, while a
  lookup of any other id returns what it returned before, through an expansion as well.
\<close>

theorem chained_hashtable_insert_find:
  assumes "ht_map h ht m" "hashpower ht < 63" "h a = None" "m (r_obj_id req) = None"
  shows "bindO (chained_hashtable_insert_v2 h ht (Some a) req)
           (\<lambda>(h', ht', _). chained_hashtable_find_obj_id_v2 h' ht' j) =
         (if j = r_obj_id req then Some (Inr (Some a)) else chained_hashtable_find_obj_id_v2 h ht j)"
  using ht.find_after_insert [of "(h, ht)" m a req j] assms
  by (simp add: bindO_assoc case_prod_unfold)

theorem chained_hashtable_insert_find_witness:
  "bindO (chained_hashtable_insert_v2 (Map.empty :: nat heap) (create_chained_hashtable_v2 1) (Some 7)
       (new_request\<lparr>r_obj_id := 5\<rparr>)) (\<lambda>(h', ht', _). chained_hashtable_find_obj_id_v2 h' ht' 5) =
     Some (Inr (Some 7))"
  using chained_hashtable_insert_find [OF create_ht_map [of 1], of Map.empty 7 "new_request\<lparr>r_obj_id := 5\<rparr>" 5]
  by (simp add: create_chained_hashtable_v2_def)



text \<open>
  C15: \<open>_chained_hashtable_expand_v2\<close> ends, doubles the table and changes no lookup: it only rewrites
  the \<open>hash_next\<close> links of the objects it moves.
\<close>

theorem chained_hashtable_expand_refines:
  assumes "ht_map h ht m" "hashpower ht < 63"
  shows "\<exists>h' ht'. chained_hashtable_expand_v2 h ht = Some (Inr (h', ht')) \<and> ht_map h' ht' m \<and>
           length (ptr_table ht') = 2 ^ Suc (hashpower ht) \<and> chains_only h h' (ran m)"
proof -
  have s: "ht_set h ht (ran m)"
    using assms(1) by (simp add: ht_map_def ht_inv_def)
  obtain h' ht' where e: "chained_hashtable_expand_v2 h ht = Some (Inr (h', ht'))" "ht_set h' ht' (ran m)"
      "chains_only h h' (ran m)" "hashpower ht' = Suc (hashpower ht)" "ht_n_obj ht' = ht_n_obj ht"
    using chained_hashtable_expand_v2_correct [OF s assms(2)] by blast
  have "ht_map h' ht' m"
    using e assms(1) chains_only_oid [OF e(3)] by (simp add: ht_map_def ht_inv_def)
  with e show ?thesis
    by (auto simp: ht_set_def ht_repr_def)
qed

theorem chained_hashtable_expand_refines_witness:
  "\<exists>h' ht'. chained_hashtable_expand_v2 (fst example_table) (snd example_table) = Some (Inr (h', ht')) \<and>
     ht_map h' ht' [5 \<mapsto> 1] \<and> length (ptr_table ht') = 2"
  using chained_hashtable_expand_refines [OF example_table_map] by (auto simp: example_table_def)

text \<open>
  Inserting an object and deleting it again gives a table with the contents it had before.
\<close>

lemma chained_hashtable_insert_delete:
  assumes "ht_map h ht m" "hashpower ht < 63" "h a = None" "m (r_obj_id req) = None"
  shows "\<exists>h' ht'. bindO (chained_hashtable_insert_v2 h ht (Some a) req)
             (\<lambda>(h', ht', _). chained_hashtable_delete_v2 h' ht' (Some a)) = Some (Inr (h', ht')) \<and>
           ht_map h' ht' m"
  using ht.insert_delete [of "(h, ht)" m a req] assms
  by (simp add: bindO_assoc case_prod_unfold)

end
