(* ===== verification/Cache_Base.thy ===== *)
theory Cache_Base
  imports CacheObj "HOL-Library.Multiset"
begin

text \<open>
  The part every cache shares: \<open>struct cache\<close> with its function pointers
  (\<open>include/libCacheSim/cache.h\<close>) and the base functions of \<open>cache/cache.c\<close>.

  From here on an object is named by its id instead of its address: the hash table holds at most
  one object per id (theory \<open>HashTable\<close>), so \<open>table\<close> maps an id to the object stored under it, and
  a queue of objects is the list of their ids (theory \<open>CacheObj\<close>), head first. The prefetcher is
  NULL and \<open>SUPPORT_TTL\<close> and the \<open>TRACK_\<close> options are off, as in the default build.
  Signed 64-bit counters are integers: their overflow is undefined in C, and the invariants below
  bound them.
\<close>

section \<open>The cache structure\<close>

text \<open>
  An admission algorithm is an object with an \<open>admit\<close> method and a state of its own behind
  \<open>void *params\<close>; the codatatype keeps that state abstract.
\<close>

codatatype admissioner = Admissioner (admit: "request \<Rightarrow> bool \<times> admissioner")

record common_cache_params =
  cp_cache_size :: int
  cp_default_ttl :: int
  cp_hashpower :: int
  cp_consider_obj_metadata :: bool

definition default_common_cache_params :: common_cache_params where
  "default_common_cache_params =
     \<lparr>cp_cache_size = 1024 * 1024 * 1024, cp_default_ttl = 364 * 86400, cp_hashpower = 20,
      cp_consider_obj_metadata = False\<rparr>"

record ('m, 'p) cache =
  table :: "obj_id \<rightharpoonup> 'm cache_obj"
  n_obj :: int
  occupied_byte :: int
  n_req :: int
  cache_size :: int
  default_ttl :: int
  obj_md_size :: int
  admissioner :: "admissioner option"
  to_evict_candidate_gen_vtime :: int
  eviction_params :: 'p

text \<open>The function pointers of \<open>struct cache\<close>.\<close>

record ('m, 'p) cache_ops =
  op_find :: "('m, 'p) cache \<Rightarrow> request \<Rightarrow> bool \<Rightarrow> (obj_id option \<times> ('m, 'p) cache) outcome"
  op_can_insert :: "('m, 'p) cache \<Rightarrow> request \<Rightarrow> (bool \<times> ('m, 'p) cache) outcome"
  op_insert :: "('m, 'p) cache \<Rightarrow> request \<Rightarrow> (obj_id option \<times> ('m, 'p) cache) outcome"
  op_evict :: "('m, 'p) cache \<Rightarrow> request \<Rightarrow> ('m, 'p) cache outcome"
  op_to_evict :: "('m, 'p) cache \<Rightarrow> request \<Rightarrow> (obj_id option \<times> ('m, 'p) cache) outcome"
  op_remove :: "('m, 'p) cache \<Rightarrow> obj_id \<Rightarrow> (bool \<times> ('m, 'p) cache) outcome"
  op_get_occupied_byte :: "('m, 'p) cache \<Rightarrow> int"
  op_get_n_obj :: "('m, 'p) cache \<Rightarrow> int"

text \<open>The hash power of the table a cache starts with; \<open>HASH_POWER_DEFAULT\<close> is 23.\<close>

definition HASH_POWER_DEFAULT :: int where
  "HASH_POWER_DEFAULT = 23"

definition initial_hash_power :: "common_cache_params \<Rightarrow> int" where
  "initial_hash_power params =
     (if 0 < cp_hashpower params \<and> cp_hashpower params < 40 then cp_hashpower params
      else HASH_POWER_DEFAULT)"

definition cache_struct_init :: "common_cache_params \<Rightarrow> 'p \<Rightarrow> ('m, 'p) cache" where
  "cache_struct_init params p =
     \<lparr>table = Map.empty, n_obj = 0, occupied_byte = 0, n_req = 0,
      cache_size = to_i64 (cp_cache_size params), default_ttl = to_i64 (cp_default_ttl params),
      obj_md_size = 0, admissioner = None, to_evict_candidate_gen_vtime = -1,
      eviction_params = p\<rparr>"

definition cache_get_occupied_byte_default :: "('m, 'p) cache \<Rightarrow> int" where
  "cache_get_occupied_byte_default c = occupied_byte c"

definition cache_get_n_obj_default :: "('m, 'p) cache \<Rightarrow> int" where
  "cache_get_n_obj_default c = n_obj c"

section \<open>Base functions\<close>

definition cache_can_insert_default :: "('m, 'p) cache \<Rightarrow> request \<Rightarrow> bool \<times> ('m, 'p) cache" where
  "cache_can_insert_default c req =
     (let (admitted, c) =
        (case admissioner c of None \<Rightarrow> (True, c)
         | Some a \<Rightarrow> (case admit a req of (b, a') \<Rightarrow> (b, c\<lparr>admissioner := Some a'\<rparr>)))
      in if \<not> admitted then (False, c)
         else if r_obj_size req + obj_md_size c > cache_size c then (False, c)
         else (True, c))"

text \<open>\<open>deref\<close> reads an object through a pointer to it.\<close>

definition deref :: "('m, 'p) cache \<Rightarrow> obj_id option \<Rightarrow> 'm cache_obj result" where
  "deref c p = (case p of None \<Rightarrow> Inl NullDeref
     | Some i \<Rightarrow> (case table c i of None \<Rightarrow> Inl UseAfterFree | Some x \<Rightarrow> Inr x))"

definition upd_obj ::
  "('m, 'p) cache \<Rightarrow> obj_id option \<Rightarrow> ('m cache_obj \<Rightarrow> 'm cache_obj) \<Rightarrow> ('m, 'p) cache result" where
  "upd_obj c p f = (case p of None \<Rightarrow> Inl NullDeref
     | Some i \<Rightarrow> (case table c i of None \<Rightarrow> Inl UseAfterFree
                   | Some x \<Rightarrow> Inr (c\<lparr>table := (table c)(i \<mapsto> f x)\<rparr>)))"

text \<open>\<open>hashtable_find\<close> and \<open>hashtable_find_obj_id\<close> at the level of ids.\<close>

definition hashtable_find_obj_id :: "('m, 'p) cache \<Rightarrow> obj_id \<Rightarrow> obj_id option" where
  "hashtable_find_obj_id c i = (if table c i = None then None else Some i)"

definition cache_find_base ::
  "('m, 'p) cache \<Rightarrow> request \<Rightarrow> bool \<Rightarrow> obj_id option \<times> ('m, 'p) cache" where
  "cache_find_base c req update_cache =
     (case table c (r_obj_id req) of None \<Rightarrow> (None, c)
      | Some x \<Rightarrow>
        (Some (r_obj_id req),
         if update_cache
         then c\<lparr>table := (table c)(r_obj_id req \<mapsto>
                x\<lparr>misc_next_access_vtime := r_next_access_vtime req, misc_freq := misc_freq x + 1\<rparr>)\<rparr>
         else c))"

definition cache_insert_base ::
  "('m::zero, 'p) cache \<Rightarrow> request \<Rightarrow> (obj_id \<times> ('m, 'p) cache) result" where
  "cache_insert_base c req =
     (if table c (r_obj_id req) \<noteq> None then Inl DuplicateKey
      else let x = create_cache_obj_from_request (Some req) in
        Inr (r_obj_id req,
             c\<lparr>occupied_byte := occupied_byte c + (obj_size x + obj_md_size c),
               n_obj := n_obj c + 1,
               table := (table c)(r_obj_id req \<mapsto>
                 x\<lparr>misc_next_access_vtime := r_next_access_vtime req, misc_freq := 0\<rparr>)\<rparr>))"

text \<open>
  The sum \<open>obj->obj_size + cache->obj_md_size\<close> is computed in \<open>uint32_t\<close> here, while
  \<open>cache_insert_base\<close> computes it in \<open>int64_t\<close>.
\<close>

definition cache_remove_obj_base ::
  "('m, 'p) cache \<Rightarrow> obj_id option \<Rightarrow> bool \<Rightarrow> ('m, 'p) cache result" where
  "cache_remove_obj_base c p remove_from_hashtable =
     bindE (deref c p) (\<lambda>x.
       let c = c\<lparr>occupied_byte := occupied_byte c - to_u32 (obj_size x + obj_md_size c),
                 n_obj := n_obj c - 1\<rparr>
       in Inr (if remove_from_hashtable then c\<lparr>table := (table c)(the p := None)\<rparr> else c))"

definition cache_evict_base ::
  "('m, 'p) cache \<Rightarrow> obj_id option \<Rightarrow> bool \<Rightarrow> ('m, 'p) cache result" where
  "cache_evict_base c p remove_from_hashtable = cache_remove_obj_base c p remove_from_hashtable"

text \<open>The \<open>while\<close> loop of \<open>cache_get_base\<close>; it may run for ever, so it has an outcome.\<close>

partial_function (option) evict_until_fits ::
  "('m, 'p) cache_ops \<Rightarrow> request \<Rightarrow> ('m, 'p) cache \<Rightarrow> ('m, 'p) cache outcome" where
  "evict_until_fits ops req c =
     (if op_get_occupied_byte ops c + r_obj_size req + obj_md_size c > cache_size c
      then (case op_evict ops c req of None \<Rightarrow> None
            | Some (Inl e) \<Rightarrow> Some (Inl e)
            | Some (Inr c') \<Rightarrow> evict_until_fits ops req c')
      else Some (Inr c))"

definition cache_get_base ::
  "('m, 'p) cache_ops \<Rightarrow> ('m, 'p) cache \<Rightarrow> request \<Rightarrow> (bool \<times> ('m, 'p) cache) outcome" where
  "cache_get_base ops c req =
     (let c = c\<lparr>n_req := n_req c + 1\<rparr> in
      bindO (op_find ops c req True) (\<lambda>(obj, c).
      if obj \<noteq> None then Some (Inr (True, c))
      else
        bindO (op_can_insert ops c req) (\<lambda>(ok, c).
        if \<not> ok then Some (Inr (False, c))
        else
          bindO (evict_until_fits ops req c) (\<lambda>c.
          bindO (op_insert ops c req) (\<lambda>(_, c). Some (Inr (False, c)))))))"

section \<open>Size admission (\<open>cache/admission/size.c\<close>)\<close>

definition size_admit :: "int \<Rightarrow> request \<Rightarrow> bool" where
  "size_admit size_threshold req = (if r_obj_size req < size_threshold then True else False)"

primcorec size_admissioner :: "int \<Rightarrow> admissioner" where
  "admit (size_admissioner t) = (\<lambda>req. map_prod id size_admissioner (size_admit t req, t))"

section \<open>The accounting invariant\<close>

text \<open>
  \<open>cache_wf q c\<close>: the ids of \<open>q\<close> are the ids of the stored objects, each once, every object is
  stored under its own id, and \<open>n_obj\<close> and \<open>occupied_byte\<close> count exactly the stored objects.
\<close>

definition obj_bytes :: "('m, 'p) cache \<Rightarrow> obj_id \<Rightarrow> int" where
  "obj_bytes c i = (case table c i of None \<Rightarrow> 0 | Some x \<Rightarrow> obj_size x + obj_md_size c)"

definition obj_ok :: "int \<Rightarrow> obj_id \<Rightarrow> 'm cache_obj \<Rightarrow> bool" where
  "obj_ok m i x \<longleftrightarrow> obj_id x = i \<and> 0 \<le> obj_size x \<and> obj_size x + m < 2 ^ 32"

definition cache_wf :: "obj_id list \<Rightarrow> ('m, 'p) cache \<Rightarrow> bool" where
  "cache_wf q c \<longleftrightarrow> distinct q \<and> set q = dom (table c) \<and>
     (\<forall>i x. table c i = Some x \<longrightarrow> obj_ok (obj_md_size c) i x) \<and> 0 \<le> obj_md_size c \<and>
     n_obj c = int (length q) \<and> occupied_byte c = sum_list (map (obj_bytes c) q)"

text \<open>The requests whose size \<open>cache_obj_t\<close> and the 32-bit accounting can represent.\<close>

definition req_ok :: "('m, 'p) cache \<Rightarrow> request \<Rightarrow> bool" where
  "req_ok c req \<longleftrightarrow> 0 \<le> r_obj_size req \<and> to_u32 (r_obj_size req) + obj_md_size c < 2 ^ 32"

lemma cache_wf_cong:
  "table c' = table c \<Longrightarrow> obj_md_size c' = obj_md_size c \<Longrightarrow> n_obj c' = n_obj c \<Longrightarrow>
   occupied_byte c' = occupied_byte c \<Longrightarrow> cache_wf q c' = cache_wf q c"
  by (simp add: cache_wf_def obj_bytes_def [abs_def] cong: option.case_cong)

lemma cache_wf_upd_simps [simp]:
  "cache_wf q (c\<lparr>eviction_params := p\<rparr>) = cache_wf q c"
  "cache_wf q (c\<lparr>n_req := n\<rparr>) = cache_wf q c"
  "cache_wf q (c\<lparr>admissioner := a\<rparr>) = cache_wf q c"
  "cache_wf q (c\<lparr>to_evict_candidate_gen_vtime := n\<rparr>) = cache_wf q c"
  "cache_wf q (c\<lparr>cache_size := n\<rparr>) = cache_wf q c"
  by (rule cache_wf_cong; simp)+

lemma cache_wf_member: "cache_wf q c \<Longrightarrow> i \<in> set q \<longleftrightarrow> table c i \<noteq> None"
  by (auto simp: cache_wf_def)

lemma cache_wf_lookup:
  assumes "cache_wf q c" "i \<in> set q"
  obtains x where "table c i = Some x" "obj_ok (obj_md_size c) i x"
  using assms by (auto simp: cache_wf_def)

lemma cache_wf_distinct: "cache_wf q c \<Longrightarrow> distinct q"
  by (simp add: cache_wf_def)

lemma cache_wf_perm:
  assumes "cache_wf q c" "mset q' = mset q"
  shows "cache_wf q' c"
proof -
  have "sum_list (map (obj_bytes c) q') = sum_list (map (obj_bytes c) q)"
    by (metis assms(2) mset_map sum_mset_sum_list)
  with assms(1) show ?thesis
    unfolding cache_wf_def
    using mset_eq_imp_distinct_iff [OF assms(2)] mset_eq_setD [OF assms(2)] mset_eq_length [OF assms(2)]
    by simp
qed

lemma obj_bytes_nonneg: "cache_wf q c \<Longrightarrow> 0 \<le> obj_bytes c i"
  by (auto simp: cache_wf_def obj_bytes_def obj_ok_def split: option.splits)

lemma cache_wf_occupied_nonneg: "cache_wf q c \<Longrightarrow> 0 \<le> occupied_byte c"
  using obj_bytes_nonneg [of q c] sum_list_nonneg [of "map (obj_bytes c) q"]
  by (auto simp: cache_wf_def)

lemma cache_wf_empty: "cache_wf [] c \<Longrightarrow> occupied_byte c = 0"
  by (simp add: cache_wf_def)

lemma cache_wf_init: "cache_wf [] (cache_struct_init params p)"
  by (simp add: cache_wf_def cache_struct_init_def)

subsection \<open>Changing an object in place\<close>

lemma cache_wf_upd:
  assumes "cache_wf q c" "table c i = Some x" "obj_id y = obj_id x" "obj_size y = obj_size x"
  shows "cache_wf q (c\<lparr>table := (table c)(i \<mapsto> y)\<rparr>)"
proof -
  have "obj_bytes (c\<lparr>table := (table c)(i \<mapsto> y)\<rparr>) = obj_bytes c"
    using assms(2,4) by (auto simp: obj_bytes_def fun_eq_iff split: option.splits)
  moreover have "insert i (dom (table c)) = dom (table c)"
    using assms(2) by auto
  ultimately show ?thesis
    using assms by (auto simp: cache_wf_def obj_ok_def)
qed

subsection \<open>Inserting and removing\<close>

definition new_obj :: "request \<Rightarrow> 'm::zero cache_obj" where
  "new_obj req = (create_cache_obj_from_request (Some req))
     \<lparr>misc_next_access_vtime := r_next_access_vtime req, misc_freq := 0\<rparr>"

definition inserted :: "('m::zero, 'p) cache \<Rightarrow> request \<Rightarrow> ('m, 'p) cache" where
  "inserted c req =
     c\<lparr>occupied_byte := occupied_byte c + (to_u32 (r_obj_size req) + obj_md_size c),
       n_obj := n_obj c + 1, table := (table c)(r_obj_id req \<mapsto> new_obj req)\<rparr>"

definition removed :: "('m, 'p) cache \<Rightarrow> obj_id \<Rightarrow> ('m, 'p) cache" where
  "removed c i = c\<lparr>occupied_byte := occupied_byte c - obj_bytes c i, n_obj := n_obj c - 1,
     table := (table c)(i := None)\<rparr>"

lemma new_obj_simps [simp]:
  "obj_id (new_obj req) = r_obj_id req"
  "obj_size (new_obj req) = to_u32 (r_obj_size req)"
  "md (new_obj req) = 0"
  by (simp_all add: new_obj_def)

lemma inserted_simps [simp]:
  "table (inserted c req) = (table c)(r_obj_id req \<mapsto> new_obj req)"
  "eviction_params (inserted c req) = eviction_params c"
  "n_req (inserted c req) = n_req c"
  "cache_size (inserted c req) = cache_size c"
  "obj_md_size (inserted c req) = obj_md_size c"
  "admissioner (inserted c req) = admissioner c"
  "default_ttl (inserted c req) = default_ttl c"
  "occupied_byte (inserted c req) = occupied_byte c + (to_u32 (r_obj_size req) + obj_md_size c)"
  "n_obj (inserted c req) = n_obj c + 1"
  by (simp_all add: inserted_def)

lemma removed_simps [simp]:
  "table (removed c i) = (table c)(i := None)"
  "eviction_params (removed c i) = eviction_params c"
  "n_req (removed c i) = n_req c"
  "cache_size (removed c i) = cache_size c"
  "obj_md_size (removed c i) = obj_md_size c"
  "admissioner (removed c i) = admissioner c"
  "default_ttl (removed c i) = default_ttl c"
  "occupied_byte (removed c i) = occupied_byte c - obj_bytes c i"
  "n_obj (removed c i) = n_obj c - 1"
  by (simp_all add: removed_def)

lemma cache_insert_base_eq:
  "table c (r_obj_id req) = None \<Longrightarrow> cache_insert_base c req = Inr (r_obj_id req, inserted c req)"
  by (simp add: cache_insert_base_def inserted_def new_obj_def Let_def)

lemma cache_remove_obj_base_eq:
  assumes "cache_wf q c" "i \<in> set q"
  shows "cache_remove_obj_base c (Some i) True = Inr (removed c i)"
proof -
  obtain x where "table c i = Some x" "obj_ok (obj_md_size c) i x"
    using assms by (rule cache_wf_lookup)
  moreover have "0 \<le> obj_md_size c"
    using assms(1) by (simp add: cache_wf_def)
  ultimately show ?thesis
    by (simp add: cache_remove_obj_base_def deref_def removed_def obj_bytes_def obj_ok_def to_u32_id)
qed

lemma cache_evict_base_eq:
  "cache_wf q c \<Longrightarrow> i \<in> set q \<Longrightarrow> cache_evict_base c (Some i) True = Inr (removed c i)"
  by (simp add: cache_evict_base_def cache_remove_obj_base_eq)

lemma obj_bytes_inserted:
  "obj_bytes (inserted c req) i =
     (if i = r_obj_id req then to_u32 (r_obj_size req) + obj_md_size c else obj_bytes c i)"
  by (simp add: obj_bytes_def split: option.splits)

lemma obj_bytes_removed: "obj_bytes (removed c i) j = (if j = i then 0 else obj_bytes c j)"
  by (simp add: obj_bytes_def split: option.splits)

lemma cache_wf_inserted:
  assumes "cache_wf q c" "table c (r_obj_id req) = None" "req_ok c req"
  shows "cache_wf (r_obj_id req # q) (inserted c req)"
proof -
  have "r_obj_id req \<notin> set q"
    using assms(1,2) by (simp add: cache_wf_member)
  moreover from this have "sum_list (map (obj_bytes (inserted c req)) q) = sum_list (map (obj_bytes c) q)"
    by (intro sum_list_map_cong) (auto simp: obj_bytes_inserted)
  ultimately show ?thesis
    using assms by (auto simp: cache_wf_def obj_bytes_inserted obj_ok_def req_ok_def)
qed

lemma cache_wf_removed:
  assumes "cache_wf q c" "i \<in> set q"
  shows "cache_wf (remove1 i q) (removed c i)"
proof -
  have d: "distinct q"
    using assms(1) by (rule cache_wf_distinct)
  have "sum_list (map (obj_bytes (removed c i)) (remove1 i q)) = sum_list (map (obj_bytes c) (remove1 i q))"
    using d by (intro sum_list_map_cong) (auto simp: obj_bytes_removed)
  then have "sum_list (map (obj_bytes (removed c i)) (remove1 i q)) =
      sum_list (map (obj_bytes c) q) - obj_bytes c i"
    using sum_list_map_remove1 [OF assms(2), of "obj_bytes c"] by linarith
  moreover have "int (length (remove1 i q)) = int (length q) - 1"
    using assms(2) length_pos_if_in_set [OF assms(2)] by (simp only: length_remove1 if_True)
  ultimately show ?thesis
    using assms d by (auto simp: cache_wf_def)
qed

subsection \<open>Looking up\<close>

lemma cache_find_base_result:
  "fst (cache_find_base c req u) = (if table c (r_obj_id req) = None then None else Some (r_obj_id req))"
  by (simp add: cache_find_base_def split: option.splits)

lemma cache_find_base_wf: "cache_wf q c \<Longrightarrow> cache_wf q (snd (cache_find_base c req u))"
  by (auto simp: cache_find_base_def cache_wf_upd split: option.splits)

lemma cache_find_base_frame [simp]:
  "eviction_params (snd (cache_find_base c req u)) = eviction_params c"
  "n_req (snd (cache_find_base c req u)) = n_req c"
  "cache_size (snd (cache_find_base c req u)) = cache_size c"
  "obj_md_size (snd (cache_find_base c req u)) = obj_md_size c"
  "admissioner (snd (cache_find_base c req u)) = admissioner c"
  "occupied_byte (snd (cache_find_base c req u)) = occupied_byte c"
  "n_obj (snd (cache_find_base c req u)) = n_obj c"
  by (simp_all add: cache_find_base_def split: option.splits)

lemma cache_find_base_md [simp]:
  "map_option md (table (snd (cache_find_base c req u)) i) = map_option md (table c i)"
  by (simp add: cache_find_base_def split: option.splits)

section \<open>The contract of an eviction algorithm\<close>

text \<open>
  What \<open>cache_get_base\<close> relies on. \<open>keys\<close> is the set of ids the algorithm reports as cached,
  \<open>admits\<close> what \<open>can_insert\<close> answers, \<open>work\<close> a bound on the evictions still needed to empty the cache, \<open>faults\<close> the errors an eviction
  may stop with. \<open>ok\<close> describes the requests the algorithm can account for, and \<open>pend\<close> and
  \<open>adm\<close> what a lookup that misses and an admission leave behind for the insertion that follows.
\<close>

definition conf :: "('m, 'p) cache \<Rightarrow> int \<times> int \<times> int" where
  "conf c = (cache_size c, obj_md_size c, n_req c)"

lemma conf_eq [simp]:
  "conf c = conf c' \<longleftrightarrow> cache_size c = cache_size c' \<and> obj_md_size c = obj_md_size c' \<and> n_req c = n_req c'"
  by (simp add: conf_def)

locale eviction_algorithm =
  fixes ops :: "('m, 'p) cache_ops"
    and inv :: "('m, 'p) cache \<Rightarrow> bool"
    and keys :: "('m, 'p) cache \<Rightarrow> obj_id set"
    and ok :: "('m, 'p) cache \<Rightarrow> request \<Rightarrow> bool"
    and work :: "('m, 'p) cache \<Rightarrow> request \<Rightarrow> nat"
    and admits :: "('m, 'p) cache \<Rightarrow> request \<Rightarrow> bool"
    and pend :: "('m, 'p) cache \<Rightarrow> request \<Rightarrow> bool"
    and adm :: "('m, 'p) cache \<Rightarrow> request \<Rightarrow> bool"
    and faults :: "c_error set"
  assumes inv_n_req: "inv c \<Longrightarrow> inv (c\<lparr>n_req := n\<rparr>)"
    and keys_n_req: "keys (c\<lparr>n_req := n\<rparr>) = keys c"
    and occ_n_req: "op_get_occupied_byte ops (c\<lparr>n_req := n\<rparr>) = op_get_occupied_byte ops c"
    and admits_n_req: "admits (c\<lparr>n_req := n\<rparr>) req = admits c req"
    and ok_conf: "conf c' = conf (c\<lparr>n_req := n\<rparr>) \<Longrightarrow> ok c req \<Longrightarrow> ok c' req"
    and ok_size: "ok c req \<Longrightarrow> 0 \<le> r_obj_size req"
    and md_nonneg: "inv c \<Longrightarrow> 0 \<le> obj_md_size c"
    and find_law: "inv c \<Longrightarrow>
      \<exists>c'. op_find ops c req True =
             Some (Inr (if r_obj_id req \<in> keys c then Some (r_obj_id req) else None, c')) \<and>
           inv c' \<and> keys c' = keys c \<and> conf c' = conf c \<and> admits c' req = admits c req \<and>
           op_get_occupied_byte ops c' = op_get_occupied_byte ops c \<and>
           (r_obj_id req \<notin> keys c \<longrightarrow> pend c' req)"
    and can_insert_law: "inv c \<Longrightarrow>
      \<exists>c'. op_can_insert ops c req = Some (Inr (admits c req, c')) \<and> inv c' \<and> keys c' = keys c \<and>
           conf c' = conf c \<and> op_get_occupied_byte ops c' = op_get_occupied_byte ops c \<and>
           (pend c req \<and> admits c req \<longrightarrow> adm c' req)"
    and admits_fits: "inv c \<Longrightarrow> admits c req \<Longrightarrow> r_obj_size req + obj_md_size c \<le> cache_size c"
    and evict_law: "inv c \<Longrightarrow> ok c req \<Longrightarrow> adm c req \<Longrightarrow> keys c \<noteq> {} \<Longrightarrow> r_obj_id req \<notin> keys c \<Longrightarrow>
      cache_size c < op_get_occupied_byte ops c + r_obj_size req + obj_md_size c \<Longrightarrow>
      (\<exists>e \<in> faults. op_evict ops c req = Some (Inl e)) \<or>
      (\<exists>c'. op_evict ops c req = Some (Inr c') \<and> inv c' \<and> keys c' \<subseteq> keys c \<and> conf c' = conf c \<and>
            work c' req < work c req \<and> adm c' req)"
    and insert_law: "inv c \<Longrightarrow> ok c req \<Longrightarrow> adm c req \<Longrightarrow> r_obj_id req \<notin> keys c \<Longrightarrow>
      op_get_occupied_byte ops c + r_obj_size req + obj_md_size c \<le> cache_size c \<Longrightarrow>
      \<exists>p c'. op_insert ops c req = Some (Inr (p, c')) \<and> inv c' \<and>
           keys c' = insert (r_obj_id req) (keys c) \<and> conf c' = conf c \<and>
           op_get_occupied_byte ops c' \<le> cache_size c"
    and empty_law: "inv c \<Longrightarrow> keys c = {} \<Longrightarrow> op_get_occupied_byte ops c \<le> 0"
begin

definition ready :: "('m, 'p) cache \<Rightarrow> request \<Rightarrow> bool" where
  "ready c req \<longleftrightarrow> inv c \<and> ok c req \<and> op_get_occupied_byte ops c \<le> cache_size c"

text \<open>The eviction loop ends, and ends with room for the request.\<close>

lemma evict_until_fits_law:
  assumes "inv c" "r_obj_size req + obj_md_size c \<le> cache_size c" "adm c req" "ok c req"
    "r_obj_id req \<notin> keys c"
  shows "(\<exists>e \<in> faults. evict_until_fits ops req c = Some (Inl e)) \<or>
         (\<exists>c'. evict_until_fits ops req c = Some (Inr c') \<and> inv c' \<and> keys c' \<subseteq> keys c \<and>
               conf c' = conf c \<and> adm c' req \<and>
               op_get_occupied_byte ops c' + r_obj_size req + obj_md_size c \<le> cache_size c)"
  using assms
proof (induction "work c req" arbitrary: c rule: less_induct)
  case less
  show ?case
  proof (cases "op_get_occupied_byte ops c + r_obj_size req + obj_md_size c > cache_size c")
    case True
    then have "keys c \<noteq> {}"
      using empty_law less.prems by fastforce
    from evict_law [OF less.prems(1,4,3) this less.prems(5) True] show ?thesis
    proof (elim disjE exE conjE bexE)
      fix c' assume e: "op_evict ops c req = Some (Inr c')" "inv c'" "keys c' \<subseteq> keys c"
        "conf c' = conf c" "work c' req < work c req" "adm c' req"
      have "evict_until_fits ops req c = evict_until_fits ops req c'"
        using True e(1) by (subst evict_until_fits.simps) simp
      moreover have "ok c' req"
        by (rule ok_conf [OF _ less.prems(4), of _ "n_req c"]) (use e(4) in simp)
      moreover have "r_obj_id req \<notin> keys c'" "r_obj_size req + obj_md_size c' \<le> cache_size c'"
        using e(3,4) less.prems(2,5) by auto
      ultimately show ?thesis
        using less.hyps [OF e(5,2) _ e(6)] e(3,4) by fastforce
    qed (subst (1 2) evict_until_fits.simps, use True in simp)
  next
    case False
    then show ?thesis
      using less.prems by (subst (1 2) evict_until_fits.simps) auto
  qed
qed

text \<open>
  What a request does: it hits exactly when the id is cached, a hit changes no membership, after a
  miss the id is cached exactly when it was admitted, and the cache never holds more than its size.
\<close>

definition served :: "('m, 'p) cache \<Rightarrow> request \<Rightarrow> ('m, 'p) cache \<Rightarrow> bool" where
  "served c req c' \<longleftrightarrow> inv c' \<and> op_get_occupied_byte ops c' \<le> cache_size c \<and>
     cache_size c' = cache_size c \<and> obj_md_size c' = obj_md_size c \<and> n_req c' = n_req c + 1 \<and>
     keys c' \<subseteq> insert (r_obj_id req) (keys c) \<and>
     (r_obj_id req \<in> keys c' \<longleftrightarrow> r_obj_id req \<in> keys c \<or> admits c req) \<and>
     (r_obj_id req \<in> keys c \<or> \<not> admits c req \<longrightarrow> keys c' = keys c)"

lemma get_law:
  assumes "ready c req"
  shows "(\<exists>e \<in> faults. cache_get_base ops c req = Some (Inl e)) \<or>
         (\<exists>c'. cache_get_base ops c req = Some (Inr (r_obj_id req \<in> keys c, c')) \<and> served c req c')"
proof -
  let ?c = "c\<lparr>n_req := n_req c + 1\<rparr>" and ?i = "r_obj_id req" and ?occ = "op_get_occupied_byte ops"
  have c: "inv ?c" "keys ?c = keys c" "?occ ?c = ?occ c" "?occ c \<le> cache_size c" "ok c req"
    using assms by (auto simp: ready_def inv_n_req keys_n_req occ_n_req)
  obtain c1 where f: "op_find ops ?c req True = Some (Inr (if ?i \<in> keys c then Some ?i else None, c1))"
      "inv c1" "keys c1 = keys c" "conf c1 = conf ?c" "admits c1 req = admits c req" "?occ c1 = ?occ c"
      "?i \<notin> keys c \<longrightarrow> pend c1 req"
    using find_law [OF c(1), of req] c(2,3) by (auto simp: admits_n_req)
  show ?thesis
  proof (cases "?i \<in> keys c")
    case True
    then have "cache_get_base ops c req = Some (Inr (True, c1))"
      using f(1) by (simp add: cache_get_base_def Let_def)
    then show ?thesis
      using True f c by (auto simp: served_def)
  next
    case miss: False
    obtain c2 where a: "op_can_insert ops c1 req = Some (Inr (admits c req, c2))" "inv c2"
        "keys c2 = keys c" "conf c2 = conf ?c" "?occ c2 = ?occ c"
        "admits c req \<longrightarrow> adm c2 req"
      using can_insert_law [OF f(2), of req] f miss by auto
    show ?thesis
    proof (cases "admits c req")
      case False
      then have "cache_get_base ops c req = Some (Inr (False, c2))"
        using f(1) a(1) miss by (simp add: cache_get_base_def Let_def)
      then show ?thesis
        using False miss a c by (auto simp: served_def)
    next
      case True
      have g: "cache_get_base ops c req = bindO (evict_until_fits ops req c2) (\<lambda>c.
          bindO (op_insert ops c req) (\<lambda>(_, c). Some (Inr (False, c))))"
        using f(1) a(1) miss True by (simp add: cache_get_base_def Let_def)
      have "r_obj_size req + obj_md_size c2 \<le> cache_size c2"
        using admits_fits [OF f(2)] True f(4,5) a(4) by simp
      moreover have "adm c2 req" "r_obj_id req \<notin> keys c2"
        using True a(3,6) miss by auto
      moreover have "ok c2 req"
        by (rule ok_conf [OF _ c(5), of _ "n_req c + 1"]) (use a(4) in simp)
      ultimately have "(\<exists>e \<in> faults. evict_until_fits ops req c2 = Some (Inl e)) \<or>
          (\<exists>c'. evict_until_fits ops req c2 = Some (Inr c') \<and> inv c' \<and> keys c' \<subseteq> keys c2 \<and>
            conf c' = conf c2 \<and> adm c' req \<and>
            ?occ c' + r_obj_size req + obj_md_size c2 \<le> cache_size c2)"
        by (intro evict_until_fits_law [OF a(2)])
      then show ?thesis
      proof (elim disjE exE conjE bexE)
        fix c3 assume e: "evict_until_fits ops req c2 = Some (Inr c3)" "inv c3" "keys c3 \<subseteq> keys c2"
          "conf c3 = conf c2" "adm c3 req" "?occ c3 + r_obj_size req + obj_md_size c2 \<le> cache_size c2"
        have n: "?i \<notin> keys c3"
          using e(3) a(3) miss by blast
        have o: "ok c3 req"
          by (rule ok_conf [OF _ c(5), of _ "n_req c + 1"]) (use e(4) a(4) in simp)
        obtain p c4 where i: "op_insert ops c3 req = Some (Inr (p, c4))" "inv c4"
            "keys c4 = insert ?i (keys c3)" "conf c4 = conf c3" "?occ c4 \<le> cache_size c3"
          using insert_law [OF e(2) o e(5) n] e(4,6) by auto
        then show ?thesis
          using g e a True miss by (auto simp: served_def)
      qed (use g in auto)
    qed
  qed
qed

end

text \<open>An algorithm whose evictions never fail.\<close>

locale total_eviction_algorithm =
  eviction_algorithm ops inv keys ok work admits pend adm "{}"
  for ops :: "('m, 'p) cache_ops" and inv keys ok work admits pend adm
begin

lemma get_total:
  assumes "inv c" "ok c req" "op_get_occupied_byte ops c \<le> cache_size c"
  shows "\<exists>c'. cache_get_base ops c req = Some (Inr (r_obj_id req \<in> keys c, c')) \<and> served c req c'"
  using get_law [of c req] assms by (simp add: ready_def)

end

end
