(* ===== verification/Queue_Cache.thy ===== *)
theory Queue_Cache
  imports Cache_Base "HOL-Library.Sublist"
begin

text \<open>
  What the caches with one queue share: \<open>q_head\<close> and \<open>q_tail\<close> as a list, eviction at the tail, and
  the effect of the eviction loop of \<open>cache_get_base\<close> on such a cache.
\<close>

section \<open>A queue between \<open>q_head\<close> and \<open>q_tail\<close>\<close>

record queue_params =
  queue :: "obj_id list"

abbreviation q_list :: "('m, 'a queue_params_scheme) cache \<Rightarrow> obj_id list" where
  "q_list c \<equiv> queue (eviction_params c)"

definition set_q :: "('m, 'a queue_params_scheme) cache \<Rightarrow> obj_id list \<Rightarrow> ('m, 'a queue_params_scheme) cache" where
  "set_q c q = c\<lparr>eviction_params := (eviction_params c)\<lparr>queue := q\<rparr>\<rparr>"

definition q_head :: "obj_id list \<Rightarrow> obj_id option" where
  "q_head q = (case q of [] \<Rightarrow> None | i # _ \<Rightarrow> Some i)"

definition q_tail :: "obj_id list \<Rightarrow> obj_id option" where
  "q_tail q = (if q = [] then None else Some (last q))"

text \<open>\<open>obj->queue.prev\<close>: the neighbour on the side of the head.\<close>

fun q_prev :: "obj_id list \<Rightarrow> obj_id \<Rightarrow> obj_id option" where
  "q_prev (x # y # q) i = (if y = i then Some x else q_prev (y # q) i)"
| "q_prev _ i = None"

text \<open>The manual unlinking of \<open>q_tail\<close> and \<open>cache_evict_base\<close>, as FIFO and LRU write it.\<close>

definition evict_tail ::
  "('m, 'a queue_params_scheme) cache \<Rightarrow> ('m, 'a queue_params_scheme) cache result" where
  "evict_tail c = (case q_tail (q_list c) of None \<Rightarrow> Inl NullDeref
     | Some i \<Rightarrow> cache_evict_base (set_q c (butlast (q_list c))) (Some i) True)"

lemma set_q_simps [simp]:
  "table (set_q c q) = table c" "n_obj (set_q c q) = n_obj c"
  "occupied_byte (set_q c q) = occupied_byte c" "n_req (set_q c q) = n_req c"
  "cache_size (set_q c q) = cache_size c" "default_ttl (set_q c q) = default_ttl c"
  "obj_md_size (set_q c q) = obj_md_size c" "admissioner (set_q c q) = admissioner c"
  "q_list (set_q c q) = q" "set_q (set_q c q) q' = set_q c q'"
  by (simp_all add: set_q_def)

lemma cache_wf_set_q [simp]: "cache_wf q (set_q c q') = cache_wf q c"
  by (simp add: set_q_def)

lemma obj_bytes_set_q [simp]: "obj_bytes (set_q c q) = obj_bytes c"
  by (simp add: obj_bytes_def fun_eq_iff split: option.splits)

lemma q_tail_simps [simp, queue_simps]:
  "q_tail [] = None"
  "q_tail (q @ [i]) = Some i"
  by (simp_all add: q_tail_def)

lemma q_tail_mem: "q_tail q = Some i \<Longrightarrow> i \<in> set q"
  by (auto simp: q_tail_def split: if_splits)

lemma evict_tail_eq:
  assumes "cache_wf (q_list c) c" "q_list c = q @ [i]"
  shows "evict_tail c = Inr (removed (set_q c q) i)"
  using assms cache_evict_base_eq [of "q @ [i]" "set_q c q" i]
  by (simp add: evict_tail_def)

lemma evict_tail_wf:
  assumes "cache_wf (q_list c) c" "q_list c = q @ [i]"
  shows "cache_wf q (removed (set_q c q) i)"
proof -
  have "i \<notin> set q"
    using assms cache_wf_distinct by fastforce
  then show ?thesis
    using assms cache_wf_removed [of "q @ [i]" "set_q c q" i] by (simp add: remove1_append)
qed

lemma cache_wf_nonempty:
  assumes "cache_wf q c" "dom (table c) \<noteq> {}"
  shows "\<exists>q' i. q = q' @ [i] \<and> n_obj c = int (length q') + 1"
  using assms by (cases q rule: rev_cases) (auto simp: cache_wf_def)

section \<open>The eviction loop on a queue\<close>

text \<open>The longest prefix of a queue whose objects fit into \<open>cap\<close> bytes.\<close>

fun fit_prefix :: "(obj_id \<Rightarrow> int) \<Rightarrow> int \<Rightarrow> obj_id list \<Rightarrow> obj_id list" where
  "fit_prefix b cap [] = []"
| "fit_prefix b cap (i # q) = (if b i \<le> cap then i # fit_prefix b (cap - b i) q else [])"

lemma fit_prefix_all:
  "(\<And>i. 0 \<le> b i) \<Longrightarrow> sum_list (map b q) \<le> cap \<Longrightarrow> fit_prefix b cap q = q"
proof (induction q arbitrary: cap)
  case (Cons i q)
  have "0 \<le> sum_list (map b q)"
    using Cons.prems(1) by (intro sum_list_nonneg) auto
  with Cons show ?case by simp
qed simp

lemma fit_prefix_snoc:
  "sum_list (map b (q @ [i])) > cap \<Longrightarrow> fit_prefix b cap (q @ [i]) = fit_prefix b cap q"
  by (induction q arbitrary: cap) auto

lemma fit_prefix_sum: "0 \<le> cap \<Longrightarrow> sum_list (map b (fit_prefix b cap q)) \<le> cap"
proof (induction q arbitrary: cap)
  case (Cons i q)
  show ?case
  proof (cases "b i \<le> cap")
    case True
    then show ?thesis using Cons.IH [of "cap - b i"] by simp
  qed (use Cons.prems in simp)
qed simp

lemma fit_prefix_prefix: "\<exists>r. q = fit_prefix b cap q @ r"
  by (induction q arbitrary: cap) auto

lemma fit_prefix_subset: "set (fit_prefix b cap q) \<subseteq> set q"
  by (induction q arbitrary: cap) auto

lemma fit_prefix_cong:
  "(\<And>i. i \<in> set q \<Longrightarrow> b i = b' i) \<Longrightarrow> fit_prefix b cap q = fit_prefix b' cap q"
  by (induction q arbitrary: cap) auto

lemma fit_prefix_mono:
  "prefix p q \<Longrightarrow> cap \<le> cap' \<Longrightarrow> prefix (fit_prefix b cap p) (fit_prefix b cap' q)"
proof (induction p arbitrary: cap cap' q)
  case (Cons i p)
  then obtain r where "q = i # r" "prefix p r"
    by (cases q) auto
  with Cons show ?case by auto
qed simp

text \<open>The cache cut down to the objects of \<open>q\<close>.\<close>

definition shrink :: "('m, 'a queue_params_scheme) cache \<Rightarrow> obj_id list \<Rightarrow> ('m, 'a queue_params_scheme) cache" where
  "shrink c q = (set_q c q)\<lparr>table := table c |` set q, n_obj := int (length q),
     occupied_byte := sum_list (map (obj_bytes c) q)\<rparr>"

lemma shrink_simps [simp]:
  "table (shrink c q) = table c |` set q"
  "q_list (shrink c q) = q"
  "admissioner (shrink c q) = admissioner c"
  "cache_size (shrink c q) = cache_size c"
  "obj_md_size (shrink c q) = obj_md_size c"
  by (simp_all add: shrink_def)

lemma shrink_self:
  assumes "cache_wf (q_list c) c"
  shows "shrink c (q_list c) = c"
proof -
  have "table c |` set (q_list c) = table c"
    using assms by (auto simp: cache_wf_def restrict_map_def fun_eq_iff)
  then show ?thesis
    using assms by (simp add: shrink_def set_q_def cache_wf_def)
qed

lemma shrink_removed:
  assumes "cache_wf (q_list c) c" "q_list c = q @ [i]" "set q' \<subseteq> set q"
  shows "shrink (removed (set_q c q) i) q' = shrink c q'"
proof -
  have i: "i \<notin> set q'"
    using assms cache_wf_distinct [OF assms(1)] by auto
  have "sum_list (map (obj_bytes (removed (set_q c q) i)) q') = sum_list (map (obj_bytes c) q')"
    using i by (intro sum_list_map_cong) (auto simp: obj_bytes_removed)
  moreover have "(table c)(i := None) |` set q' = table c |` set q'"
    using i by (auto simp: restrict_map_def fun_eq_iff)
  ultimately show ?thesis
    by (simp add: shrink_def removed_def set_q_def)
qed

lemma evict_tail_until_fits:
  assumes "\<And>c. op_evict ops c req = Some (evict_tail c)"
    and "\<And>c. op_get_occupied_byte ops c = occupied_byte c"
    and "cache_wf (q_list c) c" "r_obj_size req + obj_md_size c \<le> cache_size c"
  shows "evict_until_fits ops req c =
    Some (Inr (shrink c (fit_prefix (obj_bytes c) (cache_size c - r_obj_size req - obj_md_size c) (q_list c))))"
  using assms(3,4)
proof (induction "length (q_list c)" arbitrary: c)
  case 0
  then show ?case
    using shrink_self [of c] by (subst evict_until_fits.simps) (simp add: assms cache_wf_empty)
next
  case (Suc n)
  let ?cap = "cache_size c - r_obj_size req - obj_md_size c"
  obtain q i where q: "q_list c = q @ [i]"
    using Suc.hyps(2) by (metis length_0_conv nat.simps(3) rev_exhaust)
  have occ: "occupied_byte c = sum_list (map (obj_bytes c) (q_list c))"
    using Suc.prems(1) by (simp add: cache_wf_def)
  show ?case
  proof (cases "occupied_byte c \<le> ?cap")
    case True
    then have "fit_prefix (obj_bytes c) ?cap (q_list c) = q_list c"
      using occ fit_prefix_all [of "obj_bytes c"] obj_bytes_nonneg [OF Suc.prems(1)] by simp
    then show ?thesis
      using True shrink_self [OF Suc.prems(1)] by (subst evict_until_fits.simps) (simp add: assms)
  next
    case False
    let ?c = "removed (set_q c q) i"
    have i: "i \<notin> set q" and w: "cache_wf q ?c"
      using cache_wf_removed [of "q @ [i]" "set_q c q" i] Suc.prems(1) q cache_wf_distinct [OF Suc.prems(1)]
      by (auto simp: remove1_append)
    have "fit_prefix (obj_bytes ?c) ?cap q = fit_prefix (obj_bytes c) ?cap q"
      using i by (intro fit_prefix_cong) (auto simp: obj_bytes_removed)
    moreover have "fit_prefix (obj_bytes c) ?cap (q_list c) = fit_prefix (obj_bytes c) ?cap q"
      using False occ unfolding q by (intro fit_prefix_snoc) simp
    moreover have "evict_until_fits ops req c = evict_until_fits ops req ?c"
      using False evict_tail_eq [OF Suc.prems(1) q] by (subst evict_until_fits.simps) (simp add: assms)
    ultimately show ?thesis
      using Suc.hyps(1) [of ?c] Suc.hyps(2) Suc.prems(2) w q
        shrink_removed [OF Suc.prems(1) q fit_prefix_subset]
      by simp
  qed
qed

section \<open>Admission and lookup in a cache with the default functions\<close>

definition admits_default :: "('m, 'p) cache \<Rightarrow> request \<Rightarrow> bool" where
  "admits_default c req \<longleftrightarrow>
     (case admissioner c of None \<Rightarrow> True | Some a \<Rightarrow> fst (admit a req)) \<and>
     r_obj_size req + obj_md_size c \<le> cache_size c"

lemma cache_can_insert_default_eq:
  "\<exists>a. cache_can_insert_default c req = (admits_default c req, c\<lparr>admissioner := a\<rparr>) \<and>
       (admissioner c = None \<longrightarrow> a = None)"
proof (cases "admissioner c")
  case None
  then have "c = c\<lparr>admissioner := None\<rparr>"
    by (cases c) simp
  moreover have "cache_can_insert_default c req = (admits_default c req, c)"
    using None by (auto simp: cache_can_insert_default_def admits_default_def)
  ultimately show ?thesis by metis
next
  case (Some a)
  then show ?thesis
    by (cases "admit a req") (auto simp: cache_can_insert_default_def admits_default_def)
qed

lemma admits_default_cong:
  "admissioner c' = admissioner c \<Longrightarrow> obj_md_size c' = obj_md_size c \<Longrightarrow>
   cache_size c' = cache_size c \<Longrightarrow> admits_default c' req = admits_default c req"
  by (simp add: admits_default_def cong: option.case_cong)

lemma cache_find_base_dom [simp]: "dom (table (snd (cache_find_base c req u))) = dom (table c)"
  by (auto simp: cache_find_base_def split: option.splits)

lemma req_ok_conf: "obj_md_size c' = obj_md_size c \<Longrightarrow> req_ok c req \<Longrightarrow> req_ok c' req"
  by (simp add: req_ok_def)

lemma req_ok_size: "req_ok c req \<Longrightarrow> 0 \<le> r_obj_size req"
  by (simp add: req_ok_def)

lemma cache_wf_md: "cache_wf q c \<Longrightarrow> 0 \<le> obj_md_size c"
  by (simp add: cache_wf_def)

lemma to_u32_le: "0 \<le> x \<Longrightarrow> to_u32 x \<le> x"
  by (simp add: to_u32_def zmod_le_nonneg_dividend)

lemma dom_empty_queue: "cache_wf q c \<Longrightarrow> dom (table c) = {} \<Longrightarrow> occupied_byte c \<le> 0"
  by (auto simp: cache_wf_def)

lemma cache_find_base_law:
  assumes "cache_wf q c"
  shows "\<exists>c'. cache_find_base c req u =
           (if r_obj_id req \<in> dom (table c) then Some (r_obj_id req) else None, c') \<and>
         cache_wf q c' \<and> dom (table c') = dom (table c) \<and> conf c' = conf c \<and>
         admits_default c' req = admits_default c req \<and> occupied_byte c' = occupied_byte c \<and>
         eviction_params c' = eviction_params c \<and>
         (\<forall>i. map_option md (table c' i) = map_option md (table c i))"
proof -
  let ?c = "snd (cache_find_base c req u)"
  have "cache_find_base c req u = (if r_obj_id req \<in> dom (table c) then Some (r_obj_id req) else None, ?c)"
    using cache_find_base_result [of c req u] by (auto simp: prod_eq_iff)
  moreover have "admits_default ?c req = admits_default c req"
    by (rule admits_default_cong) simp_all
  ultimately show ?thesis
    using cache_find_base_wf [OF assms, of req u] by (intro exI [of _ ?c]) simp
qed

lemma queue_get_miss_eq:
  assumes ops: "\<And>c. op_evict ops c req = Some (evict_tail c)"
      "\<And>c. op_get_occupied_byte ops c = occupied_byte c"
      "\<And>c. op_can_insert ops c req = Some (Inr (cache_can_insert_default c req))"
      "\<And>c. table c (r_obj_id req) = None \<Longrightarrow> op_find ops c req True = Some (Inr (None, c))"
      "\<And>c. table c (r_obj_id req) = None \<Longrightarrow>
         op_insert ops c req = Some (Inr (Some (r_obj_id req), set_q (inserted c req) (r_obj_id req # q_list c)))"
    and c: "cache_wf (q_list c) c" "table c (r_obj_id req) = None" "admits_default c req"
  shows "\<exists>c'. cache_get_base ops c req = Some (Inr (False, c')) \<and>
    q_list c' = r_obj_id req # fit_prefix (obj_bytes c) (cache_size c - r_obj_size req - obj_md_size c) (q_list c) \<and>
    (\<forall>i. i \<noteq> r_obj_id req \<longrightarrow> i \<in> set (q_list c') \<longrightarrow> table c' i = table c i) \<and>
    table c' (r_obj_id req) = Some (new_obj req) \<and>
    (admissioner c = None \<longrightarrow> admissioner c' = None)"
proof -
  let ?c = "c\<lparr>n_req := n_req c + 1\<rparr>"
  obtain a where a: "cache_can_insert_default ?c req = (True, ?c\<lparr>admissioner := a\<rparr>)"
      "admissioner c = None \<longrightarrow> a = None"
    using cache_can_insert_default_eq [of ?c req] admits_default_cong [of ?c c req] c(3) by auto
  let ?d = "?c\<lparr>admissioner := a\<rparr>"
  let ?q = "fit_prefix (obj_bytes c) (cache_size c - r_obj_size req - obj_md_size c) (q_list c)"
  have b: "obj_bytes ?d = obj_bytes c"
    by (simp add: obj_bytes_def fun_eq_iff split: option.splits)
  have "evict_until_fits ops req ?d = Some (Inr (shrink ?d ?q))"
    using evict_tail_until_fits [of ops req ?d] ops(1,2) c(1,3) b by (simp add: admits_default_def)
  then show ?thesis
    using ops(3-5) a c(2) by (simp add: cache_get_base_def Let_def restrict_map_def)
qed

section \<open>A small cache for the examples\<close>

text \<open>Two objects of one byte in a cache of two bytes.\<close>

definition example_req :: "obj_id \<Rightarrow> int \<Rightarrow> request" where
  "example_req i s = new_request\<lparr>r_obj_id := i, r_obj_size := s\<rparr>"

definition example_cache :: "'p \<Rightarrow> ('m::zero, 'p) cache" where
  "example_cache p =
     \<lparr>table = [1 \<mapsto> new_obj (example_req 1 1), 2 \<mapsto> new_obj (example_req 2 1)], n_obj = 2,
      occupied_byte = 2, n_req = 2, cache_size = 2, default_ttl = 0, obj_md_size = 0,
      admissioner = None, to_evict_candidate_gen_vtime = -1, eviction_params = p\<rparr>"

lemma example_req_simps [simp]:
  "r_obj_id (example_req i s) = i" "r_obj_size (example_req i s) = s"
  by (simp_all add: example_req_def)

lemma example_cache_wf: "cache_wf [2, 1] (example_cache p)"
  by (auto simp: cache_wf_def example_cache_def obj_bytes_def obj_ok_def to_u32_def)

end
