(* ===== verification/FIFO.thy ===== *)
theory FIFO
  imports Queue_Cache
begin

text \<open>
  The FIFO cache of \<open>cache/eviction/FIFO.c\<close>: new objects enter at the head of the queue, evictions
  take the tail, hits leave the queue alone.
\<close>

type_synonym FIFO_params = queue_params
type_synonym 'm FIFO_cache = "('m, FIFO_params) cache"

definition FIFO_init :: "common_cache_params \<Rightarrow> 'm FIFO_cache" where
  "FIFO_init ccache_params =
     (cache_struct_init ccache_params \<lparr>queue = []\<rparr>)\<lparr>obj_md_size := 0\<rparr>"

definition FIFO_find ::
  "'m FIFO_cache \<Rightarrow> request \<Rightarrow> bool \<Rightarrow> obj_id option \<times> 'm FIFO_cache" where
  "FIFO_find c req update_cache = cache_find_base c req update_cache"

definition FIFO_insert :: "'m::zero FIFO_cache \<Rightarrow> request \<Rightarrow> (obj_id option \<times> 'm FIFO_cache) result" where
  "FIFO_insert c req =
     bindE (cache_insert_base c req) (\<lambda>(obj, c). Inr (Some obj, set_q c (obj # q_list c)))"

definition FIFO_to_evict :: "'m FIFO_cache \<Rightarrow> request \<Rightarrow> obj_id option" where
  "FIFO_to_evict c req = q_tail (q_list c)"

definition FIFO_evict :: "'m FIFO_cache \<Rightarrow> request \<Rightarrow> 'm FIFO_cache result" where
  "FIFO_evict c req = evict_tail c"

definition FIFO_remove :: "'m FIFO_cache \<Rightarrow> obj_id \<Rightarrow> (bool \<times> 'm FIFO_cache) result" where
  "FIFO_remove c i =
     (case hashtable_find_obj_id c i of None \<Rightarrow> Inr (False, c)
      | Some obj \<Rightarrow>
        bindE (cache_remove_obj_base (set_q c (remove1 obj (q_list c))) (Some obj) True)
              (\<lambda>c. Inr (True, c)))"

definition FIFO_ops :: "('m::zero, FIFO_params) cache_ops" where
  "FIFO_ops =
     \<lparr>op_find = (\<lambda>c req u. Some (Inr (FIFO_find c req u))),
      op_can_insert = (\<lambda>c req. Some (Inr (cache_can_insert_default c req))),
      op_insert = (\<lambda>c req. Some (FIFO_insert c req)),
      op_evict = (\<lambda>c req. Some (FIFO_evict c req)),
      op_to_evict = (\<lambda>c req. Some (Inr (FIFO_to_evict c req, c))),
      op_remove = (\<lambda>c i. Some (FIFO_remove c i)),
      op_get_occupied_byte = cache_get_occupied_byte_default,
      op_get_n_obj = cache_get_n_obj_default\<rparr>"

definition FIFO_get :: "'m::zero FIFO_cache \<Rightarrow> request \<Rightarrow> (bool \<times> 'm FIFO_cache) outcome" where
  "FIFO_get c req = cache_get_base FIFO_ops c req"

section \<open>The invariant and what the operations do to it\<close>

definition FIFO_inv :: "'m FIFO_cache \<Rightarrow> bool" where
  "FIFO_inv c \<longleftrightarrow> cache_wf (q_list c) c"

lemma FIFO_inv_init: "FIFO_inv (FIFO_init params)"
proof -
  have "cache_wf [] (FIFO_init params :: 'a FIFO_cache) = cache_wf [] (cache_struct_init params \<lparr>queue = []\<rparr> :: 'a FIFO_cache)"
    by (rule cache_wf_cong) (simp_all add: FIFO_init_def cache_struct_init_def)
  then show ?thesis
    by (simp add: FIFO_inv_def cache_wf_init) (simp add: FIFO_init_def cache_struct_init_def)
qed

lemma FIFO_insert_eq:
  "table c (r_obj_id req) = None \<Longrightarrow>
   FIFO_insert c req = Inr (Some (r_obj_id req), set_q (inserted c req) (r_obj_id req # q_list c))"
  by (simp add: FIFO_insert_def cache_insert_base_eq)

lemma FIFO_insert_inv:
  "FIFO_inv c \<Longrightarrow> table c (r_obj_id req) = None \<Longrightarrow> req_ok c req \<Longrightarrow>
   FIFO_inv (set_q (inserted c req) (r_obj_id req # q_list c))"
  by (simp add: FIFO_inv_def cache_wf_inserted)

lemma FIFO_evict_eq:
  assumes "FIFO_inv c" "q_list c = q @ [i]"
  shows "FIFO_evict c req = Inr (removed (set_q c q) i)" and "FIFO_inv (removed (set_q c q) i)"
proof -
  show "FIFO_evict c req = Inr (removed (set_q c q) i)"
    using evict_tail_eq [OF _ assms(2)] assms(1) by (simp add: FIFO_evict_def FIFO_inv_def)
  show "FIFO_inv (removed (set_q c q) i)"
    using evict_tail_wf [OF _ assms(2)] assms(1) by (simp add: FIFO_inv_def)
qed

lemma FIFO_remove_eq:
  assumes "FIFO_inv c" "i \<in> dom (table c)"
  shows "FIFO_remove c i = Inr (True, removed (set_q c (remove1 i (q_list c))) i)"
    and "FIFO_inv (removed (set_q c (remove1 i (q_list c))) i)"
  using assms cache_remove_obj_base_eq [of "q_list c" "set_q c (remove1 i (q_list c))" i]
    cache_wf_removed [of "q_list c" "set_q c (remove1 i (q_list c))" i]
  by (auto simp: FIFO_remove_def FIFO_inv_def hashtable_find_obj_id_def cache_wf_member domD)

lemma FIFO_ops_occupied: "op_get_occupied_byte FIFO_ops c = occupied_byte c"
  by (simp add: FIFO_ops_def cache_get_occupied_byte_default_def)

interpretation fifo: total_eviction_algorithm
  "FIFO_ops :: ('m::zero, FIFO_params) cache_ops" FIFO_inv "\<lambda>c. dom (table c)" req_ok
  "\<lambda>c req. nat (n_obj c)" admits_default "\<lambda>_ _. True" "\<lambda>_ _. True"
proof (unfold_locales, goal_cases)
  case (4 c n req)
  then show ?case by (rule admits_default_cong) simp_all
next
  case (5 c' c n req)
  then show ?case by (auto intro: req_ok_conf)
next
  case (8 c req)
  then show ?case
    using cache_find_base_law [of "q_list c" c req True]
    by (fastforce simp: FIFO_ops_def FIFO_find_def cache_get_occupied_byte_default_def FIFO_inv_def)
next
  case (9 c req)
  then show ?case
    using cache_can_insert_default_eq [of c req]
    by (auto simp: FIFO_ops_def cache_get_occupied_byte_default_def FIFO_inv_def)
next
  case (11 c req)
  then obtain q i where q: "q_list c = q @ [i]" and n: "n_obj c = int (length q) + 1"
    using cache_wf_nonempty [of "q_list c" c] by (auto simp: FIFO_inv_def)
  then show ?case
    using FIFO_evict_eq [OF 11(1) q] by (auto simp: FIFO_ops_def)
next
  case (12 c req)
  then have "table c (r_obj_id req) = None"
    by auto
  then show ?case
    using 12 FIFO_insert_inv [of c req] to_u32_le [OF req_ok_size [OF 12(2)]]
    by (auto simp: FIFO_ops_def FIFO_insert_eq cache_get_occupied_byte_default_def)
qed (auto simp: FIFO_ops_def FIFO_inv_def cache_get_occupied_byte_default_def req_ok_size
      cache_wf_md admits_default_def dom_empty_queue)

section \<open>Properties\<close>

text \<open>
  \<open>FIFO_get\<close> after a hit: the queue is as before. After an admitted miss: the new object stands in
  front of the longest prefix of the queue that leaves room for it.
\<close>

lemma FIFO_get_hit_eq:
  assumes "FIFO_inv c" "r_obj_id req \<in> dom (table c)"
  shows "\<exists>c'. FIFO_get c req = Some (Inr (True, c')) \<and> q_list c' = q_list c"
proof -
  obtain x where "table c (r_obj_id req) = Some x"
    using assms(2) by blast
  then show ?thesis
    by (simp add: FIFO_get_def cache_get_base_def FIFO_ops_def FIFO_find_def cache_find_base_def Let_def)
qed

lemma FIFO_get_contract:
  assumes "FIFO_inv c" "req_ok c req" "occupied_byte c \<le> cache_size c"
  shows "\<exists>c'. FIFO_get c req = Some (Inr (r_obj_id req \<in> dom (table c), c')) \<and>
     FIFO_inv c' \<and> occupied_byte c' \<le> cache_size c' \<and> cache_size c' = cache_size c \<and>
     n_req c' = n_req c + 1 \<and> dom (table c') \<subseteq> insert (r_obj_id req) (dom (table c)) \<and>
     (r_obj_id req \<in> dom (table c') \<longleftrightarrow> r_obj_id req \<in> dom (table c) \<or> admits_default c req) \<and>
     (r_obj_id req \<in> dom (table c) \<or> \<not> admits_default c req \<longrightarrow> dom (table c') = dom (table c))"
  using fifo.get_total [OF assms(1,2)] assms(3)
  unfolding fifo.served_def FIFO_get_def FIFO_ops_occupied by metis

lemma FIFO_get_order:
  assumes "FIFO_inv c" "r_obj_id req \<in> dom (table c) \<or> admits_default c req"
  shows "\<exists>c'. FIFO_get c req = Some (Inr (r_obj_id req \<in> dom (table c), c')) \<and>
     q_list c' = (if r_obj_id req \<in> dom (table c) then q_list c
       else r_obj_id req # fit_prefix (obj_bytes c) (cache_size c - r_obj_size req - obj_md_size c) (q_list c))"
proof (cases "r_obj_id req \<in> dom (table c)")
  case True
  then show ?thesis using FIFO_get_hit_eq [OF assms(1)] by simp
next
  case False
  then have n: "table c (r_obj_id req) = None"
    by auto
  have "\<exists>c'. cache_get_base FIFO_ops c req = Some (Inr (False, c')) \<and>
    q_list c' = r_obj_id req # fit_prefix (obj_bytes c) (cache_size c - r_obj_size req - obj_md_size c) (q_list c) \<and>
    (\<forall>i. i \<noteq> r_obj_id req \<longrightarrow> i \<in> set (q_list c') \<longrightarrow> table c' i = table c i) \<and>
    table c' (r_obj_id req) = Some (new_obj req) \<and> (admissioner c = None \<longrightarrow> admissioner c' = None)"
    by (rule queue_get_miss_eq)
      (use assms n in \<open>simp_all add: FIFO_ops_def FIFO_evict_def FIFO_find_def cache_find_base_def
        FIFO_insert_eq FIFO_inv_def cache_get_occupied_byte_default_def domIff\<close>)
  with False show ?thesis
    by (auto simp: FIFO_get_def)
qed

text \<open>
  C11: for every FIFO cache that satisfies the invariant and every request whose size the cache can account for,
  \<open>FIFO_get\<close> returns (its eviction loop ends and no step fails), reports a hit exactly when the
  object was cached, keeps the invariant and the capacity bound, and after a miss holds the object exactly
  when it was admitted. It is first in, first out: a hit leaves the queue as it is, and an admitted miss puts the new object
  at the head and keeps exactly the longest prefix of the old queue that fits beside it, so the
  objects evicted are the oldest ones and no more than needed.
\<close>

theorem FIFO_get_correct:
  assumes "FIFO_inv c" "req_ok c req" "occupied_byte c \<le> cache_size c"
  shows "\<exists>c'. FIFO_get c req = Some (Inr (r_obj_id req \<in> dom (table c), c')) \<and>
     FIFO_inv c' \<and> occupied_byte c' \<le> cache_size c' \<and> cache_size c' = cache_size c \<and> n_req c' = n_req c + 1 \<and>
     (r_obj_id req \<in> dom (table c') \<longleftrightarrow> r_obj_id req \<in> dom (table c) \<or> admits_default c req) \<and>
     (if r_obj_id req \<in> dom (table c) then q_list c' = q_list c \<and> dom (table c') = dom (table c)
      else if admits_default c req then q_list c' =
        r_obj_id req # fit_prefix (obj_bytes c) (cache_size c - r_obj_size req - obj_md_size c) (q_list c)
      else dom (table c') = dom (table c))"
proof -
  obtain c' where g: "FIFO_get c req = Some (Inr (r_obj_id req \<in> dom (table c), c'))"
     "FIFO_inv c'" "occupied_byte c' \<le> cache_size c'" "cache_size c' = cache_size c" "n_req c' = n_req c + 1"
     "r_obj_id req \<in> dom (table c') \<longleftrightarrow> r_obj_id req \<in> dom (table c) \<or> admits_default c req"
     "r_obj_id req \<in> dom (table c) \<or> \<not> admits_default c req \<longrightarrow> dom (table c') = dom (table c)"
    using FIFO_get_contract [OF assms] by blast
  moreover have "q_list c' = (if r_obj_id req \<in> dom (table c) then q_list c
       else r_obj_id req # fit_prefix (obj_bytes c) (cache_size c - r_obj_size req - obj_md_size c) (q_list c))" if "r_obj_id req \<in> dom (table c) \<or> admits_default c req"
    using FIFO_get_order [OF assms(1) that] g(1) by simp
  ultimately show ?thesis
    by (intro exI [of _ c']) (cases "r_obj_id req \<in> dom (table c)"; cases "admits_default c req"; simp)
qed

theorem FIFO_get_correct_witness:
  "\<exists>c'. FIFO_get (example_cache \<lparr>queue = [2, 1]\<rparr> :: nat FIFO_cache) (example_req 3 1) = Some (Inr (False, c')) \<and>
     FIFO_inv c' \<and> occupied_byte c' \<le> 2 \<and> 3 \<in> dom (table c') \<and> q_list c' = [3, 2]"
  using FIFO_get_correct [of "example_cache \<lparr>queue = [2, 1]\<rparr> :: nat FIFO_cache" "example_req 3 1"]
    example_cache_wf [of "\<lparr>queue = [2, 1]\<rparr>", where 'a = nat]
  by (auto simp: FIFO_inv_def example_cache_def req_ok_def admits_default_def obj_bytes_def to_u32_def)

text \<open>
  \<open>FIFO_remove\<close> reports whether the object was cached, removes exactly that object from the
  table and from the queue, and keeps the invariant, so the byte and object counts stay exact.
\<close>

lemma FIFO_remove_correct:
  assumes "FIFO_inv c"
  shows "\<exists>c'. FIFO_remove c i = Inr (i \<in> dom (table c), c') \<and> FIFO_inv c' \<and>
     table c' = (table c)(i := None) \<and> q_list c' = remove1 i (q_list c) \<and>
     occupied_byte c' = occupied_byte c - obj_bytes c i"
proof (cases "i \<in> dom (table c)")
  case True
  then show ?thesis
    using FIFO_remove_eq [OF assms True] by simp
next
  case False
  then have "i \<notin> set (q_list c)" "table c i = None"
    using assms by (auto simp: FIFO_inv_def cache_wf_def)
  then show ?thesis
    using assms by (simp add: FIFO_remove_def hashtable_find_obj_id_def remove1_idem obj_bytes_def fun_upd_idem domIff)
qed

end
