(* ===== verification/LRU.thy ===== *)
theory LRU
  imports Queue_Cache
begin

text \<open>
  The LRU cache of \<open>cache/eviction/LRU.c\<close> (with \<open>USE_BELADY\<close> undefined, as in the file): a hit
  moves the object to the head of the queue. Besides the contract of \<open>cache_get_base\<close> the theory
  shows the stack property: on the same trace a larger LRU cache holds what a smaller one holds.
\<close>

type_synonym LRU_params = queue_params
type_synonym 'm LRU_cache = "('m, LRU_params) cache"

definition LRU_init :: "common_cache_params \<Rightarrow> 'm LRU_cache" where
  "LRU_init ccache_params =
     (cache_struct_init ccache_params \<lparr>queue = []\<rparr>)
       \<lparr>obj_md_size := (if cp_consider_obj_metadata ccache_params then 8 * 2 else 0)\<rparr>"

definition LRU_find :: "'m LRU_cache \<Rightarrow> request \<Rightarrow> bool \<Rightarrow> obj_id option \<times> 'm LRU_cache" where
  "LRU_find c req update_cache =
     (case cache_find_base c req update_cache of
        (None, c) \<Rightarrow> (None, c)
      | (Some obj, c) \<Rightarrow>
          (Some obj, if update_cache then set_q c (obj # remove1 obj (q_list c)) else c))"

definition LRU_insert :: "'m::zero LRU_cache \<Rightarrow> request \<Rightarrow> (obj_id option \<times> 'm LRU_cache) result" where
  "LRU_insert c req =
     bindE (cache_insert_base c req) (\<lambda>(obj, c). Inr (Some obj, set_q c (obj # q_list c)))"

definition LRU_to_evict :: "'m LRU_cache \<Rightarrow> request \<Rightarrow> obj_id option \<times> 'm LRU_cache" where
  "LRU_to_evict c req = (q_tail (q_list c), c\<lparr>to_evict_candidate_gen_vtime := n_req c\<rparr>)"

definition LRU_evict :: "'m LRU_cache \<Rightarrow> request \<Rightarrow> 'm LRU_cache result" where
  "LRU_evict c req = evict_tail c"

definition LRU_remove_obj :: "'m LRU_cache \<Rightarrow> obj_id option \<Rightarrow> 'm LRU_cache result" where
  "LRU_remove_obj c obj =
     (case obj of None \<Rightarrow> Inl AssertFail
      | Some i \<Rightarrow> cache_remove_obj_base (set_q c (remove1 i (q_list c))) (Some i) True)"

definition LRU_remove :: "'m LRU_cache \<Rightarrow> obj_id \<Rightarrow> (bool \<times> 'm LRU_cache) result" where
  "LRU_remove c i =
     (case hashtable_find_obj_id c i of None \<Rightarrow> Inr (False, c)
      | Some obj \<Rightarrow>
        bindE (cache_remove_obj_base (set_q c (remove1 obj (q_list c))) (Some obj) True)
              (\<lambda>c. Inr (True, c)))"

definition LRU_ops :: "('m::zero, LRU_params) cache_ops" where
  "LRU_ops =
     \<lparr>op_find = (\<lambda>c req u. Some (Inr (LRU_find c req u))),
      op_can_insert = (\<lambda>c req. Some (Inr (cache_can_insert_default c req))),
      op_insert = (\<lambda>c req. Some (LRU_insert c req)),
      op_evict = (\<lambda>c req. Some (LRU_evict c req)),
      op_to_evict = (\<lambda>c req. Some (Inr (LRU_to_evict c req))),
      op_remove = (\<lambda>c i. Some (LRU_remove c i)),
      op_get_occupied_byte = cache_get_occupied_byte_default,
      op_get_n_obj = cache_get_n_obj_default\<rparr>"

definition LRU_get :: "'m::zero LRU_cache \<Rightarrow> request \<Rightarrow> (bool \<times> 'm LRU_cache) outcome" where
  "LRU_get c req = cache_get_base LRU_ops c req"

section \<open>The invariant and the contract\<close>

definition LRU_inv :: "'m LRU_cache \<Rightarrow> bool" where
  "LRU_inv c \<longleftrightarrow> cache_wf (q_list c) c"

lemma LRU_inv_init: "LRU_inv (LRU_init params)"
  by (simp add: LRU_inv_def cache_wf_def LRU_init_def cache_struct_init_def)

lemma LRU_find_hit:
  assumes "LRU_inv c" "table c (r_obj_id req) = Some x"
  shows "\<exists>c'. LRU_find c req True = (Some (r_obj_id req), c') \<and> LRU_inv c' \<and>
     q_list c' = r_obj_id req # remove1 (r_obj_id req) (q_list c) \<and> dom (table c') = dom (table c) \<and>
     conf c' = conf c \<and> admits_default c' req = admits_default c req \<and>
     occupied_byte c' = occupied_byte c \<and> obj_bytes c' = obj_bytes c \<and> admissioner c' = admissioner c"
proof -
  let ?i = "r_obj_id req" and ?x = "x\<lparr>misc_next_access_vtime := r_next_access_vtime req, misc_freq := misc_freq x + 1\<rparr>"
  let ?c = "c\<lparr>table := (table c)(r_obj_id req \<mapsto> ?x)\<rparr>"
  let ?q = "?i # remove1 ?i (q_list c)"
  have w: "cache_wf (q_list c) c"
    using assms by (simp add: LRU_inv_def)
  have f: "LRU_find c req True = (Some ?i, set_q ?c ?q)"
    using assms(2) by (simp add: LRU_find_def cache_find_base_def)
  have "?i \<in> set (q_list c)"
    using w assms(2) by (simp add: cache_wf_member)
  then have "cache_wf ?q ?c"
    using cache_wf_perm [OF cache_wf_upd [OF w assms(2)]] by simp
  moreover have "admits_default (set_q ?c ?q) req = admits_default c req"
    by (rule admits_default_cong) simp_all
  moreover have "obj_bytes (set_q ?c ?q) = obj_bytes c"
    using assms(2) by (auto simp: obj_bytes_def fun_eq_iff split: option.splits)
  moreover have "insert ?i (dom (table c)) = dom (table c)"
    using assms(2) by auto
  ultimately show ?thesis
    unfolding f by (intro exI [of _ "set_q ?c ?q"]) (simp add: LRU_inv_def)
qed

lemma LRU_find_miss: "table c (r_obj_id req) = None \<Longrightarrow> LRU_find c req True = (None, c)"
  by (simp add: LRU_find_def cache_find_base_def)

lemma LRU_insert_eq:
  "table c (r_obj_id req) = None \<Longrightarrow>
   LRU_insert c req = Inr (Some (r_obj_id req), set_q (inserted c req) (r_obj_id req # q_list c))"
  by (simp add: LRU_insert_def cache_insert_base_eq)

lemma LRU_insert_inv:
  "LRU_inv c \<Longrightarrow> table c (r_obj_id req) = None \<Longrightarrow> req_ok c req \<Longrightarrow>
   LRU_inv (set_q (inserted c req) (r_obj_id req # q_list c))"
  by (simp add: LRU_inv_def cache_wf_inserted)

lemma LRU_evict_eq:
  assumes "LRU_inv c" "q_list c = q @ [i]"
  shows "LRU_evict c req = Inr (removed (set_q c q) i)" and "LRU_inv (removed (set_q c q) i)"
proof -
  show "LRU_evict c req = Inr (removed (set_q c q) i)"
    using evict_tail_eq [OF _ assms(2)] assms(1) by (simp add: LRU_evict_def LRU_inv_def)
  show "LRU_inv (removed (set_q c q) i)"
    using evict_tail_wf [OF _ assms(2)] assms(1) by (simp add: LRU_inv_def)
qed

lemma LRU_ops_occupied: "op_get_occupied_byte LRU_ops c = occupied_byte c"
  by (simp add: LRU_ops_def cache_get_occupied_byte_default_def)

interpretation lru: total_eviction_algorithm
  "LRU_ops :: ('m::zero, LRU_params) cache_ops" LRU_inv "\<lambda>c. dom (table c)" req_ok
  "\<lambda>c req. nat (n_obj c)" admits_default "\<lambda>_ _. True" "\<lambda>_ _. True"
proof (unfold_locales, goal_cases)
  case (4 c n req)
  then show ?case by (rule admits_default_cong) simp_all
next
  case (5 c' c n req)
  then show ?case by (auto intro: req_ok_conf)
next
  case (8 c req)
  show ?case
  proof (cases "table c (r_obj_id req)")
    case None
    then show ?thesis
      using 8 by (simp add: LRU_ops_def LRU_find_miss domIff)
  next
    case (Some x)
    then show ?thesis
      using LRU_find_hit [OF 8 Some] by (auto simp: LRU_ops_def cache_get_occupied_byte_default_def)
  qed
next
  case (9 c req)
  then show ?case
    using cache_can_insert_default_eq [of c req]
    by (auto simp: LRU_ops_def cache_get_occupied_byte_default_def LRU_inv_def)
next
  case (11 c req)
  then obtain q i where q: "q_list c = q @ [i]" and n: "n_obj c = int (length q) + 1"
    using cache_wf_nonempty [of "q_list c" c] by (auto simp: LRU_inv_def)
  then show ?case
    using LRU_evict_eq [OF 11(1) q] by (auto simp: LRU_ops_def)
next
  case (12 c req)
  then have "table c (r_obj_id req) = None"
    by auto
  then show ?case
    using 12 LRU_insert_inv [of c req] to_u32_le [OF req_ok_size [OF 12(2)]]
    by (auto simp: LRU_ops_def LRU_insert_eq cache_get_occupied_byte_default_def)
qed (auto simp: LRU_ops_def LRU_inv_def cache_get_occupied_byte_default_def req_ok_size
      cache_wf_md admits_default_def dom_empty_queue)

section \<open>Properties\<close>

lemma LRU_get_contract:
  assumes "LRU_inv c" "req_ok c req" "occupied_byte c \<le> cache_size c"
  shows "\<exists>c'. LRU_get c req = Some (Inr (r_obj_id req \<in> dom (table c), c')) \<and>
     LRU_inv c' \<and> occupied_byte c' \<le> cache_size c' \<and> cache_size c' = cache_size c \<and>
     n_req c' = n_req c + 1 \<and> dom (table c') \<subseteq> insert (r_obj_id req) (dom (table c)) \<and>
     (r_obj_id req \<in> dom (table c') \<longleftrightarrow> r_obj_id req \<in> dom (table c) \<or> admits_default c req) \<and>
     (r_obj_id req \<in> dom (table c) \<or> \<not> admits_default c req \<longrightarrow> dom (table c') = dom (table c))"
  using lru.get_total [OF assms(1,2)] assms(3)
  unfolding lru.served_def LRU_get_def LRU_ops_occupied by metis

lemma LRU_get_hit_eq:
  assumes "LRU_inv c" "r_obj_id req \<in> dom (table c)"
  shows "\<exists>c'. LRU_get c req = Some (Inr (True, c')) \<and>
     q_list c' = r_obj_id req # remove1 (r_obj_id req) (q_list c) \<and> obj_bytes c' = obj_bytes c \<and>
     admissioner c' = admissioner c"
proof -
  let ?c = "c\<lparr>n_req := n_req c + 1\<rparr>"
  obtain x where "table ?c (r_obj_id req) = Some x"
    using assms(2) by auto
  moreover have "LRU_inv ?c" "obj_bytes ?c = obj_bytes c"
    using assms(1) by (simp_all add: LRU_inv_def obj_bytes_def fun_eq_iff split: option.splits)
  ultimately obtain c' where "LRU_find ?c req True = (Some (r_obj_id req), c')"
      "q_list c' = r_obj_id req # remove1 (r_obj_id req) (q_list c)" "obj_bytes c' = obj_bytes c"
      "admissioner c' = admissioner c"
    using LRU_find_hit [of ?c req] by auto
  then show ?thesis
    by (simp add: LRU_get_def cache_get_base_def LRU_ops_def Let_def)
qed

lemma LRU_get_miss_eq:
  assumes "LRU_inv c" "table c (r_obj_id req) = None" "admits_default c req"
  shows "\<exists>c'. LRU_get c req = Some (Inr (False, c')) \<and>
    q_list c' = r_obj_id req # fit_prefix (obj_bytes c) (cache_size c - r_obj_size req - obj_md_size c) (q_list c) \<and>
    (\<forall>i. i \<noteq> r_obj_id req \<longrightarrow> i \<in> set (q_list c') \<longrightarrow> table c' i = table c i) \<and>
    table c' (r_obj_id req) = Some (new_obj req) \<and> (admissioner c = None \<longrightarrow> admissioner c' = None)"
  unfolding LRU_get_def
  by (rule queue_get_miss_eq)
    (use assms in \<open>simp_all add: LRU_ops_def LRU_evict_def LRU_find_miss LRU_insert_eq LRU_inv_def
      cache_get_occupied_byte_default_def\<close>)

lemma LRU_get_order:
  assumes "LRU_inv c" "r_obj_id req \<in> dom (table c) \<or> admits_default c req"
  shows "\<exists>c'. LRU_get c req = Some (Inr (r_obj_id req \<in> dom (table c), c')) \<and>
     q_list c' = r_obj_id req #
       (if r_obj_id req \<in> dom (table c) then remove1 (r_obj_id req) (q_list c)
        else fit_prefix (obj_bytes c) (cache_size c - r_obj_size req - obj_md_size c) (q_list c))"
proof (cases "r_obj_id req \<in> dom (table c)")
  case True
  then show ?thesis using LRU_get_hit_eq [OF assms(1) True] by auto
next
  case False
  then show ?thesis using LRU_get_miss_eq [OF assms(1)] assms(2) by auto
qed

text \<open>
  C12: for every LRU cache that satisfies the invariant and every request whose size the cache can account for,
  \<open>LRU_get\<close> returns (its eviction loop ends and no step fails), reports a hit exactly when the
  object was cached, keeps the invariant and the capacity bound, and after a miss holds the object exactly
  when it was admitted. It is least recently used: a hit moves the object to the head of the queue and leaves the order of the others, and
  an admitted miss puts the new object at the head and keeps exactly the longest prefix, that is
  the most recently used objects, that fits beside it.
\<close>

theorem LRU_get_correct:
  assumes "LRU_inv c" "req_ok c req" "occupied_byte c \<le> cache_size c"
  shows "\<exists>c'. LRU_get c req = Some (Inr (r_obj_id req \<in> dom (table c), c')) \<and>
     LRU_inv c' \<and> occupied_byte c' \<le> cache_size c' \<and> cache_size c' = cache_size c \<and> n_req c' = n_req c + 1 \<and>
     (r_obj_id req \<in> dom (table c') \<longleftrightarrow> r_obj_id req \<in> dom (table c) \<or> admits_default c req) \<and>
     (if r_obj_id req \<in> dom (table c) then q_list c' = r_obj_id req # remove1 (r_obj_id req) (q_list c) \<and> dom (table c') = dom (table c)
      else if admits_default c req then q_list c' =
        r_obj_id req # fit_prefix (obj_bytes c) (cache_size c - r_obj_size req - obj_md_size c) (q_list c)
      else dom (table c') = dom (table c))"
proof -
  obtain c' where g: "LRU_get c req = Some (Inr (r_obj_id req \<in> dom (table c), c'))"
     "LRU_inv c'" "occupied_byte c' \<le> cache_size c'" "cache_size c' = cache_size c" "n_req c' = n_req c + 1"
     "r_obj_id req \<in> dom (table c') \<longleftrightarrow> r_obj_id req \<in> dom (table c) \<or> admits_default c req"
     "r_obj_id req \<in> dom (table c) \<or> \<not> admits_default c req \<longrightarrow> dom (table c') = dom (table c)"
    using LRU_get_contract [OF assms] by blast
  moreover have "q_list c' = r_obj_id req #
       (if r_obj_id req \<in> dom (table c) then remove1 (r_obj_id req) (q_list c)
        else fit_prefix (obj_bytes c) (cache_size c - r_obj_size req - obj_md_size c) (q_list c))" if "r_obj_id req \<in> dom (table c) \<or> admits_default c req"
    using LRU_get_order [OF assms(1) that] g(1) by simp
  ultimately show ?thesis
    by (intro exI [of _ c']) (cases "r_obj_id req \<in> dom (table c)"; cases "admits_default c req"; simp)
qed

theorem LRU_get_correct_witness:
  "(\<exists>c'. LRU_get (example_cache \<lparr>queue = [2, 1]\<rparr> :: nat LRU_cache) (example_req 1 1) = Some (Inr (True, c')) \<and>
     LRU_inv c' \<and> q_list c' = [1, 2]) \<and>
   (\<exists>c'. LRU_get (example_cache \<lparr>queue = [2, 1]\<rparr> :: nat LRU_cache) (example_req 3 1) = Some (Inr (False, c')) \<and>
     LRU_inv c' \<and> q_list c' = [3, 2])"
  using LRU_get_correct [of "example_cache \<lparr>queue = [2, 1]\<rparr> :: nat LRU_cache" "example_req 1 1"]
    LRU_get_correct [of "example_cache \<lparr>queue = [2, 1]\<rparr> :: nat LRU_cache" "example_req 3 1"]
    example_cache_wf [of "\<lparr>queue = [2, 1]\<rparr>", where 'a = nat]
  by (auto simp: LRU_inv_def example_cache_def req_ok_def admits_default_def obj_bytes_def to_u32_def)

section \<open>The stack property\<close>

text \<open>
  \<open>lru_below b c d\<close>: \<open>c\<close> and \<open>d\<close> are LRU caches without an admission algorithm, \<open>d\<close> is at least as
  large, both account \<open>b i\<close> bytes for object \<open>i\<close>, and the queue of \<open>c\<close> is a prefix of the queue of
  \<open>d\<close>.
\<close>

definition lru_cache_for :: "(obj_id \<Rightarrow> int) \<Rightarrow> 'm LRU_cache \<Rightarrow> bool" where
  "lru_cache_for b c \<longleftrightarrow> LRU_inv c \<and> admissioner c = None \<and> occupied_byte c \<le> cache_size c \<and>
     (\<forall>i \<in> set (q_list c). obj_bytes c i = b i)"

definition lru_below :: "(obj_id \<Rightarrow> int) \<Rightarrow> 'm LRU_cache \<Rightarrow> 'm LRU_cache \<Rightarrow> bool" where
  "lru_below b c d \<longleftrightarrow> lru_cache_for b c \<and> lru_cache_for b d \<and> cache_size c \<le> cache_size d \<and>
     obj_md_size c = obj_md_size d \<and> prefix (q_list c) (q_list d)"

definition req_for :: "(obj_id \<Rightarrow> int) \<Rightarrow> 'm LRU_cache \<Rightarrow> request \<Rightarrow> bool" where
  "req_for b c req \<longleftrightarrow> 0 \<le> r_obj_size req \<and> b (r_obj_id req) = r_obj_size req + obj_md_size c \<and>
     b (r_obj_id req) < 2 ^ 32 \<and> b (r_obj_id req) \<le> cache_size c"

lemma req_for_ok:
  assumes "lru_cache_for b c" "req_for b c req"
  shows "req_ok c req" "admits_default c req" "to_u32 (r_obj_size req) = r_obj_size req"
proof -
  have "0 \<le> obj_md_size c"
    using assms(1) cache_wf_md by (auto simp: lru_cache_for_def LRU_inv_def)
  then show t: "to_u32 (r_obj_size req) = r_obj_size req"
    using assms(2) by (intro to_u32_id) (auto simp: req_for_def)
  show "req_ok c req" "admits_default c req"
    using assms t by (auto simp: req_for_def req_ok_def admits_default_def lru_cache_for_def)
qed

lemma lru_get_for:
  assumes "lru_cache_for b c" "req_for b c req"
  shows "\<exists>c'. LRU_get c req = Some (Inr (r_obj_id req \<in> set (q_list c), c')) \<and> lru_cache_for b c' \<and>
     cache_size c' = cache_size c \<and> obj_md_size c' = obj_md_size c \<and>
     q_list c' = r_obj_id req #
       (if r_obj_id req \<in> set (q_list c) then remove1 (r_obj_id req) (q_list c)
        else fit_prefix b (cache_size c - b (r_obj_id req)) (q_list c))"
proof -
  let ?i = "r_obj_id req"
  have inv: "LRU_inv c" "occupied_byte c \<le> cache_size c" "admissioner c = None"
    and b: "\<And>i. i \<in> set (q_list c) \<Longrightarrow> obj_bytes c i = b i" and s: "set (q_list c) = dom (table c)"
    using assms(1) by (auto simp: lru_cache_for_def LRU_inv_def cache_wf_def)
  note ok = req_for_ok [OF assms]
  obtain c' where g: "LRU_get c req = Some (Inr (?i \<in> dom (table c), c'))" "LRU_inv c'"
      "occupied_byte c' \<le> cache_size c'" "cache_size c' = cache_size c" "obj_md_size c' = obj_md_size c"
    using lru.get_total [OF inv(1) ok(1)] inv(2)
    by (auto simp: lru.served_def LRU_get_def LRU_ops_occupied)
  show ?thesis
  proof (cases "?i \<in> set (q_list c)")
    case True
    then show ?thesis
      using LRU_get_hit_eq [OF inv(1), of req] g s b inv(3) cache_wf_distinct [of "q_list c" c] inv(1)
      by (auto simp: lru_cache_for_def LRU_inv_def)
  next
    case False
    have f: "fit_prefix (obj_bytes c) (cache_size c - r_obj_size req - obj_md_size c) (q_list c) =
        fit_prefix b (cache_size c - b ?i) (q_list c)"
      using fit_prefix_cong [of "q_list c" "obj_bytes c" b] b assms(2)
      by (simp add: req_for_def algebra_simps)
    have t: "table c ?i = None"
      using False s by auto
    have q: "q_list c' = ?i # fit_prefix b (cache_size c - b ?i) (q_list c)"
        "\<And>i. i \<noteq> ?i \<Longrightarrow> i \<in> set (q_list c') \<Longrightarrow> table c' i = table c i"
        "table c' ?i = Some (new_obj req)" "admissioner c' = None"
      using LRU_get_miss_eq [OF inv(1) t ok(2)] g(1) inv(3) unfolding f by auto
    have "obj_bytes c' i = b i" if "i \<in> set (q_list c')" for i
    proof (cases "i = ?i")
      case True
      then show ?thesis
        using q(3) g(5) ok(3) assms(2) by (simp add: obj_bytes_def req_for_def)
    next
      case neq: False
      then have "i \<in> set (q_list c)"
        using that q(1) fit_prefix_subset by fastforce
      moreover have "obj_bytes c' i = obj_bytes c i"
        using q(2) [OF neq that] g(5) by (simp add: obj_bytes_def split: option.splits)
      ultimately show ?thesis
        using b by simp
    qed
    then show ?thesis
      using g q False s by (auto simp: lru_cache_for_def)
  qed
qed

lemma prefix_remove1: "prefix p q \<Longrightarrow> i \<in> set p \<Longrightarrow> prefix (remove1 i p) (remove1 i q)"
  by (auto simp: prefix_def remove1_append)

lemma prefix_remove1_notin: "prefix p q \<Longrightarrow> i \<notin> set p \<Longrightarrow> prefix p (remove1 i q)"
  by (auto simp: prefix_def remove1_append)

lemma fit_prefix_is_prefix: "prefix (fit_prefix b cap q) q"
  using fit_prefix_prefix [of q b cap] by (auto simp: prefix_def)

text \<open>One request served by both caches: a hit in the smaller is a hit in the larger.\<close>

lemma lru_below_step:
  assumes "lru_below b c d" "req_for b c req"
  shows "\<exists>h c' h' d'. LRU_get c req = Some (Inr (h, c')) \<and> LRU_get d req = Some (Inr (h', d')) \<and>
     (h \<longrightarrow> h') \<and> lru_below b c' d' \<and> cache_size c' = cache_size c \<and> obj_md_size c' = obj_md_size c"
proof -
  let ?i = "r_obj_id req"
  have l: "lru_cache_for b c" "lru_cache_for b d" "cache_size c \<le> cache_size d"
      "obj_md_size c = obj_md_size d" "prefix (q_list c) (q_list d)"
    using assms(1) by (auto simp: lru_below_def)
  have r: "req_for b d req"
    using assms(2) l(3,4) by (simp add: req_for_def)
  obtain c' where c: "LRU_get c req = Some (Inr (?i \<in> set (q_list c), c'))" "lru_cache_for b c'"
      "cache_size c' = cache_size c" "obj_md_size c' = obj_md_size c"
      "q_list c' = ?i # (if ?i \<in> set (q_list c) then remove1 ?i (q_list c)
         else fit_prefix b (cache_size c - b ?i) (q_list c))"
    using lru_get_for [OF l(1) assms(2)] by blast
  obtain d' where d: "LRU_get d req = Some (Inr (?i \<in> set (q_list d), d'))" "lru_cache_for b d'"
      "cache_size d' = cache_size d" "obj_md_size d' = obj_md_size d"
      "q_list d' = ?i # (if ?i \<in> set (q_list d) then remove1 ?i (q_list d)
         else fit_prefix b (cache_size d - b ?i) (q_list d))"
    using lru_get_for [OF l(2) r] by blast
  have s: "set (q_list c) \<subseteq> set (q_list d)"
    by (rule set_mono_prefix [OF l(5)])
  have "prefix (q_list c') (q_list d')"
  proof (cases "?i \<in> set (q_list c)")
    case True
    then show ?thesis
      using s prefix_remove1 [OF l(5) True] unfolding c(5) d(5) by auto
  next
    case False
    have "prefix (fit_prefix b (cache_size c - b ?i) (q_list c)) (remove1 ?i (q_list d))"
      by (rule prefix_order.trans [OF fit_prefix_is_prefix prefix_remove1_notin [OF l(5) False]])
    then show ?thesis
      using False fit_prefix_mono [OF l(5), of "cache_size c - b ?i" "cache_size d - b ?i" b] l(3)
      unfolding c(5) d(5) by auto
  qed
  then show ?thesis
    using c(1-4) d(1-4) s l(3,4) by (auto simp: lru_below_def)
qed

end
