(* ===== verification/S3FIFO.thy ===== *)
theory S3FIFO
  imports FIFO
begin

text \<open>
  The S3FIFO cache of \<open>cache/eviction/S3FIFO.c\<close>: a small FIFO cache for new objects, a main FIFO cache in
  which an object that was hit is reinserted with a lower frequency, and an optional ghost cache that
  remembers what left the small one. The counters for \<open>TRACK_EVICTION_V_AGE\<close> and \<open>TRACK_DEMOTION\<close> are off.
\<close>

section \<open>Model\<close>

text \<open>The metadata of an object is the field \<open>freq\<close> of \<open>S3FIFO_obj_metadata_t\<close>.\<close>

record S3FIFO_params =
  s3_fifo :: "int FIFO_cache"
  fifo_ghost :: "int FIFO_cache option"
  main_cache :: "int FIFO_cache"
  s3_hit_on_ghost :: bool
  n_obj_admit_to_fifo :: int
  n_obj_admit_to_main :: int
  n_obj_move_to_main :: int
  n_byte_admit_to_fifo :: int
  n_byte_admit_to_main :: int
  n_byte_move_to_main :: int
  move_to_main_threshold :: int
  s3_req_local :: request

type_synonym S3FIFO_cache = "(int, S3FIFO_params) cache"

text \<open>
  \<open>fifo_cache_size\<close> and \<open>fifo_ghost_cache_size\<close> are the products of the size ratios with the cache size,
  converted to \<open>int64_t\<close>; the threshold comes from the parameter string.
\<close>

definition S3FIFO_init :: "common_cache_params \<Rightarrow> int \<Rightarrow> int \<Rightarrow> int \<Rightarrow> S3FIFO_cache" where
  "S3FIFO_init ccache_params fifo_cache_size fifo_ghost_cache_size threshold =
     (cache_struct_init ccache_params
        \<lparr>s3_fifo = FIFO_init (ccache_params\<lparr>cp_cache_size := fifo_cache_size\<rparr>),
         fifo_ghost = (if fifo_ghost_cache_size > 0
           then Some (FIFO_init (ccache_params\<lparr>cp_cache_size := fifo_ghost_cache_size\<rparr>)) else None),
         main_cache = FIFO_init (ccache_params\<lparr>cp_cache_size := cp_cache_size ccache_params - fifo_cache_size\<rparr>),
         s3_hit_on_ghost = False,
         n_obj_admit_to_fifo = 0, n_obj_admit_to_main = 0, n_obj_move_to_main = 0,
         n_byte_admit_to_fifo = 0, n_byte_admit_to_main = 0, n_byte_move_to_main = 0,
         move_to_main_threshold = threshold, s3_req_local = new_request\<rparr>)
       \<lparr>obj_md_size := 0\<rparr>"

text \<open>\<open>obj->S3FIFO.freq += 1\<close>, and the assignments to the fields of a new object.\<close>

definition bump :: "int FIFO_cache \<Rightarrow> obj_id option \<Rightarrow> int FIFO_cache result" where
  "bump c obj = upd_obj c obj (\<lambda>x. x\<lparr>md := md x + 1\<rparr>)"

definition S3FIFO_find :: "S3FIFO_params \<Rightarrow> request \<Rightarrow> bool \<Rightarrow> (obj_id option \<times> S3FIFO_params) result" where
  "S3FIFO_find P req update_cache =
     (if \<not> update_cache then
        Inr (case fst (FIFO_find (s3_fifo P) req False) of Some i \<Rightarrow> Some i
             | None \<Rightarrow> fst (FIFO_find (main_cache P) req False), P)
      else
        let P = P\<lparr>s3_hit_on_ghost := False\<rparr> in
        case FIFO_find (s3_fifo P) req True of
          (Some i, f) \<Rightarrow> bindE (bump f (Some i)) (\<lambda>f. Inr (Some i, P\<lparr>s3_fifo := f\<rparr>))
        | (None, f) \<Rightarrow>
          bindE
            (case fifo_ghost P of None \<Rightarrow> Inr P
             | Some g \<Rightarrow>
               bindE (FIFO_remove g (r_obj_id req)) (\<lambda>(r, g).
               Inr (P\<lparr>fifo_ghost := Some g, s3_hit_on_ghost := (if r then True else s3_hit_on_ghost P)\<rparr>)))
            (\<lambda>P.
              case FIFO_find (main_cache P) req True of
                (Some i, m) \<Rightarrow> bindE (bump m (Some i)) (\<lambda>m. Inr (Some i, P\<lparr>main_cache := m\<rparr>))
              | (None, m) \<Rightarrow> Inr (None, P)))"

definition S3FIFO_insert :: "S3FIFO_params \<Rightarrow> request \<Rightarrow> (obj_id option \<times> S3FIFO_params) result" where
  "S3FIFO_insert P req =
     (if s3_hit_on_ghost P then
        bindE (FIFO_insert (main_cache P) req) (\<lambda>(obj, m).
        bindE (upd_obj m obj (\<lambda>x. x\<lparr>md := 0\<rparr>)) (\<lambda>m.
        Inr (obj, P\<lparr>s3_hit_on_ghost := False, n_obj_admit_to_main := n_obj_admit_to_main P + 1,
                    n_byte_admit_to_main := n_byte_admit_to_main P + r_obj_size req, main_cache := m\<rparr>)))
      else if r_obj_size req \<ge> cache_size (s3_fifo P) then Inr (None, P)
      else
        bindE (FIFO_insert (s3_fifo P) req) (\<lambda>(obj, f).
        bindE (upd_obj f obj (\<lambda>x. x\<lparr>md := 0\<rparr>)) (\<lambda>f.
        Inr (obj, P\<lparr>n_obj_admit_to_fifo := n_obj_admit_to_fifo P + 1,
                    n_byte_admit_to_fifo := n_byte_admit_to_fifo P + r_obj_size req, s3_fifo := f\<rparr>))))"

definition S3FIFO_to_evict :: "S3FIFO_params \<Rightarrow> request \<Rightarrow> (obj_id option \<times> S3FIFO_params) result" where
  "S3FIFO_to_evict P req = Inl AssertFail"

text \<open>One round of the loop of \<open>S3FIFO_evict_fifo\<close>; the flag is \<open>has_evicted\<close>.\<close>

definition evict_fifo_round :: "S3FIFO_params \<Rightarrow> request \<Rightarrow> (bool \<times> S3FIFO_params) outcome" where
  "evict_fifo_round P req =
     bindO (Some (deref (s3_fifo P) (FIFO_to_evict (s3_fifo P) req))) (\<lambda>x.
     let P = P\<lparr>s3_req_local := copy_cache_obj_to_request (s3_req_local P) x\<rparr> in
     bindO
       (if md x \<ge> move_to_main_threshold P then
          Some (bindE (FIFO_insert (main_cache P) (s3_req_local P)) (\<lambda>(obj, m).
                bindE (upd_obj m obj (\<lambda>y. y\<lparr>misc_freq := misc_freq x\<rparr>)) (\<lambda>m.
                Inr (False, P\<lparr>n_obj_move_to_main := n_obj_move_to_main P + 1,
                              n_byte_move_to_main := n_byte_move_to_main P + obj_size x, main_cache := m\<rparr>))))
        else
          case fifo_ghost P of None \<Rightarrow> Some (Inr (True, P))
          | Some g \<Rightarrow> bindO (FIFO_get g (s3_req_local P)) (\<lambda>(_, g). Some (Inr (True, P\<lparr>fifo_ghost := Some g\<rparr>))))
       (\<lambda>(has_evicted, P).
         Some (bindE (FIFO_remove (s3_fifo P) (r_obj_id (s3_req_local P))) (\<lambda>(removed, f).
               if removed then Inr (has_evicted, P\<lparr>s3_fifo := f\<rparr>) else Inl AssertFail))))"

partial_function (option) S3FIFO_evict_fifo :: "S3FIFO_params \<Rightarrow> request \<Rightarrow> S3FIFO_params outcome" where
  "S3FIFO_evict_fifo P req =
     (if cache_get_occupied_byte_default (s3_fifo P) > 0 then
        (case evict_fifo_round P req of None \<Rightarrow> None
         | Some (Inl e) \<Rightarrow> Some (Inl e)
         | Some (Inr (has_evicted, P)) \<Rightarrow> if has_evicted then Some (Inr P) else S3FIFO_evict_fifo P req)
      else Some (Inr P))"

text \<open>One round of the loop of \<open>S3FIFO_evict_main\<close>.\<close>

definition evict_main_round :: "S3FIFO_params \<Rightarrow> request \<Rightarrow> (bool \<times> S3FIFO_params) result" where
  "evict_main_round P req =
     bindE (deref (main_cache P) (FIFO_to_evict (main_cache P) req)) (\<lambda>x.
     let freq = md x; P = P\<lparr>s3_req_local := copy_cache_obj_to_request (s3_req_local P) x\<rparr> in
     if freq \<ge> 1 then
       bindE (FIFO_remove (main_cache P) (obj_id x)) (\<lambda>(_, m).
       bindE (FIFO_insert m (s3_req_local P)) (\<lambda>(obj, m).
       bindE (upd_obj m obj (\<lambda>y. y\<lparr>md := min freq 3 - 1, misc_freq := freq\<rparr>)) (\<lambda>m.
       Inr (False, P\<lparr>main_cache := m\<rparr>))))
     else
       bindE (FIFO_remove (main_cache P) (obj_id x)) (\<lambda>(removed, m).
       if removed then Inr (True, P\<lparr>main_cache := m\<rparr>) else Inl Abort))"

partial_function (option) S3FIFO_evict_main :: "S3FIFO_params \<Rightarrow> request \<Rightarrow> S3FIFO_params outcome" where
  "S3FIFO_evict_main P req =
     (if cache_get_occupied_byte_default (main_cache P) > 0 then
        (case evict_main_round P req of Inl e \<Rightarrow> Some (Inl e)
         | Inr (has_evicted, P) \<Rightarrow> if has_evicted then Some (Inr P) else S3FIFO_evict_main P req)
      else Some (Inr P))"

definition S3FIFO_evict :: "S3FIFO_params \<Rightarrow> request \<Rightarrow> S3FIFO_params outcome" where
  "S3FIFO_evict P req =
     (if cache_get_occupied_byte_default (main_cache P) > cache_size (main_cache P) \<or>
         cache_get_occupied_byte_default (s3_fifo P) = 0
      then S3FIFO_evict_main P req else S3FIFO_evict_fifo P req)"

definition S3FIFO_remove :: "S3FIFO_params \<Rightarrow> obj_id \<Rightarrow> (bool \<times> S3FIFO_params) result" where
  "S3FIFO_remove P i =
     bindE (FIFO_remove (s3_fifo P) i) (\<lambda>(r, f).
     let P = P\<lparr>s3_fifo := f\<rparr> in if r then Inr (True, P) else
     bindE (case fifo_ghost P of None \<Rightarrow> Inr (False, P)
            | Some g \<Rightarrow> bindE (FIFO_remove g i) (\<lambda>(r, g). Inr (r, P\<lparr>fifo_ghost := Some g\<rparr>))) (\<lambda>(r, P).
     if r then Inr (True, P) else
     bindE (FIFO_remove (main_cache P) i) (\<lambda>(r, m). Inr (r, P\<lparr>main_cache := m\<rparr>))))"

definition S3FIFO_get_occupied_byte :: "S3FIFO_params \<Rightarrow> int" where
  "S3FIFO_get_occupied_byte P =
     cache_get_occupied_byte_default (s3_fifo P) + cache_get_occupied_byte_default (main_cache P)"

definition S3FIFO_get_n_obj :: "S3FIFO_params \<Rightarrow> int" where
  "S3FIFO_get_n_obj P = cache_get_n_obj_default (s3_fifo P) + cache_get_n_obj_default (main_cache P)"

definition S3FIFO_can_insert :: "S3FIFO_params \<Rightarrow> request \<Rightarrow> bool" where
  "S3FIFO_can_insert P req \<longleftrightarrow> r_obj_size req \<le> cache_size (s3_fifo P)"

definition on_s3 :: "S3FIFO_cache \<Rightarrow> ('a \<times> S3FIFO_params) outcome \<Rightarrow> ('a \<times> S3FIFO_cache) outcome" where
  "on_s3 c r = bindO r (\<lambda>(v, P). Some (Inr (v, c\<lparr>eviction_params := P\<rparr>)))"

definition S3FIFO_ops :: "(int, S3FIFO_params) cache_ops" where
  "S3FIFO_ops =
     \<lparr>op_find = (\<lambda>c req u. on_s3 c (Some (S3FIFO_find (eviction_params c) req u))),
      op_can_insert = (\<lambda>c req. Some (Inr (S3FIFO_can_insert (eviction_params c) req, c))),
      op_insert = (\<lambda>c req. on_s3 c (Some (S3FIFO_insert (eviction_params c) req))),
      op_evict = (\<lambda>c req. bindO (S3FIFO_evict (eviction_params c) req) (\<lambda>P.
        Some (Inr (c\<lparr>eviction_params := P\<rparr>)))),
      op_to_evict = (\<lambda>c req. on_s3 c (Some (S3FIFO_to_evict (eviction_params c) req))),
      op_remove = (\<lambda>c i. on_s3 c (Some (S3FIFO_remove (eviction_params c) i))),
      op_get_occupied_byte = (\<lambda>c. S3FIFO_get_occupied_byte (eviction_params c)),
      op_get_n_obj = (\<lambda>c. S3FIFO_get_n_obj (eviction_params c))\<rparr>"

text \<open>\<open>DEBUG_ASSERT\<close> guards the entry.\<close>

definition S3FIFO_get :: "S3FIFO_cache \<Rightarrow> request \<Rightarrow> (bool \<times> S3FIFO_cache) outcome" where
  "S3FIFO_get c req =
     (if S3FIFO_get_occupied_byte (eviction_params c) \<le> cache_size c
      then cache_get_base S3FIFO_ops c req else Some (Inl AssertFail))"

section \<open>One of the FIFO caches\<close>

definition part_ok :: "int FIFO_cache \<Rightarrow> bool" where
  "part_ok c \<longleftrightarrow> FIFO_inv c \<and> obj_md_size c = 0 \<and> (\<forall>i x. table c i = Some x \<longrightarrow> 0 < obj_size x \<and> 0 \<le> md x)"

lemma part_ok_obj: "part_ok c \<Longrightarrow> table c i = Some x \<Longrightarrow> obj_id x = i \<and> 0 < obj_size x \<and> obj_size x < 2 ^ 32 \<and> 0 \<le> md x"
  by (fastforce simp: part_ok_def FIFO_inv_def cache_wf_def obj_ok_def)

lemma part_ok_dom: "part_ok c \<Longrightarrow> set (q_list c) = dom (table c)"
  by (simp add: part_ok_def FIFO_inv_def cache_wf_def)

lemma part_ok_distinct: "part_ok c \<Longrightarrow> distinct (q_list c)"
  by (simp add: part_ok_def FIFO_inv_def cache_wf_def)

lemma part_ok_occ: "part_ok c \<Longrightarrow> 0 < cache_get_occupied_byte_default c \<longleftrightarrow> q_list c \<noteq> []"
proof
  assume c: "part_ok c"
  show "q_list c \<noteq> []" if "0 < cache_get_occupied_byte_default c"
    using that c by (auto simp: part_ok_def FIFO_inv_def cache_wf_def cache_get_occupied_byte_default_def)
  show "0 < cache_get_occupied_byte_default c" if "q_list c \<noteq> []"
  proof -
    from that obtain i q where q: "q_list c = i # q"
      by (meson neq_Nil_conv)
    have w: "cache_wf (q_list c) c"
      using c by (simp add: part_ok_def FIFO_inv_def)
    then obtain x where x: "table c i = Some x"
      using q part_ok_dom [OF c] by auto
    have "0 \<le> sum_list (map (obj_bytes c) q)"
      by (rule sum_list_nonneg) (use obj_bytes_nonneg [OF w] q in auto)
    moreover have "0 < obj_bytes c i"
      using part_ok_obj [OF c x] c by (simp add: obj_bytes_def x part_ok_def)
    ultimately show ?thesis
      using w q by (simp add: cache_wf_def cache_get_occupied_byte_default_def)
  qed
qed

lemma tail_ok:
  assumes "part_ok c" "q_list c \<noteq> []"
  obtains q i x where "q_list c = q @ [i]" "FIFO_to_evict c req = Some i" "deref c (Some i) = Inr x" "table c i = Some x"
    "obj_id x = i"
proof -
  obtain q i where q: "q_list c = q @ [i]"
    using assms(2) by (meson rev_exhaust)
  then obtain x where x: "table c i = Some x"
    using part_ok_dom [OF assms(1)] by auto
  show thesis
    by (rule that [OF q _ _ x]) (use q x part_ok_obj [OF assms(1) x] in \<open>simp_all add: FIFO_to_evict_def deref_def\<close>)
qed

lemma put_ok:
  assumes "part_ok c" "table c (r_obj_id req) = None" "0 < r_obj_size req" "r_obj_size req < 2 ^ 32"
    "\<And>x. obj_id (f x) = obj_id x \<and> obj_size (f x) = obj_size x" "0 \<le> md (f (new_obj req))"
  obtains c1 c' where "FIFO_insert c req = Inr (Some (r_obj_id req), c1)" "upd_obj c1 (Some (r_obj_id req)) f = Inr c'"
    "part_ok c'" "table c' = (table c)(r_obj_id req \<mapsto> f (new_obj req))" "q_list c' = r_obj_id req # q_list c"
    "cache_size c' = cache_size c" "cache_get_occupied_byte_default c' = cache_get_occupied_byte_default c + r_obj_size req"
proof -
  let ?c = "set_q (inserted c req) (r_obj_id req # q_list c)"
  let ?d = "?c\<lparr>table := (table ?c)(r_obj_id req \<mapsto> f (new_obj req))\<rparr>"
  have s: "to_u32 (r_obj_size req) = r_obj_size req"
    using assms(3,4) by (intro to_u32_id) auto
  have m: "FIFO_inv c" "obj_md_size c = 0"
    using assms(1) by (simp_all add: part_ok_def)
  have "FIFO_inv ?c"
    using assms(2-4) s m by (intro FIFO_insert_inv) (simp_all add: req_ok_def)
  then have w: "cache_wf (r_obj_id req # q_list c) ?d"
    using assms(5) by (intro cache_wf_upd [of _ ?c _ "new_obj req"]) (auto simp: FIFO_inv_def)
  show thesis
  proof (rule that)
    show "part_ok ?d"
      using w assms(1,3,5,6) s m(2) by (auto simp: part_ok_def FIFO_inv_def)
    show "cache_get_occupied_byte_default ?d = cache_get_occupied_byte_default c + r_obj_size req"
      using s m(2) by (simp add: cache_get_occupied_byte_default_def)
    have "table ?c (r_obj_id req) = Some (new_obj req)"
      by simp
    then show "upd_obj ?c (Some (r_obj_id req)) f = Inr ?d"
      by (simp add: upd_obj_def)
  qed (use FIFO_insert_eq [OF assms(2)] in simp_all)
qed

lemma remove_ok:
  assumes "part_ok c" "table c i = Some x"
  obtains c' where "FIFO_remove c i = Inr (True, c')" "part_ok c'" "table c' = (table c)(i := None)"
    "q_list c' = remove1 i (q_list c)" "cache_size c' = cache_size c"
proof -
  have "FIFO_inv c" "i \<in> dom (table c)"
    using assms by (auto simp: part_ok_def)
  note FIFO_remove_eq [OF this]
  then show thesis
    using assms(1) that by (auto simp: part_ok_def)
qed

lemma remove_none: "table c i = None \<Longrightarrow> FIFO_remove c i = Inr (False, c)"
  by (simp add: FIFO_remove_def hashtable_find_obj_id_def)

lemma hit_ok:
  assumes "part_ok c" "table c (r_obj_id req) = Some x"
  obtains c1 c' where "FIFO_find c req True = (Some (r_obj_id req), c1)" "bump c1 (Some (r_obj_id req)) = Inr c'"
    "part_ok c'" "dom (table c') = dom (table c)" "q_list c' = q_list c" "cache_size c' = cache_size c"
    "cache_get_occupied_byte_default c' = cache_get_occupied_byte_default c"
proof -
  let ?i = "r_obj_id req"
  let ?x = "x\<lparr>misc_next_access_vtime := r_next_access_vtime req, misc_freq := misc_freq x + 1\<rparr>"
  let ?c = "c\<lparr>table := (table c)(?i \<mapsto> ?x)\<rparr>" and ?d = "c\<lparr>table := (table c)(?i \<mapsto> ?x\<lparr>md := md x + 1\<rparr>)\<rparr>"
  have "cache_wf (q_list c) ?d"
    using assms by (intro cache_wf_upd) (auto simp: part_ok_def FIFO_inv_def)
  then have "part_ok ?d"
    using assms part_ok_obj [OF assms] by (auto simp: part_ok_def FIFO_inv_def)
  then show thesis
    by (intro that [of ?c ?d]) (use assms(2) in \<open>auto simp: FIFO_find_def cache_find_base_def bump_def upd_obj_def
        cache_get_occupied_byte_default_def\<close>)
qed

lemma find_none: "table c (r_obj_id req) = None \<Longrightarrow> FIFO_find c req u = (None, c)"
  by (simp add: FIFO_find_def cache_find_base_def)

section \<open>The invariant\<close>

definition ghost_ok :: "int FIFO_cache \<Rightarrow> bool" where
  "ghost_ok g \<longleftrightarrow> FIFO_inv g \<and> obj_md_size g = 0 \<and> occupied_byte g \<le> cache_size g"

definition s3_ok :: "S3FIFO_params \<Rightarrow> bool" where
  "s3_ok P \<longleftrightarrow> part_ok (s3_fifo P) \<and> part_ok (main_cache P) \<and>
     dom (table (s3_fifo P)) \<inter> dom (table (main_cache P)) = {} \<and>
     (\<forall>g. fifo_ghost P = Some g \<longrightarrow> ghost_ok g)"

definition s3_keys :: "S3FIFO_params \<Rightarrow> obj_id set" where
  "s3_keys P = dom (table (s3_fifo P)) \<union> dom (table (main_cache P))"

definition s3_fixed :: "S3FIFO_params \<Rightarrow> int \<times> int \<times> int \<times> bool" where
  "s3_fixed P = (cache_size (s3_fifo P), cache_size (main_cache P), move_to_main_threshold P, s3_hit_on_ghost P)"

definition s3_work :: "S3FIFO_params \<Rightarrow> nat" where
  "s3_work P = 2 * length (q_list (s3_fifo P)) + length (q_list (main_cache P))"

lemma ghost_get_ok:
  assumes "ghost_ok g" "0 \<le> r_obj_size req" "r_obj_size req < 2 ^ 32"
  shows "\<exists>h g'. FIFO_get g req = Some (Inr (h, g')) \<and> ghost_ok g'"
proof -
  have "req_ok g req"
    using assms by (simp add: req_ok_def ghost_ok_def to_u32_id)
  then show ?thesis
    using fifo.get_total [of g req] assms(1)
    by (auto simp: ghost_ok_def fifo.served_def FIFO_get_def FIFO_ops_occupied)
qed

lemma ghost_remove_ok:
  assumes "ghost_ok g"
  shows "\<exists>g'. FIFO_remove g i = Inr (i \<in> dom (table g), g') \<and> ghost_ok g'"
proof (cases "i \<in> dom (table g)")
  case True
  have g: "FIFO_inv g" "obj_md_size g = 0" "occupied_byte g \<le> cache_size g"
    using assms by (simp_all add: ghost_ok_def)
  have "0 \<le> obj_bytes g i"
    using obj_bytes_nonneg g(1) by (auto simp: FIFO_inv_def)
  then show ?thesis
    using FIFO_remove_eq [OF g(1) True] g True by (auto simp: ghost_ok_def)
qed (use assms remove_none in \<open>auto simp: domIff\<close>)

section \<open>Evictions\<close>

text \<open>The frequencies left in the main cache, by which its loop ends.\<close>

definition freq_left :: "int FIFO_cache \<Rightarrow> int" where
  "freq_left c = sum_list (map (\<lambda>i. md (the (table c i))) (q_list c))"

lemma freq_left_nonneg: "part_ok c \<Longrightarrow> 0 \<le> freq_left c"
  unfolding freq_left_def using part_ok_dom [of c] part_ok_obj [of c] by (intro sum_list_nonneg) fastforce

lemma copied_ok:
  assumes "part_ok c" "table c i = Some x"
  shows "r_obj_id (copy_cache_obj_to_request r x) = i" "0 < r_obj_size (copy_cache_obj_to_request r x)"
    "r_obj_size (copy_cache_obj_to_request r x) < 2 ^ 32"
  using part_ok_obj [OF assms] by simp_all

definition same_but_main :: "S3FIFO_params \<Rightarrow> S3FIFO_params \<Rightarrow> bool" where
  "same_but_main P P' \<longleftrightarrow> s3_fifo P' = s3_fifo P \<and> fifo_ghost P' = fifo_ghost P \<and> s3_fixed P' = s3_fixed P"

lemma evict_main_round_ok:
  assumes "s3_ok P" "q_list (main_cache P) \<noteq> []"
  obtains (reinserted) P' where "evict_main_round P req = Inr (False, P')" "s3_ok P'" "same_but_main P P'"
      "dom (table (main_cache P')) = dom (table (main_cache P))" "freq_left (main_cache P') < freq_left (main_cache P)"
      "length (q_list (main_cache P')) = length (q_list (main_cache P))"
  | (evicted) P' i where "evict_main_round P req = Inr (True, P')" "s3_ok P'" "same_but_main P P'"
      "i \<in> dom (table (main_cache P))" "dom (table (main_cache P')) = dom (table (main_cache P)) - {i}"
      "length (q_list (main_cache P')) < length (q_list (main_cache P))"
proof -
  let ?m = "main_cache P"
  have m: "part_ok ?m"
    using assms(1) by (simp add: s3_ok_def)
  obtain q i x where v: "q_list ?m = q @ [i]" "FIFO_to_evict ?m req = Some i" "deref ?m (Some i) = Inr x"
      "table ?m i = Some x" "obj_id x = i"
    using tail_ok [OF m assms(2)] by metis
  let ?r = "copy_cache_obj_to_request (s3_req_local P) x"
  note r = copied_ok [OF m v(4), of "s3_req_local P"]
  obtain m1 where m1: "FIFO_remove ?m i = Inr (True, m1)" "part_ok m1" "table m1 = (table ?m)(i := None)"
      "q_list m1 = remove1 i (q_list ?m)" "cache_size m1 = cache_size ?m"
    using remove_ok [OF m v(4)] by metis
  have q: "i \<notin> set q" "q_list m1 = q"
    using part_ok_distinct [OF m] v(1) m1(4) by (auto simp: remove1_append)
  show thesis
  proof (cases "md x \<ge> 1")
    case True
    let ?f = "\<lambda>y. y\<lparr>md := min (md x) 3 - 1, misc_freq := md x\<rparr> :: int cache_obj"
    have "table m1 (r_obj_id ?r) = None" "0 \<le> md (?f (new_obj ?r))"
      using r m1(3) True by simp_all
    then obtain m2 m3 where m3: "FIFO_insert m1 ?r = Inr (Some (r_obj_id ?r), m2)" "upd_obj m2 (Some (r_obj_id ?r)) ?f = Inr m3"
        "part_ok m3" "table m3 = (table m1)(r_obj_id ?r \<mapsto> ?f (new_obj ?r))" "q_list m3 = r_obj_id ?r # q_list m1"
        "cache_size m3 = cache_size m1"
      by (elim put_ok [OF m1(2) _ r(2,3), of ?f, rotated 2]) simp_all
    have d: "dom (table m3) = dom (table ?m)"
      using m3(4) m1(3) r(1) v(4) by auto
    have "sum_list (map (\<lambda>j. md (the (table m3 j))) q) = sum_list (map (\<lambda>j. md (the (table ?m j))) q)"
      using q(1) m3(4) m1(3) r(1) by (intro sum_list_map_cong) auto
    then have "freq_left m3 < freq_left ?m"
      using True m3(4,5) q v(1,4) r(1) by (simp add: freq_left_def)
    then show thesis
      using m3 m1(1,5) v r(1) q True assms(1) d
      by (intro reinserted [of "P\<lparr>s3_req_local := ?r, main_cache := m3\<rparr>"])
        (simp_all add: evict_main_round_def s3_ok_def same_but_main_def s3_fixed_def)
  next
    case False
    then show thesis
      using m1 v q assms(1)
      by (intro evicted [of "P\<lparr>s3_req_local := ?r, main_cache := m1\<rparr>" i])
        (auto simp: evict_main_round_def s3_ok_def same_but_main_def s3_fixed_def)
  qed
qed

lemma same_but_main_trans: "same_but_main P Q \<Longrightarrow> same_but_main Q R \<Longrightarrow> same_but_main P R"
  by (simp add: same_but_main_def)

lemma evict_main_ok:
  assumes "s3_ok P" "q_list (main_cache P) \<noteq> []"
  shows "\<exists>P' i. S3FIFO_evict_main P req = Some (Inr P') \<and> s3_ok P' \<and> same_but_main P P' \<and>
     i \<in> dom (table (main_cache P)) \<and> dom (table (main_cache P')) = dom (table (main_cache P)) - {i} \<and>
     length (q_list (main_cache P')) < length (q_list (main_cache P))"
  using assms
proof (induction "nat (freq_left (main_cache P))" arbitrary: P rule: less_induct)
  case less
  have occ: "0 < cache_get_occupied_byte_default (main_cache P)"
    using less.prems part_ok_occ [of "main_cache P"] by (simp add: s3_ok_def)
  from less.prems show ?case
  proof (cases rule: evict_main_round_ok [where req = req])
    case (reinserted P')
    have "0 \<le> freq_left (main_cache P')"
      using reinserted(2) by (intro freq_left_nonneg) (simp add: s3_ok_def)
    then have n: "nat (freq_left (main_cache P')) < nat (freq_left (main_cache P))"
      using reinserted(5) by simp
    have ne: "q_list (main_cache P') \<noteq> []"
      using reinserted(6) less.prems(2) by (metis length_0_conv)
    obtain P2 i where h: "S3FIFO_evict_main P' req = Some (Inr P2)" "s3_ok P2" "same_but_main P' P2"
        "i \<in> dom (table (main_cache P'))" "dom (table (main_cache P2)) = dom (table (main_cache P')) - {i}"
        "length (q_list (main_cache P2)) < length (q_list (main_cache P'))"
      using less.hyps [OF n reinserted(2) ne] by (elim exE conjE)
    have "S3FIFO_evict_main P req = S3FIFO_evict_main P' req"
      using occ reinserted(1) by (subst S3FIFO_evict_main.simps) simp
    then show ?thesis
      using h(1,2) same_but_main_trans [OF reinserted(3) h(3)] h(4-6)
      by (intro exI [of _ P2] exI [of _ i]) (simp add: reinserted(4,6))
  next
    case (evicted P' i)
    then have "S3FIFO_evict_main P req = Some (Inr P')"
      using occ by (subst S3FIFO_evict_main.simps) simp
    then show ?thesis
      using evicted(2-) by (intro exI [of _ P'] exI [of _ i]) simp
  qed
qed

text \<open>One round over the small cache takes its oldest object out, into the main cache or out of the cache.\<close>

lemma evict_fifo_round_ok:
  assumes "s3_ok P" "q_list (s3_fifo P) \<noteq> []"
  shows "\<exists>e P'. evict_fifo_round P req = Some (Inr (e, P')) \<and> s3_ok P' \<and> s3_keys P' \<subseteq> s3_keys P \<and>
     s3_fixed P' = s3_fixed P \<and> s3_work P' < s3_work P \<and>
     length (q_list (s3_fifo P')) < length (q_list (s3_fifo P))"
proof -
  let ?f = "s3_fifo P" and ?m = "main_cache P"
  have p: "part_ok ?f" "part_ok ?m" "dom (table ?f) \<inter> dom (table ?m) = {}" "\<forall>g. fifo_ghost P = Some g \<longrightarrow> ghost_ok g"
    using assms(1) by (simp_all add: s3_ok_def)
  obtain q i x where v: "q_list ?f = q @ [i]" "FIFO_to_evict ?f req = Some i" "deref ?f (Some i) = Inr x"
      "table ?f i = Some x" "obj_id x = i"
    using tail_ok [OF p(1) assms(2)] by metis
  let ?r = "copy_cache_obj_to_request (s3_req_local P) x"
  note r = copied_ok [OF p(1) v(4), of "s3_req_local P"]
  obtain f' where f': "FIFO_remove ?f i = Inr (True, f')" "part_ok f'" "table f' = (table ?f)(i := None)"
      "q_list f' = remove1 i (q_list ?f)" "cache_size f' = cache_size ?f"
    using remove_ok [OF p(1) v(4)] by metis
  have l: "length (q_list f') < length (q_list ?f)"
    using f'(4) v(1) by (simp add: length_remove1)
  have mi: "table ?m i = None"
    using p(3) v(4) by auto
  show ?thesis
  proof (cases "md x \<ge> move_to_main_threshold P")
    case True
    let ?g = "\<lambda>y. y\<lparr>misc_freq := misc_freq x\<rparr> :: int cache_obj"
    have "table ?m (r_obj_id ?r) = None" "0 \<le> md (?g (new_obj ?r))"
      using r(1) mi by simp_all
    then obtain m1 m2 where m2: "FIFO_insert ?m ?r = Inr (Some (r_obj_id ?r), m1)" "upd_obj m1 (Some (r_obj_id ?r)) ?g = Inr m2"
        "part_ok m2" "table m2 = (table ?m)(r_obj_id ?r \<mapsto> ?g (new_obj ?r))" "q_list m2 = r_obj_id ?r # q_list ?m"
        "cache_size m2 = cache_size ?m"
      by (elim put_ok [OF p(2) _ r(2,3), of ?g, rotated 2]) simp_all
    let ?P = "P\<lparr>s3_req_local := ?r, n_obj_move_to_main := n_obj_move_to_main P + 1,
        n_byte_move_to_main := n_byte_move_to_main P + obj_size x, main_cache := m2, s3_fifo := f'\<rparr>"
    have "evict_fifo_round P req = Some (Inr (False, ?P))"
      using v r(1) m2(1,2) f'(1) True by (simp add: evict_fifo_round_def)
    moreover have "s3_ok ?P"
      using p m2(3,4) f'(2,3) r(1) by (auto simp: s3_ok_def)
    moreover have "s3_keys ?P \<subseteq> s3_keys P"
      using m2(4) f'(3) r(1) v(4) by (auto simp: s3_keys_def split: if_splits)
    moreover have "s3_work ?P < s3_work P" "s3_fixed ?P = s3_fixed P"
      using l m2(5,6) f'(5) by (simp_all add: s3_work_def s3_fixed_def)
    ultimately show ?thesis
      using l by (intro exI [of _ False] exI [of _ ?P]) simp
  next
    case False
    have d: ?thesis if "evict_fifo_round P req = Some (Inr (True, P'))" "s3_fifo P' = f'" "main_cache P' = ?m"
      "\<forall>g. fifo_ghost P' = Some g \<longrightarrow> ghost_ok g" "s3_fixed P' = s3_fixed P" for P'
    proof (intro exI [of _ True] exI [of _ P'] conjI)
      show "s3_ok P'"
        using that(2-4) p(2,3) f'(2,3) by (auto simp: s3_ok_def)
      show "s3_keys P' \<subseteq> s3_keys P"
        using that(2,3) f'(3) by (auto simp: s3_keys_def)
    qed (use that l in \<open>simp_all add: s3_work_def\<close>)
    show ?thesis
    proof (cases "fifo_ghost P")
      case None
      show ?thesis
        by (rule d [of "P\<lparr>s3_req_local := ?r, s3_fifo := f'\<rparr>"])
          (use None v r(1) f'(1,5) False in \<open>simp_all add: evict_fifo_round_def s3_fixed_def\<close>)
    next
      case (Some g)
      then obtain h g' where g': "FIFO_get g ?r = Some (Inr (h, g'))" "ghost_ok g'"
        using ghost_get_ok [of g ?r] p(4) r(2,3) by auto
      show ?thesis
        by (rule d [of "P\<lparr>s3_req_local := ?r, fifo_ghost := Some g', s3_fifo := f'\<rparr>"])
          (use Some g' v r(1) f'(1,5) False in \<open>simp_all add: evict_fifo_round_def s3_fixed_def\<close>)
    qed
  qed
qed

lemma evict_fifo_ok:
  assumes "s3_ok P" "q_list (s3_fifo P) \<noteq> []"
  shows "\<exists>P'. S3FIFO_evict_fifo P req = Some (Inr P') \<and> s3_ok P' \<and> s3_keys P' \<subseteq> s3_keys P \<and>
     s3_fixed P' = s3_fixed P \<and> s3_work P' < s3_work P"
  using assms
proof (induction "length (q_list (s3_fifo P))" arbitrary: P rule: less_induct)
  case less
  have occ: "0 < cache_get_occupied_byte_default (s3_fifo P)"
    using less.prems part_ok_occ [of "s3_fifo P"] by (simp add: s3_ok_def)
  obtain e P1 where r: "evict_fifo_round P req = Some (Inr (e, P1))" "s3_ok P1" "s3_keys P1 \<subseteq> s3_keys P"
      "s3_fixed P1 = s3_fixed P" "s3_work P1 < s3_work P" "length (q_list (s3_fifo P1)) < length (q_list (s3_fifo P))"
    using evict_fifo_round_ok [OF less.prems, of req] by (elim exE conjE)
  show ?case
  proof (cases "e \<or> q_list (s3_fifo P1) = []")
    case True
    have "\<not> 0 < cache_get_occupied_byte_default (s3_fifo P1)" if "q_list (s3_fifo P1) = []"
      using that r(2) part_ok_occ [of "s3_fifo P1"] by (simp add: s3_ok_def)
    then have "S3FIFO_evict_fifo P req = Some (Inr P1)"
      using occ r(1) True by (cases e) (simp_all add: S3FIFO_evict_fifo.simps [of P] S3FIFO_evict_fifo.simps [of P1])
    then show ?thesis
      using r(2-5) by (intro exI [of _ P1]) simp
  next
    case False
    then obtain P2 where h: "S3FIFO_evict_fifo P1 req = Some (Inr P2)" "s3_ok P2" "s3_keys P2 \<subseteq> s3_keys P1"
        "s3_fixed P2 = s3_fixed P1" "s3_work P2 < s3_work P1"
      using less.hyps [OF r(6,2)] by blast
    have "S3FIFO_evict_fifo P req = Some (Inr P2)"
      using occ r(1) False h(1) by (subst S3FIFO_evict_fifo.simps) simp
    then show ?thesis
      using h r(3-5) by (intro exI [of _ P2]) auto
  qed
qed

lemma S3FIFO_evict_ok:
  assumes "s3_ok P" "s3_keys P \<noteq> {}" "0 \<le> cache_size (main_cache P)"
  shows "\<exists>P'. S3FIFO_evict P req = Some (Inr P') \<and> s3_ok P' \<and> s3_keys P' \<subseteq> s3_keys P \<and>
     s3_fixed P' = s3_fixed P \<and> s3_work P' < s3_work P"
proof -
  have p: "part_ok (s3_fifo P)" "part_ok (main_cache P)"
    using assms(1) by (simp_all add: s3_ok_def)
  show ?thesis
  proof (cases "cache_get_occupied_byte_default (main_cache P) > cache_size (main_cache P) \<or>
      cache_get_occupied_byte_default (s3_fifo P) = 0")
    case True
    have "q_list (main_cache P) \<noteq> []"
      using True assms(2,3) part_ok_occ [OF p(1)] part_ok_occ [OF p(2)]
      unfolding s3_keys_def part_ok_dom [OF p(1), symmetric] part_ok_dom [OF p(2), symmetric] by auto
    then obtain P' i where e: "S3FIFO_evict_main P req = Some (Inr P')" "s3_ok P'" "same_but_main P P'"
        "dom (table (main_cache P')) = dom (table (main_cache P)) - {i}"
        "length (q_list (main_cache P')) < length (q_list (main_cache P))"
      using evict_main_ok [OF assms(1)] by blast
    then have "s3_keys P' \<subseteq> s3_keys P" "s3_fixed P' = s3_fixed P" "s3_work P' < s3_work P"
      by (auto simp: same_but_main_def s3_keys_def s3_work_def)
    then show ?thesis
      using True e(1,2) by (intro exI [of _ P']) (simp add: S3FIFO_evict_def)
  next
    case False
    have "0 \<le> cache_get_occupied_byte_default (s3_fifo P)"
      using p(1) cache_wf_occupied_nonneg by (auto simp: part_ok_def FIFO_inv_def cache_get_occupied_byte_default_def)
    then have "q_list (s3_fifo P) \<noteq> []"
      using False part_ok_occ [OF p(1)] by linarith
    from evict_fifo_ok [OF assms(1) this, of req] show ?thesis
      using False by (simp add: S3FIFO_evict_def)
  qed
qed

section \<open>Lookup and insertion\<close>

lemma S3FIFO_find_ok:
  assumes "s3_ok P"
  shows "\<exists>P'. S3FIFO_find P req True = Inr (if r_obj_id req \<in> s3_keys P then Some (r_obj_id req) else None, P') \<and>
     s3_ok P' \<and> s3_keys P' = s3_keys P \<and> S3FIFO_get_occupied_byte P' = S3FIFO_get_occupied_byte P \<and>
     cache_size (s3_fifo P') = cache_size (s3_fifo P) \<and> cache_size (main_cache P') = cache_size (main_cache P)"
proof -
  let ?i = "r_obj_id req" and ?P = "P\<lparr>s3_hit_on_ghost := False\<rparr>"
  have p: "part_ok (s3_fifo P)" "part_ok (main_cache P)" "dom (table (s3_fifo P)) \<inter> dom (table (main_cache P)) = {}"
      "\<forall>g. fifo_ghost P = Some g \<longrightarrow> ghost_ok g"
    using assms by (simp_all add: s3_ok_def)
  show ?thesis
  proof (cases "table (s3_fifo P) ?i")
    case (Some x)
    obtain f1 f where f: "FIFO_find (s3_fifo P) req True = (Some ?i, f1)" "bump f1 (Some ?i) = Inr f" "part_ok f"
        "dom (table f) = dom (table (s3_fifo P))" "cache_size f = cache_size (s3_fifo P)"
        "cache_get_occupied_byte_default f = cache_get_occupied_byte_default (s3_fifo P)"
      using hit_ok [OF p(1) Some] by metis
    then show ?thesis
      using p Some by (intro exI [of _ "?P\<lparr>s3_fifo := f\<rparr>"])
        (auto simp: S3FIFO_find_def s3_ok_def s3_keys_def S3FIFO_get_occupied_byte_def)
  next
    case None
    let ?g = "case fifo_ghost P of None \<Rightarrow> Inr ?P
        | Some g \<Rightarrow> bindE (FIFO_remove g ?i) (\<lambda>(r, g). Inr (?P\<lparr>fifo_ghost := Some g, s3_hit_on_ghost := r\<rparr>))"
    obtain Q where Q: "?g = Inr Q" "s3_fifo Q = s3_fifo P" "main_cache Q = main_cache P"
        "\<forall>g. fifo_ghost Q = Some g \<longrightarrow> ghost_ok g"
    proof (cases "fifo_ghost P")
      case (Some g)
      then show thesis
        using ghost_remove_ok [of g ?i] p(4) that by auto
    qed (use that [of ?P] in simp)
    have e: "S3FIFO_find P req True = (case FIFO_find (main_cache P) req True of
        (Some i, m) \<Rightarrow> bindE (bump m (Some i)) (\<lambda>m. Inr (Some i, Q\<lparr>main_cache := m\<rparr>)) | (None, m) \<Rightarrow> Inr (None, Q))"
      using find_none [OF None] Q(1,3)
      by (auto simp: S3FIFO_find_def split: option.splits cong: option.case_cong prod.case_cong)
    show ?thesis
    proof (cases "table (main_cache P) ?i")
      case (Some x)
      obtain m1 m where m: "FIFO_find (main_cache P) req True = (Some ?i, m1)" "bump m1 (Some ?i) = Inr m" "part_ok m"
          "dom (table m) = dom (table (main_cache P))" "cache_size m = cache_size (main_cache P)"
          "cache_get_occupied_byte_default m = cache_get_occupied_byte_default (main_cache P)"
        using hit_ok [OF p(2) Some] by metis
      then show ?thesis
        using p Some Q by (intro exI [of _ "Q\<lparr>main_cache := m\<rparr>"])
          (auto simp: e s3_ok_def s3_keys_def S3FIFO_get_occupied_byte_def)
    next
      case N: None
      then show ?thesis
        using p None Q by (intro exI [of _ Q])
          (auto simp: e find_none [OF N] s3_ok_def s3_keys_def S3FIFO_get_occupied_byte_def)
    qed
  qed
qed

lemma S3FIFO_insert_ok:
  assumes "s3_ok P" "r_obj_id req \<notin> s3_keys P" "0 < r_obj_size req" "r_obj_size req < 2 ^ 32"
    "r_obj_size req < cache_size (s3_fifo P)"
  shows "\<exists>P'. S3FIFO_insert P req = Inr (Some (r_obj_id req), P') \<and> s3_ok P' \<and>
     s3_keys P' = insert (r_obj_id req) (s3_keys P) \<and>
     S3FIFO_get_occupied_byte P' = S3FIFO_get_occupied_byte P + r_obj_size req \<and>
     cache_size (s3_fifo P') = cache_size (s3_fifo P) \<and> cache_size (main_cache P') = cache_size (main_cache P)"
proof -
  let ?f = "\<lambda>x :: int cache_obj. x\<lparr>md := 0\<rparr>" and ?i = "r_obj_id req"
  have n: "table (s3_fifo P) ?i = None" "table (main_cache P) ?i = None"
    using assms(2) by (auto simp: s3_keys_def)
  have p: "part_ok (s3_fifo P)" "part_ok (main_cache P)"
    using assms(1) by (simp_all add: s3_ok_def)
  show ?thesis
  proof (cases "s3_hit_on_ghost P")
    case True
    show ?thesis
      by (rule put_ok [OF p(2) n(2) assms(3,4), of ?f])
        (use True assms(1) n in \<open>auto simp: S3FIFO_insert_def s3_ok_def s3_keys_def S3FIFO_get_occupied_byte_def\<close>)
  next
    case False
    show ?thesis
      by (rule put_ok [OF p(1) n(1) assms(3,4), of ?f])
        (use False assms n in \<open>auto simp: S3FIFO_insert_def s3_ok_def s3_keys_def S3FIFO_get_occupied_byte_def\<close>)
  qed
qed

section \<open>The algorithm\<close>

text \<open>
  The invariant of a cache whose small queue has size \<open>fs\<close>, and the requests it serves: an object of
  exactly that size passes \<open>S3FIFO_can_insert\<close> and is then refused by \<open>S3FIFO_insert\<close>.
\<close>

definition S3FIFO_inv :: "int \<Rightarrow> S3FIFO_cache \<Rightarrow> bool" where
  "S3FIFO_inv fs c \<longleftrightarrow> s3_ok (eviction_params c) \<and> obj_md_size c = 0 \<and>
     cache_size (s3_fifo (eviction_params c)) = fs \<and> fs \<le> cache_size c \<and>
     0 \<le> cache_size (main_cache (eviction_params c))"

definition S3FIFO_req_ok :: "int \<Rightarrow> S3FIFO_cache \<Rightarrow> request \<Rightarrow> bool" where
  "S3FIFO_req_ok fs c req \<longleftrightarrow> 0 < r_obj_size req \<and> r_obj_size req < 2 ^ 32 \<and> r_obj_size req \<noteq> fs"

interpretation s3fifo: total_eviction_algorithm S3FIFO_ops "S3FIFO_inv fs" "\<lambda>c. s3_keys (eviction_params c)"
  "S3FIFO_req_ok fs" "\<lambda>c req. s3_work (eviction_params c)" "\<lambda>c. S3FIFO_can_insert (eviction_params c)"
  "\<lambda>_ _. True" "\<lambda>c. S3FIFO_can_insert (eviction_params c)" for fs
proof (unfold_locales, goal_cases)
  case (8 c req)
  then show ?case
    using S3FIFO_find_ok [of "eviction_params c" req]
    by (auto simp: S3FIFO_inv_def S3FIFO_ops_def on_s3_def S3FIFO_can_insert_def)
next
  case (11 c req)
  then show ?case
    using S3FIFO_evict_ok [of "eviction_params c" req]
    by (auto simp: S3FIFO_inv_def S3FIFO_ops_def s3_fixed_def S3FIFO_can_insert_def)
next
  case (12 c req)
  then show ?case
    using S3FIFO_insert_ok [of "eviction_params c" req]
    by (auto simp: S3FIFO_inv_def S3FIFO_req_ok_def S3FIFO_ops_def on_s3_def S3FIFO_can_insert_def)
next
  case (13 c)
  then have "part_ok (s3_fifo (eviction_params c))" "part_ok (main_cache (eviction_params c))"
    by (simp_all add: S3FIFO_inv_def s3_ok_def)
  note o = part_ok_occ [OF this(1)] part_ok_occ [OF this(2)] and d = part_ok_dom [OF this(1)] part_ok_dom [OF this(2)]
  have "q_list (s3_fifo (eviction_params c)) = []" "q_list (main_cache (eviction_params c)) = []"
    using 13(2) unfolding s3_keys_def d [symmetric] by auto
  then show ?case
    using o by (simp add: S3FIFO_ops_def S3FIFO_get_occupied_byte_def)
qed (auto simp: S3FIFO_inv_def S3FIFO_ops_def S3FIFO_can_insert_def S3FIFO_req_ok_def)

lemma FIFO_init_fields:
  "obj_md_size (FIFO_init p) = 0" "table (FIFO_init p) = Map.empty" "occupied_byte (FIFO_init p) = 0"
  "cache_size (FIFO_init p) = to_i64 (cp_cache_size p)"
  by (simp_all add: FIFO_init_def cache_struct_init_def)

lemma S3FIFO_inv_init:
  assumes "0 \<le> fs" "fs \<le> cp_cache_size p" "cp_cache_size p < 2 ^ 63" "gs < 2 ^ 63"
  shows "S3FIFO_inv fs (S3FIFO_init p fs gs t)" "s3_keys (eviction_params (S3FIFO_init p fs gs t)) = {}"
    "S3FIFO_get_occupied_byte (eviction_params (S3FIFO_init p fs gs t)) = 0"
proof -
  have "to_i64 n = n" if "0 \<le> n" "n \<le> cp_cache_size p \<or> n = gs" for n
    using that assms by (intro to_i64_id) auto
  then have i: "to_i64 fs = fs" "to_i64 (cp_cache_size p - fs) = cp_cache_size p - fs" "to_i64 (cp_cache_size p) = cp_cache_size p"
      "0 < gs \<longrightarrow> to_i64 gs = gs"
    using assms by auto
  show "S3FIFO_inv fs (S3FIFO_init p fs gs t)"
    using assms i by (auto simp: S3FIFO_inv_def S3FIFO_init_def s3_ok_def part_ok_def ghost_ok_def FIFO_inv_init
        FIFO_init_fields cache_struct_init_def)
qed (simp_all add: S3FIFO_init_def cache_struct_init_def s3_keys_def FIFO_init_fields S3FIFO_get_occupied_byte_def
      cache_get_occupied_byte_default_def)

lemma S3FIFO_ops_occupied: "op_get_occupied_byte S3FIFO_ops c = S3FIFO_get_occupied_byte (eviction_params c)"
  by (simp add: S3FIFO_ops_def)

lemma S3FIFO_find_absent:
  assumes "s3_keys P = {}" "\<forall>g. fifo_ghost P = Some g \<longrightarrow> table g = Map.empty"
  shows "S3FIFO_find P req True = Inr (None, P\<lparr>s3_hit_on_ghost := False\<rparr>)"
proof -
  have "table (s3_fifo P) = Map.empty" "table (main_cache P) = Map.empty"
    using assms(1) by (simp_all add: s3_keys_def)
  then show ?thesis
    using assms(2) by (cases P; cases "fifo_ghost P") (simp_all add: S3FIFO_find_def find_none remove_none)
qed

section \<open>Properties\<close>



text \<open>
  C40: Objects of exactly the small queue's size (unit-size objects in a cache of fewer than 20 objects, at
  the default ratio) are never cached: from an empty cache such a request is admitted, finds room, is not
  inserted, and leaves the cache as empty as it was.
\<close>

theorem S3FIFO_fifo_sized_never_cached:
  assumes "S3FIFO_inv fs c" "s3_keys (eviction_params c) = {}" "r_obj_size req = fs" "0 < fs"
    "\<forall>g. fifo_ghost (eviction_params c) = Some g \<longrightarrow> table g = Map.empty"
  shows "S3FIFO_can_insert (eviction_params c) req \<and>
     S3FIFO_get c req = Some (Inr (False,
       c\<lparr>n_req := n_req c + 1, eviction_params := (eviction_params c)\<lparr>s3_hit_on_ghost := False\<rparr>\<rparr>))"
proof -
  let ?c = "c\<lparr>n_req := n_req c + 1, eviction_params := (eviction_params c)\<lparr>s3_hit_on_ghost := False\<rparr>\<rparr>"
  have a: "S3FIFO_can_insert (eviction_params c) req"
    using assms(1,3) by (simp add: S3FIFO_inv_def S3FIFO_can_insert_def)
  have "S3FIFO_get_occupied_byte (eviction_params c) \<le> 0"
    using s3fifo.empty_law [OF assms(1,2)] by (simp add: S3FIFO_ops_occupied)
  then have o: "S3FIFO_get_occupied_byte (eviction_params c) \<le> cache_size c" "\<not> cache_size c <
      op_get_occupied_byte S3FIFO_ops ?c + r_obj_size req + obj_md_size c"
    using assms(1,3,4) by (auto simp: S3FIFO_inv_def S3FIFO_ops_occupied S3FIFO_get_occupied_byte_def)
  have "evict_until_fits S3FIFO_ops req ?c = Some (Inr ?c)"
    using o(2) by (subst evict_until_fits.simps) simp
  then have "cache_get_base S3FIFO_ops c req = Some (Inr (False, ?c))"
    using a assms(1,3) S3FIFO_find_absent [OF assms(2,5)]
    by (simp add: cache_get_base_def S3FIFO_ops_def on_s3_def S3FIFO_can_insert_def S3FIFO_insert_def S3FIFO_inv_def)
  then show ?thesis
    using a o(1) by (simp add: S3FIFO_get_def)
qed

theorem S3FIFO_fifo_sized_never_cached_witness:
  "\<exists>c'. S3FIFO_get (S3FIFO_init (default_common_cache_params\<lparr>cp_cache_size := 19\<rparr>) 1 17 2) (example_req 3 1) =
      Some (Inr (False, c')) \<and> s3_keys (eviction_params c') = {}"
  using S3FIFO_fifo_sized_never_cached
      [of 1 "S3FIFO_init (default_common_cache_params\<lparr>cp_cache_size := 19\<rparr>) 1 17 2" "example_req 3 1"]
    S3FIFO_inv_init [of 1 "default_common_cache_params\<lparr>cp_cache_size := 19\<rparr>" 17 2]
  by (simp add: s3_keys_def) (simp add: S3FIFO_init_def cache_struct_init_def FIFO_init_fields)

end
