(* ===== verification/Table_Cache.thy ===== *)
theory Table_Cache
  imports Queue_Cache
begin

text \<open>
  What the algorithms that use the default admission test and the default byte count have in common.
  The interface \<open>table_cache\<close> asks three laws of an algorithm, one each for lookup, insertion and
  eviction; whatever fulfils them is a \<open>total_eviction_algorithm\<close>.
\<close>

section \<open>The interface\<close>

locale table_cache =
  fixes ops :: "('m::zero, 'p) cache_ops" and inv :: "('m, 'p) cache \<Rightarrow> bool"
  assumes inv_wf: "inv c \<Longrightarrow> \<exists>q. cache_wf q c"
    and inv_frame: "inv c \<Longrightarrow> inv (c\<lparr>n_req := n\<rparr>)" "inv c \<Longrightarrow> inv (c\<lparr>admissioner := a\<rparr>)"
    and occupied_ops: "op_get_occupied_byte ops c = occupied_byte c"
    and can_insert_ops: "op_can_insert ops c req = Some (Inr (cache_can_insert_default c req))"
    and find_table: "inv c \<Longrightarrow>
      \<exists>c'. op_find ops c req True =
             Some (Inr (if r_obj_id req \<in> dom (table c) then Some (r_obj_id req) else None, c')) \<and>
           inv c' \<and> dom (table c') = dom (table c) \<and> conf c' = conf c \<and> admissioner c' = admissioner c \<and>
           occupied_byte c' = occupied_byte c"
    and insert_table: "inv c \<Longrightarrow> table c (r_obj_id req) = None \<Longrightarrow> req_ok c req \<Longrightarrow>
      \<exists>p c'. op_insert ops c req = Some (Inr (p, c')) \<and> inv c' \<and>
           dom (table c') = insert (r_obj_id req) (dom (table c)) \<and> conf c' = conf c \<and>
           occupied_byte c' = occupied_byte c + (to_u32 (r_obj_size req) + obj_md_size c)"
    and evict_table: "inv c \<Longrightarrow> dom (table c) \<noteq> {} \<Longrightarrow>
      \<exists>c'. op_evict ops c req = Some (Inr c') \<and> inv c' \<and> dom (table c') \<subset> dom (table c) \<and> conf c' = conf c"
begin

lemma inv_finite: "inv c \<Longrightarrow> finite (dom (table c))"
  using inv_wf [of c] by (metis cache_wf_def List.finite_set)

end

sublocale table_cache \<subseteq> total_eviction_algorithm
  ops inv "\<lambda>c. dom (table c)" req_ok "\<lambda>c req. card (dom (table c))" admits_default "\<lambda>_ _. True" "\<lambda>_ _. True"
proof (unfold_locales, goal_cases)
  case (4 c n req)
  show ?case by (rule admits_default_cong) simp_all
next
  case (5 c' c n req)
  then show ?case by (auto intro: req_ok_conf)
next
  case (7 c)
  then show ?case using inv_wf [of c] cache_wf_md by blast
next
  case (8 c req)
  obtain c' where f: "op_find ops c req True =
        Some (Inr (if r_obj_id req \<in> dom (table c) then Some (r_obj_id req) else None, c'))"
      "inv c'" "dom (table c') = dom (table c)" "conf c' = conf c" "admissioner c' = admissioner c"
      "occupied_byte c' = occupied_byte c"
    using find_table [OF 8, of req] by blast
  have "admits_default c' req = admits_default c req"
    by (rule admits_default_cong) (use f(4,5) in simp_all)
  with f show ?case by (simp add: occupied_ops)
next
  case (9 c req)
  then show ?case
    using cache_can_insert_default_eq [of c req] inv_frame(2) [OF 9]
    by (auto simp: can_insert_ops occupied_ops)
next
  case (11 c req)
  then obtain c' where e: "op_evict ops c req = Some (Inr c')" "inv c'" "dom (table c') \<subset> dom (table c)" "conf c' = conf c"
    using evict_table [of c req] by blast
  moreover have "card (dom (table c')) < card (dom (table c))"
    by (rule psubset_card_mono [OF inv_finite e(3)]) (use 11 in simp)
  ultimately show ?case by auto
next
  case (12 c req)
  then obtain p c' where "op_insert ops c req = Some (Inr (p, c'))" "inv c'"
      "dom (table c') = insert (r_obj_id req) (dom (table c))" "conf c' = conf c"
      "occupied_byte c' = occupied_byte c + (to_u32 (r_obj_size req) + obj_md_size c)"
    using insert_table [of c req] by (auto simp: domIff)
  then show ?case
    using 12 to_u32_le [OF req_ok_size [of c req]] by (auto simp: occupied_ops)
next
  case (13 c)
  then show ?case
    using inv_wf [of c] dom_empty_queue by (auto simp: occupied_ops)
qed (auto simp: inv_frame occupied_ops admits_default_def req_ok_size)

context table_cache
begin

text \<open>How an algorithm of this kind serves a request.\<close>

lemma get_table:
  assumes "inv c" "req_ok c req" "occupied_byte c \<le> cache_size c"
  shows "\<exists>c'. cache_get_base ops c req = Some (Inr (r_obj_id req \<in> dom (table c), c')) \<and>
     inv c' \<and> occupied_byte c' \<le> cache_size c' \<and> cache_size c' = cache_size c \<and>
     n_req c' = n_req c + 1 \<and> dom (table c') \<subseteq> insert (r_obj_id req) (dom (table c)) \<and>
     (r_obj_id req \<in> dom (table c') \<longleftrightarrow> r_obj_id req \<in> dom (table c) \<or> admits_default c req) \<and>
     (r_obj_id req \<in> dom (table c) \<or> \<not> admits_default c req \<longrightarrow> dom (table c') = dom (table c))"
proof -
  have "op_get_occupied_byte ops c \<le> cache_size c"
    using assms(3) by (simp add: occupied_ops)
  from get_total [OF assms(1,2) this] show ?thesis
    unfolding served_def occupied_ops by metis
qed

end

end
