(* ===== verification/Clock.thy ===== *)
theory Clock
  imports Table_Cache
begin

text \<open>
  The Clock cache of \<open>cache/eviction/Clock.c\<close>: a FIFO queue whose tail is given another round for
  every hit it has collected, up to the limit of an n-bit counter. The metadata of an object is its
  \<open>clock.freq\<close>.
\<close>

section \<open>Operations\<close>

record Clock_params = queue_params +
  n_bit_counter :: int
  max_freq :: int
  n_obj_rewritten :: int
  n_byte_rewritten :: int

type_synonym Clock_cache = "(int, Clock_params) cache"

text \<open>\<open>bits\<close> is the value \<open>Clock_parse_params\<close> reads for \<open>n-bit-counter\<close>, which is 1 by default.\<close>

definition Clock_init :: "common_cache_params \<Rightarrow> nat \<Rightarrow> Clock_cache" where
  "Clock_init ccache_params bits =
     (cache_struct_init ccache_params
        \<lparr>queue = [], n_bit_counter = int bits, max_freq = 2 ^ bits - 1, n_obj_rewritten = 0,
         n_byte_rewritten = 0\<rparr>)\<lparr>obj_md_size := 0\<rparr>"

definition freq_of :: "('m, 'p) cache \<Rightarrow> obj_id \<Rightarrow> 'm::zero" where
  "freq_of c i = (case table c i of None \<Rightarrow> 0 | Some x \<Rightarrow> md x)"

definition Clock_find :: "Clock_cache \<Rightarrow> request \<Rightarrow> bool \<Rightarrow> (obj_id option \<times> Clock_cache) result" where
  "Clock_find c req update_cache =
     (case cache_find_base c req update_cache of
        (None, c) \<Rightarrow> Inr (None, c)
      | (Some obj, c) \<Rightarrow>
        if update_cache then
          bindE (deref c (Some obj)) (\<lambda>x.
          if md x < max_freq (eviction_params c)
          then bindE (upd_obj c (Some obj) (\<lambda>x. x\<lparr>md := md x + 1\<rparr>)) (\<lambda>c. Inr (Some obj, c))
          else Inr (Some obj, c))
        else Inr (Some obj, c))"

definition Clock_insert :: "Clock_cache \<Rightarrow> request \<Rightarrow> (obj_id option \<times> Clock_cache) result" where
  "Clock_insert c req =
     bindE (cache_insert_base c req) (\<lambda>(obj, c).
     bindE (upd_obj (set_q c (obj # q_list c)) (Some obj) (\<lambda>x. x\<lparr>md := 0\<rparr>)) (\<lambda>c. Inr (Some obj, c)))"

text \<open>The loop of \<open>Clock_to_evict\<close>: \<open>n_round\<close> counts the times the scan has passed the head.\<close>

partial_function (option) Clock_scan ::
  "Clock_cache \<Rightarrow> int \<Rightarrow> obj_id option \<Rightarrow> obj_id option outcome" where
  "Clock_scan c n_round obj_to_evict =
     (case deref c obj_to_evict of Inl e \<Rightarrow> Some (Inl e)
      | Inr x \<Rightarrow>
        if md x - n_round \<ge> 1 then
          (case q_prev (q_list c) (the obj_to_evict) of
             None \<Rightarrow> Clock_scan c (n_round + 1) (q_tail (q_list c))
           | Some p \<Rightarrow> Clock_scan c n_round (Some p))
        else Some (Inr obj_to_evict))"

definition Clock_to_evict :: "Clock_cache \<Rightarrow> request \<Rightarrow> obj_id option outcome" where
  "Clock_to_evict c req = Clock_scan c 0 (q_tail (q_list c))"

text \<open>One round of the loop of \<open>Clock_evict\<close>: the tail object is used up by one and reinserted.\<close>

definition Clock_reinsert :: "Clock_cache \<Rightarrow> obj_id \<Rightarrow> int \<Rightarrow> Clock_cache result" where
  "Clock_reinsert c i bytes =
     bindE (upd_obj c (Some i) (\<lambda>x. x\<lparr>md := md x - 1\<rparr>)) (\<lambda>c.
     Inr ((set_q c (i # remove1 i (q_list c)))
       \<lparr>eviction_params := (eviction_params (set_q c (i # remove1 i (q_list c))))
          \<lparr>n_obj_rewritten := n_obj_rewritten (eviction_params c) + 1,
           n_byte_rewritten := n_byte_rewritten (eviction_params c) + bytes\<rparr>\<rparr>))"

partial_function (option) Clock_turn :: "Clock_cache \<Rightarrow> (obj_id \<times> Clock_cache) outcome" where
  "Clock_turn c =
     (case deref c (q_tail (q_list c)) of Inl e \<Rightarrow> Some (Inl e)
      | Inr x \<Rightarrow>
        if md x \<ge> 1 then
          (case Clock_reinsert c (the (q_tail (q_list c))) (obj_size x) of Inl e \<Rightarrow> Some (Inl e)
           | Inr c' \<Rightarrow> Clock_turn c')
        else Some (Inr (the (q_tail (q_list c)), c)))"

definition Clock_evict :: "Clock_cache \<Rightarrow> request \<Rightarrow> Clock_cache outcome" where
  "Clock_evict c req =
     bindO (Clock_turn c) (\<lambda>(obj, c).
     Some (cache_evict_base (set_q c (remove1 obj (q_list c))) (Some obj) True))"

definition Clock_remove_obj :: "Clock_cache \<Rightarrow> obj_id option \<Rightarrow> Clock_cache result" where
  "Clock_remove_obj c obj =
     (case obj of None \<Rightarrow> Inl AssertFail
      | Some i \<Rightarrow> cache_remove_obj_base (set_q c (remove1 i (q_list c))) (Some i) True)"

definition Clock_remove :: "Clock_cache \<Rightarrow> obj_id \<Rightarrow> (bool \<times> Clock_cache) result" where
  "Clock_remove c i =
     (case hashtable_find_obj_id c i of None \<Rightarrow> Inr (False, c)
      | Some obj \<Rightarrow> bindE (Clock_remove_obj c (Some obj)) (\<lambda>c. Inr (True, c)))"

definition Clock_ops :: "(int, Clock_params) cache_ops" where
  "Clock_ops =
     \<lparr>op_find = (\<lambda>c req u. Some (Clock_find c req u)),
      op_can_insert = (\<lambda>c req. Some (Inr (cache_can_insert_default c req))),
      op_insert = (\<lambda>c req. Some (Clock_insert c req)),
      op_evict = (\<lambda>c req. Clock_evict c req),
      op_to_evict = (\<lambda>c req. bindO (Clock_to_evict c req) (\<lambda>i. Some (Inr (i, c)))),
      op_remove = (\<lambda>c i. Some (Clock_remove c i)),
      op_get_occupied_byte = cache_get_occupied_byte_default,
      op_get_n_obj = cache_get_n_obj_default\<rparr>"

definition Clock_get :: "Clock_cache \<Rightarrow> request \<Rightarrow> (bool \<times> Clock_cache) outcome" where
  "Clock_get c req = cache_get_base Clock_ops c req"

section \<open>The invariant\<close>

definition freqs_ok :: "int \<Rightarrow> (obj_id \<rightharpoonup> int cache_obj) \<Rightarrow> bool" where
  "freqs_ok m t \<longleftrightarrow> 0 \<le> m \<and> (\<forall>i x. t i = Some x \<longrightarrow> 0 \<le> md x \<and> md x \<le> m)"

lemma freqs_ok_get: "freqs_ok m t \<Longrightarrow> t i = Some x \<Longrightarrow> 0 \<le> md x \<and> md x \<le> m"
  by (simp add: freqs_ok_def)

lemma freqs_ok_upd: "freqs_ok m t \<Longrightarrow> 0 \<le> md y \<Longrightarrow> md y \<le> m \<Longrightarrow> freqs_ok m (t(i \<mapsto> y))"
  by (simp add: freqs_ok_def)

lemma freqs_ok_del: "freqs_ok m t \<Longrightarrow> freqs_ok m (t(i := None))"
  by (simp add: freqs_ok_def)

lemma freqs_ok_nonneg: "freqs_ok m t \<Longrightarrow> 0 \<le> m"
  by (simp add: freqs_ok_def)

definition Clock_inv :: "Clock_cache \<Rightarrow> bool" where
  "Clock_inv c \<longleftrightarrow> cache_wf (q_list c) c \<and> freqs_ok (max_freq (eviction_params c)) (table c)"

lemma freq_of_nonneg: "Clock_inv c \<Longrightarrow> 0 \<le> freq_of c i"
  by (auto simp: freq_of_def Clock_inv_def dest: freqs_ok_get split: option.splits)

lemma Clock_inv_init: "Clock_inv (Clock_init params bits)"
  by (simp add: Clock_inv_def cache_wf_def Clock_init_def cache_struct_init_def freqs_ok_def)

lemma q_prev_first: "t \<notin> set xs \<Longrightarrow> q_prev (y # xs) t = None"
  by (induction xs arbitrary: y) auto

lemma q_prev_mid: "t \<notin> set a \<Longrightarrow> t \<noteq> s \<Longrightarrow> q_prev (a @ s # t # b) t = Some s"
proof (induction a)
  case (Cons x a)
  then show ?case by (cases a) auto
qed simp

lemma q_prev_rev:
  "distinct (pre @ t # suf) \<Longrightarrow> q_prev (rev (pre @ t # suf)) t = (case suf of [] \<Rightarrow> None | s # _ \<Rightarrow> Some s)"
  using q_prev_mid [of t "rev (tl suf)" "hd suf" "rev pre"] by (cases suf) (auto simp: q_prev_first)

lemma Clock_reinsert_ok:
  assumes "Clock_inv c" "q_list c = q @ [i]" "table c i = Some x" "1 \<le> md x"
  shows "\<exists>c'. Clock_reinsert c i (obj_size x) = Inr c' \<and> Clock_inv c' \<and> q_list c' = i # q \<and>
     table c' = (table c)(i \<mapsto> x\<lparr>md := md x - 1\<rparr>) \<and> conf c' = conf c \<and> occupied_byte c' = occupied_byte c \<and>
     admissioner c' = admissioner c"
proof -
  let ?c = "c\<lparr>table := (table c)(i \<mapsto> x\<lparr>md := md x - 1\<rparr>)\<rparr>"
  have w: "cache_wf (q @ [i]) c"
    using assms(1,2) by (simp add: Clock_inv_def)
  note d = cache_wf_distinct [OF w]
  have "cache_wf (i # q) ?c"
    by (rule cache_wf_perm [OF cache_wf_upd [OF w assms(3)]]) simp_all
  moreover have "remove1 i (q @ [i]) = q"
    using d by (simp add: remove1_append)
  moreover have "freqs_ok (max_freq (eviction_params c)) (table ?c)"
    using assms(1,3,4) freqs_ok_get [of "max_freq (eviction_params c)" "table c" i x] by (auto simp: Clock_inv_def intro!: freqs_ok_upd)
  ultimately show ?thesis
    using assms(1-3) by (auto simp: Clock_reinsert_def upd_obj_def Clock_inv_def set_q_def)
qed

text \<open>
  \<open>Clock_turn\<close> ends because it uses up the frequencies, and it stops at the object that the scan of
  \<open>Clock_to_evict\<close> finds: where the scan compares the frequency with the number of rounds, the turn has
  taken that many units from it. Seen from the tail, the queue is \<open>pre @ suf\<close> for the scan, which has
  passed \<open>pre\<close> in its present round, and \<open>suf @ pre\<close> for the turn.
\<close>

definition freq_sum :: "Clock_cache \<Rightarrow> int" where
  "freq_sum c = sum_list (map (freq_of c) (q_list c))"

definition turned :: "Clock_cache \<Rightarrow> Clock_cache \<Rightarrow> bool" where
  "turned c c' \<longleftrightarrow> Clock_inv c' \<and> mset (q_list c') = mset (q_list c) \<and> dom (table c') = dom (table c) \<and>
     conf c' = conf c \<and> occupied_byte c' = occupied_byte c \<and> admissioner c' = admissioner c"

lemma Clock_turn_scan:
  assumes "Clock_inv c" "rev (q_list c) = suf @ pre" "suf \<noteq> []" "rev (q_list c0) = pre @ suf"
    "dom (table c0) = dom (table c)"
    "\<And>j. j \<in> set suf \<Longrightarrow> freq_of c j = freq_of c0 j - r" "\<And>j. j \<in> set pre \<Longrightarrow> freq_of c j = freq_of c0 j - (r + 1)"
  shows "\<exists>i c'. Clock_turn c = Some (Inr (i, c')) \<and> turned c c' \<and> q_tail (q_list c') = Some i \<and>
     freq_of c' i = 0 \<and> Clock_scan c0 r (Some (hd suf)) = Some (Inr (Some i))"
  using assms
proof (induction "nat (freq_sum c)" arbitrary: c suf pre r rule: less_induct)
  case less
  obtain t suf' where t: "suf = t # suf'"
    using less.prems(3) by (cases suf) auto
  define q where "q = rev (suf' @ pre)"
  have q: "q_list c = q @ [t]"
    using less.prems(2) t unfolding q_def by (metis append_Cons rev_rev_ident rev.simps(2))
  have w: "cache_wf (q @ [t]) c"
    using less.prems(1) q by (simp add: Clock_inv_def)
  note d = cache_wf_distinct [OF w]
  obtain x where x: "table c t = Some x"
    using w by (rule cache_wf_lookup [of _ _ t]) simp_all
  then have x0le: "0 \<le> md x"
    using less.prems(1) by (auto simp: Clock_inv_def dest: freqs_ok_get)
  obtain x0 where x0: "table c0 t = Some x0"
    using less.prems(5) x by blast
  have f: "md x = md x0 - r"
    using less.prems(6) [of t] t x x0 by (simp add: freq_of_def)
  show ?case
  proof (cases "1 \<le> md x")
    case True
    obtain c1 where c1: "Clock_reinsert c t (obj_size x) = Inr c1" "Clock_inv c1" "q_list c1 = t # q"
        "table c1 = (table c)(t \<mapsto> x\<lparr>md := md x - 1\<rparr>)" "conf c1 = conf c" "occupied_byte c1 = occupied_byte c"
        "admissioner c1 = admissioner c"
      using Clock_reinsert_ok [OF less.prems(1) q x True] by blast
    have e: "Clock_turn c = Clock_turn c1"
      using q x True c1(1) by (subst Clock_turn.simps) (simp add: deref_def)
    have fr: "freq_of c1 j = (if j = t then freq_of c j - 1 else freq_of c j)" for j
      using c1(4) x by (simp add: freq_of_def)
    have "sum_list (map (freq_of c1) q) = sum_list (map (freq_of c) q)"
      using d by (intro sum_list_map_cong) (auto simp: fr)
    moreover have "0 \<le> sum_list (map (freq_of c) q)"
      using freq_of_nonneg [OF less.prems(1)] by (intro sum_list_nonneg) auto
    ultimately have m: "nat (freq_sum c1) < nat (freq_sum c)"
      using q c1(3) True x by (simp add: freq_sum_def fr) (simp add: freq_of_def)
    have tc: "turned c c1"
      using c1 q x by (auto simp: turned_def)
    have tr: "turned c c'" if "turned c1 c'" for c'
      using that tc by (simp add: turned_def)
    have r1: "rev (q_list c1) = suf' @ (pre @ [t])" and ds: "distinct (pre @ t # suf')"
      using c1(3) d by (auto simp: q_def)
    have dom1: "dom (table c0) = dom (table c1)"
      using tc less.prems(5) by (simp add: turned_def)
    have p: "q_prev (q_list c0) t = (case suf' of [] \<Rightarrow> None | s # _ \<Rightarrow> Some s)"
      using q_prev_rev [OF ds] less.prems(4) t by (metis rev_rev_ident)
    show ?thesis
    proof (cases suf')
      case Nil
      have "rev (q_list c0) = pre @ [t]"
        using less.prems(4) t Nil by simp
      then have "q_tail (q_list c0) = Some (hd (pre @ [t]))"
        by (cases "q_list c0 = []") (simp_all add: q_tail_def flip: hd_rev)
      then have s: "Clock_scan c0 r (Some (hd suf)) = Clock_scan c0 (r + 1) (Some (hd (pre @ [t])))"
        using t x0 f True p Nil by (subst Clock_scan.simps) (simp add: deref_def)
      have "\<exists>i c'. Clock_turn c1 = Some (Inr (i, c')) \<and> turned c1 c' \<and> q_tail (q_list c') = Some i \<and>
          freq_of c' i = 0 \<and> Clock_scan c0 (r + 1) (Some (hd (pre @ [t]))) = Some (Inr (Some i))"
      proof (rule less.hyps [OF m c1(2), of "pre @ [t]" "[]"])
        show "freq_of c1 j = freq_of c0 j - (r + 1)" if "j \<in> set (pre @ [t])" for j
          using that less.prems(6) [of t] less.prems(7) [of j] t ds by (auto simp: fr)
      qed (use r1 Nil less.prems(4) t dom1 in auto)
      then show ?thesis unfolding e s using tr by blast
    next
      case (Cons s0 rest)
      have s: "Clock_scan c0 r (Some (hd suf)) = Clock_scan c0 r (Some (hd suf'))"
        using t x0 f True p Cons by (subst Clock_scan.simps) (simp add: deref_def)
      have "\<exists>i c'. Clock_turn c1 = Some (Inr (i, c')) \<and> turned c1 c' \<and> q_tail (q_list c') = Some i \<and>
          freq_of c' i = 0 \<and> Clock_scan c0 r (Some (hd suf')) = Some (Inr (Some i))"
      proof (rule less.hyps [OF m c1(2) r1])
        show "freq_of c1 j = freq_of c0 j - r" if "j \<in> set suf'" for j
          using that less.prems(6) [of j] t ds by (auto simp: fr)
        show "freq_of c1 j = freq_of c0 j - (r + 1)" if "j \<in> set (pre @ [t])" for j
          using that less.prems(6) [of t] less.prems(7) [of j] t ds by (auto simp: fr)
      qed (use Cons less.prems(4) t dom1 in auto)
      then show ?thesis unfolding e s using tr by blast
    qed
  next
    case False
    then have "Clock_turn c = Some (Inr (t, c))" "Clock_scan c0 r (Some t) = Some (Inr (Some t))"
      using q x x0 f by (subst Clock_turn.simps Clock_scan.simps, simp add: deref_def)+
    then show ?thesis
      using False x x0le q t less.prems(1) by (auto simp: turned_def freq_of_def)
  qed
qed

lemma Clock_turn_ok:
  assumes "Clock_inv c" "dom (table c) \<noteq> {}"
  shows "\<exists>i c'. Clock_turn c = Some (Inr (i, c')) \<and> turned c c' \<and> q_tail (q_list c') = Some i \<and>
     freq_of c' i = 0 \<and> Clock_to_evict c req = Some (Inr (Some i))"
proof -
  have "q_list c \<noteq> []"
    using assms by (auto simp: Clock_inv_def cache_wf_def simp del: dom_eq_empty_conv)
  then obtain q t where q: "q_list c = q @ [t]"
    by (metis rev_exhaust)
  have "\<exists>i c'. Clock_turn c = Some (Inr (i, c')) \<and> turned c c' \<and> q_tail (q_list c') = Some i \<and>
      freq_of c' i = 0 \<and> Clock_scan c 0 (Some (hd (t # rev q))) = Some (Inr (Some i))"
    by (rule Clock_turn_scan [OF assms(1), where pre = "[]"]) (use q in simp_all)
  then show ?thesis
    using q by (simp add: Clock_to_evict_def)
qed

lemma Clock_evict_ok:
  assumes "Clock_inv c" "dom (table c) \<noteq> {}"
  shows "\<exists>i c'. Clock_to_evict c req' = Some (Inr (Some i)) \<and> i \<in> dom (table c) \<and>
     Clock_evict c req = Some (Inr c') \<and> Clock_inv c' \<and> dom (table c') = dom (table c) - {i} \<and>
     conf c' = conf c \<and> admissioner c' = admissioner c"
proof -
  obtain i d where d: "Clock_turn c = Some (Inr (i, d))" "turned c d" "q_tail (q_list d) = Some i"
      "Clock_to_evict c req' = Some (Inr (Some i))"
    using Clock_turn_ok [OF assms, of req'] by blast
  obtain q where q: "q_list d = q @ [i]"
    using d(3) by (cases "q_list d" rule: rev_cases) (auto simp: q_tail_def)
  have w: "cache_wf (q_list d) d"
    using d(2) by (simp add: turned_def Clock_inv_def)
  have n: "i \<notin> set q"
    using cache_wf_distinct [OF w] q by auto
  have "Clock_evict c req = Some (Inr (removed (set_q d q) i))"
    using d(1) q n cache_evict_base_eq [of "q @ [i]" "set_q d q" i] w
    by (simp add: Clock_evict_def remove1_append)
  moreover have "Clock_inv (removed (set_q d q) i)"
    using evict_tail_wf [OF w q] d(2) by (simp add: Clock_inv_def turned_def set_q_def freqs_ok_del)
  moreover have "i \<in> dom (table c)"
    using w q d(2) by (auto simp: cache_wf_def turned_def)
  ultimately show ?thesis
    using d(2,4) by (intro exI [of _ i] exI [of _ "removed (set_q d q) i"]) (auto simp: turned_def)
qed

lemma Clock_find_ok:
  assumes "Clock_inv c"
  shows "\<exists>c'. Clock_find c req True = Inr (if r_obj_id req \<in> dom (table c) then Some (r_obj_id req) else None, c') \<and>
     Clock_inv c' \<and> dom (table c') = dom (table c) \<and> conf c' = conf c \<and> admissioner c' = admissioner c \<and>
     occupied_byte c' = occupied_byte c \<and> q_list c' = q_list c \<and>
     freq_of c' (r_obj_id req) = (if r_obj_id req \<in> dom (table c)
       then min (max_freq (eviction_params c)) (freq_of c (r_obj_id req) + 1) else 0)"
proof (cases "table c (r_obj_id req)")
  case None
  then show ?thesis
    using assms by (simp add: Clock_find_def cache_find_base_def domIff freq_of_def)
next
  case (Some x)
  let ?i = "r_obj_id req" and ?m = "max_freq (eviction_params c)"
  let ?y = "x\<lparr>misc_next_access_vtime := r_next_access_vtime req, misc_freq := misc_freq x + 1,
    md := min ?m (md x + 1)\<rparr>"
  let ?c = "c\<lparr>table := (table c)(?i \<mapsto> ?y)\<rparr>"
  have m: "0 \<le> md x" "md x \<le> ?m"
    using assms Some freqs_ok_get [of _ "table c" "r_obj_id req" x] by (auto simp: Clock_inv_def)
  have f: "Clock_find c req True = Inr (Some ?i, ?c)"
  proof (cases "md x < ?m")
    case True
    then show ?thesis
      using Some by (simp add: Clock_find_def cache_find_base_def deref_def upd_obj_def)
  next
    case False
    then have "?y = x\<lparr>misc_next_access_vtime := r_next_access_vtime req, misc_freq := misc_freq x + 1\<rparr>"
      using m by simp
    then show ?thesis
      using Some False by (simp add: Clock_find_def cache_find_base_def deref_def)
  qed
  have "cache_wf (q_list c) ?c"
    using assms Some by (intro cache_wf_upd) (auto simp: Clock_inv_def)
  moreover have "insert ?i (dom (table c)) = dom (table c)"
    using Some by auto
  moreover have "freqs_ok ?m (table ?c)"
    using assms m by (auto simp: Clock_inv_def intro!: freqs_ok_upd)
  ultimately show ?thesis
    using f Some by (intro exI [of _ ?c]) (auto simp: Clock_inv_def freq_of_def domI)
qed

lemma Clock_insert_ok:
  assumes "Clock_inv c" "table c (r_obj_id req) = None" "req_ok c req"
  shows "\<exists>c'. Clock_insert c req = Inr (Some (r_obj_id req), c') \<and> Clock_inv c' \<and>
     dom (table c') = insert (r_obj_id req) (dom (table c)) \<and> conf c' = conf c \<and>
     eviction_params c' = (eviction_params c)\<lparr>queue := r_obj_id req # q_list c\<rparr> \<and>
     occupied_byte c' = occupied_byte c + (to_u32 (r_obj_size req) + obj_md_size c)"
proof -
  let ?c = "set_q (inserted c req) (r_obj_id req # q_list c)"
  let ?d = "?c\<lparr>table := (table ?c)(r_obj_id req \<mapsto> (new_obj req)\<lparr>md := 0\<rparr>)\<rparr>"
  have "cache_wf (r_obj_id req # q_list c) ?c"
    using cache_wf_inserted [OF _ assms(2,3)] assms(1) by (simp add: Clock_inv_def)
  then have "cache_wf (r_obj_id req # q_list c) ?d"
    by (rule cache_wf_upd [where x = "new_obj req"]) simp_all
  moreover have "Clock_insert c req = Inr (Some (r_obj_id req), ?d)"
    using assms(2) by (simp add: Clock_insert_def cache_insert_base_eq upd_obj_def)
  moreover have "freqs_ok (max_freq (eviction_params c)) (table ?d)"
    using assms(1) by (auto simp: Clock_inv_def intro!: freqs_ok_upd dest: freqs_ok_nonneg)
  ultimately show ?thesis
    by (intro exI [of _ ?d]) (auto simp: Clock_inv_def set_q_def)
qed

interpretation clock: table_cache Clock_ops Clock_inv
proof (unfold_locales, goal_cases)
  case (6 c req)
  then show ?case
    using Clock_find_ok [OF 6, of req] by (auto simp: Clock_ops_def)
next
  case (7 c req)
  then show ?case
    using Clock_insert_ok [of c req] by (auto simp: Clock_ops_def)
next
  case (8 c req)
  then obtain i c' where "i \<in> dom (table c)" "Clock_evict c req = Some (Inr c')" "Clock_inv c'"
      "dom (table c') = dom (table c) - {i}" "conf c' = conf c"
    using Clock_evict_ok [of c req req] by blast
  then show ?case
    by (intro exI [of _ c']) (auto simp: Clock_ops_def)
qed (auto simp: Clock_inv_def Clock_ops_def cache_get_occupied_byte_default_def)

section \<open>Properties\<close>

text \<open>A full cache of two bytes whose tail object has been hit once, for the examples below.\<close>

definition example_clock :: Clock_cache where
  "example_clock =
     (example_cache \<lparr>queue = [2, 1], n_bit_counter = 1, max_freq = 1, n_obj_rewritten = 0, n_byte_rewritten = 0\<rparr>)
       \<lparr>table := [1 \<mapsto> (new_obj (example_req 1 1))\<lparr>md := 1\<rparr>, 2 \<mapsto> new_obj (example_req 2 1)]\<rparr>"

lemma example_clock_inv: "Clock_inv example_clock"
  by (auto simp: Clock_inv_def cache_wf_def example_clock_def example_cache_def obj_bytes_def obj_ok_def to_u32_def freqs_ok_def)

text \<open>
  C27: \<open>Clock_get\<close> returns (the turn of the hand ends and no step fails), reports a hit exactly when the
  object was cached, keeps the invariant and the capacity bound, and after a miss holds the object
  exactly when it was admitted.
\<close>

theorem Clock_get_correct:
  assumes "Clock_inv c" "req_ok c req" "occupied_byte c \<le> cache_size c"
  shows "\<exists>c'. Clock_get c req = Some (Inr (r_obj_id req \<in> dom (table c), c')) \<and>
     Clock_inv c' \<and> occupied_byte c' \<le> cache_size c' \<and> cache_size c' = cache_size c \<and>
     n_req c' = n_req c + 1 \<and> dom (table c') \<subseteq> insert (r_obj_id req) (dom (table c)) \<and>
     (r_obj_id req \<in> dom (table c') \<longleftrightarrow> r_obj_id req \<in> dom (table c) \<or> admits_default c req) \<and>
     (r_obj_id req \<in> dom (table c) \<or> \<not> admits_default c req \<longrightarrow> dom (table c') = dom (table c))"
  unfolding Clock_get_def by (rule clock.get_table [OF assms])

theorem Clock_get_correct_witness:
  "\<exists>c'. Clock_get example_clock (example_req 3 1) = Some (Inr (False, c')) \<and> Clock_inv c' \<and>
     occupied_byte c' \<le> 2 \<and> 3 \<in> dom (table c')"
  using Clock_get_correct [OF example_clock_inv, of "example_req 3 1"]
  by (auto simp: example_clock_def example_cache_def req_ok_def to_u32_def admits_default_def)

text \<open>
  C28: \<open>Clock_to_evict\<close> and \<open>Clock_evict\<close> agree. The first looks for the victim without changing anything,
  comparing frequencies with the number of rounds; the second moves objects and uses up their
  frequencies. On a cache that is not empty both return, and the object evicted is the one announced.
\<close>

theorem Clock_to_evict_evict:
  assumes "Clock_inv c" "dom (table c) \<noteq> {}"
  shows "\<exists>i c'. Clock_to_evict c req' = Some (Inr (Some i)) \<and> i \<in> dom (table c) \<and>
     Clock_evict c req = Some (Inr c') \<and> Clock_inv c' \<and> dom (table c') = dom (table c) - {i}"
  using Clock_evict_ok [OF assms, of req' req] by blast

theorem Clock_to_evict_evict_witness:
  "\<exists>i c'. Clock_to_evict example_clock new_request = Some (Inr (Some i)) \<and> i \<in> {1, 2} \<and>
     Clock_evict example_clock new_request = Some (Inr c') \<and> dom (table c') = {1, 2} - {i}"
  using Clock_to_evict_evict [OF example_clock_inv, of new_request new_request]
  by (auto simp: example_clock_def)

lemma Clock_scan_zero:
  assumes "cache_wf (q_list c) c" "q_list c = a @ v # b @ d" "freq_of c v = 0" "\<forall>j \<in> set b. 1 \<le> freq_of c j"
  shows "Clock_scan c 0 (Some (last (v # b))) = Some (Inr (Some v))"
  using assms(2,4)
proof (induction b arbitrary: d rule: rev_induct)
  case Nil
  obtain x where "table c v = Some x"
    using assms(1) Nil(1) cache_wf_lookup [of "q_list c" c v] by auto
  then show ?case
    using assms(3) by (subst Clock_scan.simps) (simp add: deref_def freq_of_def)
next
  case (snoc j b)
  obtain x where x: "table c j = Some x"
    using assms(1) snoc.prems(1) cache_wf_lookup [of "q_list c" c j] by auto
  have ds: "distinct (q_list c)"
    by (rule cache_wf_distinct [OF assms(1)])
  have q: "q_list c = (a @ butlast (v # b)) @ last (v # b) # j # d"
    using snoc.prems(1) append_butlast_last_id [of "v # b"]
    by (metis append.assoc append_Cons append_Nil list.distinct(1))
  have "j \<notin> set (a @ butlast (v # b))" "j \<noteq> last (v # b)"
    using ds unfolding q by auto
  then have "q_prev (q_list c) j = Some (last (v # b))"
    unfolding q by (rule q_prev_mid)
  moreover have "1 \<le> md x"
    using snoc.prems(2) x by (simp add: freq_of_def)
  ultimately have "Clock_scan c 0 (Some j) = Clock_scan c 0 (Some (last (v # b)))"
    using x by (subst Clock_scan.simps) (simp add: deref_def)
  then show ?case
    using snoc.IH [of "j # d"] snoc.prems by simp
qed

text \<open>
  C29: second chance. When some object has used up its hits, the victim is the one of them nearest to the
  tail: every object behind it, which has been hit, is spared.
\<close>

theorem Clock_second_chance:
  assumes "Clock_inv c" "q_list c = a @ v # b" "freq_of c v = 0" "\<forall>j \<in> set b. 1 \<le> freq_of c j"
  shows "\<exists>c'. Clock_evict c req = Some (Inr c') \<and> dom (table c') = dom (table c) - {v}"
proof -
  have w: "cache_wf (q_list c) c"
    using assms(1) by (simp add: Clock_inv_def)
  have "q_tail (q_list c) = Some (last (v # b))"
    using assms(2) by (simp add: q_tail_def)
  then have "Clock_to_evict c req = Some (Inr (Some v))"
    using Clock_scan_zero [OF w, of a v b "[]"] assms(2-4) by (simp add: Clock_to_evict_def)
  moreover have "dom (table c) \<noteq> {}"
    using w assms(2) by (auto simp: cache_wf_def simp del: dom_eq_empty_conv)
  ultimately show ?thesis
    using Clock_evict_ok [OF assms(1), of req req] by auto
qed

theorem Clock_second_chance_witness:
  "\<exists>c'. Clock_evict example_clock new_request = Some (Inr c') \<and> dom (table c') = {1}"
  using Clock_second_chance [OF example_clock_inv, of "[]" 2 "[1]" new_request]
  by (auto simp: example_clock_def example_cache_def freq_of_def)

end
