(* ===== verification/Sieve.thy ===== *)
theory Sieve
  imports Clock
begin

text \<open>
  The Sieve cache of \<open>cache/eviction/Sieve.c\<close>: a FIFO queue with a hand (\<open>pointer\<close>) that walks from the
  tail towards the head, takes the mark of every object it passes and evicts the first unmarked one.
  The metadata of an object is its \<open>sieve.freq\<close>.
\<close>

section \<open>Operations\<close>

record Sieve_params = queue_params +
  pointer :: "obj_id option"

type_synonym Sieve_cache = "(int, Sieve_params) cache"

definition Sieve_init :: "common_cache_params \<Rightarrow> Sieve_cache" where
  "Sieve_init ccache_params =
     (cache_struct_init ccache_params \<lparr>queue = [], pointer = None\<rparr>)
       \<lparr>obj_md_size := (if cp_consider_obj_metadata ccache_params then 1 else 0)\<rparr>"

definition Sieve_find :: "Sieve_cache \<Rightarrow> request \<Rightarrow> bool \<Rightarrow> (obj_id option \<times> Sieve_cache) result" where
  "Sieve_find c req update_cache =
     (case cache_find_base c req update_cache of
        (None, c) \<Rightarrow> Inr (None, c)
      | (Some obj, c) \<Rightarrow>
        if update_cache
        then bindE (upd_obj c (Some obj) (\<lambda>x. x\<lparr>md := 1\<rparr>)) (\<lambda>c. Inr (Some obj, c))
        else Inr (Some obj, c))"

definition Sieve_insert :: "Sieve_cache \<Rightarrow> request \<Rightarrow> (obj_id option \<times> Sieve_cache) result" where
  "Sieve_insert c req =
     bindE (cache_insert_base c req) (\<lambda>(obj, c).
     bindE (upd_obj (set_q c (obj # q_list c)) (Some obj) (\<lambda>x. x\<lparr>md := 0\<rparr>)) (\<lambda>c. Inr (Some obj, c)))"

text \<open>
  \<open>Sieve_walk c f q\<close> is \<open>while (pointer != NULL && pointer->sieve.freq > f) pointer = pointer->queue.prev\<close>,
  where \<open>q\<close> holds the objects from \<open>pointer\<close> to the head.
\<close>

fun Sieve_walk :: "Sieve_cache \<Rightarrow> int \<Rightarrow> obj_id list \<Rightarrow> obj_id option result" where
  "Sieve_walk c f [] = Inr None"
| "Sieve_walk c f (i # q) =
     bindE (deref c (Some i)) (\<lambda>x. if md x > f then Sieve_walk c f q else Inr (Some i))"

text \<open>The objects from \<open>p\<close> (or from the tail, if \<open>p\<close> is null) to the head, in the order of the walk.\<close>

definition from_hand :: "obj_id list \<Rightarrow> obj_id option \<Rightarrow> obj_id list" where
  "from_hand q p = (case p of None \<Rightarrow> rev q | Some i \<Rightarrow> dropWhile (\<lambda>j. j \<noteq> i) (rev q))"

definition Sieve_to_evict_with_freq :: "Sieve_cache \<Rightarrow> request \<Rightarrow> int \<Rightarrow> obj_id option result" where
  "Sieve_to_evict_with_freq c req to_evict_freq =
     bindE (Sieve_walk c to_evict_freq (from_hand (q_list c) (pointer (eviction_params c)))) (\<lambda>p.
     case p of Some i \<Rightarrow> Inr (Some i)
     | None \<Rightarrow> Sieve_walk c to_evict_freq (rev (q_list c)))"

text \<open>The loop of \<open>Sieve_to_evict\<close>, which raises the frequency it accepts until an object is found.\<close>

partial_function (option) Sieve_raise :: "Sieve_cache \<Rightarrow> request \<Rightarrow> int \<Rightarrow> obj_id option outcome" where
  "Sieve_raise c req to_evict_freq =
     (case Sieve_to_evict_with_freq c req to_evict_freq of Inl e \<Rightarrow> Some (Inl e)
      | Inr None \<Rightarrow> Sieve_raise c req (to_evict_freq + 1)
      | Inr (Some i) \<Rightarrow> Some (Inr (Some i)))"

definition Sieve_to_evict :: "Sieve_cache \<Rightarrow> request \<Rightarrow> obj_id option outcome" where
  "Sieve_to_evict c req = Sieve_raise c req 0"

text \<open>The loop of \<open>Sieve_evict\<close>.\<close>

partial_function (option) Sieve_turn :: "Sieve_cache \<Rightarrow> obj_id option \<Rightarrow> (obj_id \<times> Sieve_cache) outcome" where
  "Sieve_turn c obj =
     (case deref c obj of Inl e \<Rightarrow> Some (Inl e)
      | Inr x \<Rightarrow>
        if md x > 0 then
          (case upd_obj c obj (\<lambda>x. x\<lparr>md := md x - 1\<rparr>) of Inl e \<Rightarrow> Some (Inl e)
           | Inr c' \<Rightarrow>
             Sieve_turn c' (case q_prev (q_list c') (the obj) of None \<Rightarrow> q_tail (q_list c') | Some p \<Rightarrow> Some p))
        else Some (Inr (the obj, c)))"

definition set_pointer :: "Sieve_cache \<Rightarrow> obj_id option \<Rightarrow> Sieve_cache" where
  "set_pointer c p = c\<lparr>eviction_params := (eviction_params c)\<lparr>pointer := p\<rparr>\<rparr>"

definition Sieve_evict :: "Sieve_cache \<Rightarrow> request \<Rightarrow> Sieve_cache outcome" where
  "Sieve_evict c req =
     (let obj = (case pointer (eviction_params c) of None \<Rightarrow> q_tail (q_list c) | Some i \<Rightarrow> Some i) in
      bindO (Sieve_turn c obj) (\<lambda>(obj, c).
      let c = set_pointer c (q_prev (q_list c) obj) in
      Some (cache_evict_base (set_q c (remove1 obj (q_list c))) (Some obj) True)))"

definition Sieve_remove_obj :: "Sieve_cache \<Rightarrow> obj_id option \<Rightarrow> Sieve_cache result" where
  "Sieve_remove_obj c obj_to_remove =
     (case obj_to_remove of None \<Rightarrow> Inl AssertFail
      | Some i \<Rightarrow>
        let c = (if Some i = pointer (eviction_params c) then set_pointer c (q_prev (q_list c) i) else c)
        in cache_remove_obj_base (set_q c (remove1 i (q_list c))) (Some i) True)"

definition Sieve_remove :: "Sieve_cache \<Rightarrow> obj_id \<Rightarrow> (bool \<times> Sieve_cache) result" where
  "Sieve_remove c i =
     (case hashtable_find_obj_id c i of None \<Rightarrow> Inr (False, c)
      | Some obj \<Rightarrow> bindE (Sieve_remove_obj c (Some obj)) (\<lambda>c. Inr (True, c)))"

text \<open>The walk of \<open>Sieve_verify\<close> and its assertions.\<close>

fun Sieve_count :: "Sieve_cache \<Rightarrow> obj_id list \<Rightarrow> (int \<times> int) result" where
  "Sieve_count c [] = Inr (0, 0)"
| "Sieve_count c (i # q) =
     (case table c i of None \<Rightarrow> Inl AssertFail
      | Some x \<Rightarrow> bindE (Sieve_count c q) (\<lambda>(n, b). Inr (n + 1, b + obj_size x)))"

definition Sieve_verify :: "Sieve_cache \<Rightarrow> unit result" where
  "Sieve_verify c =
     bindE (Sieve_count c (q_list c)) (\<lambda>(n, b).
     if n = cache_get_n_obj_default c \<and> b = cache_get_occupied_byte_default c then Inr () else Inl AssertFail)"

definition Sieve_ops :: "(int, Sieve_params) cache_ops" where
  "Sieve_ops =
     \<lparr>op_find = (\<lambda>c req u. Some (Sieve_find c req u)),
      op_can_insert = (\<lambda>c req. Some (Inr (cache_can_insert_default c req))),
      op_insert = (\<lambda>c req. Some (Sieve_insert c req)),
      op_evict = Sieve_evict,
      op_to_evict = (\<lambda>c req. bindO (Sieve_to_evict c req) (\<lambda>i. Some (Inr (i, c)))),
      op_remove = (\<lambda>c i. Some (Sieve_remove c i)),
      op_get_occupied_byte = cache_get_occupied_byte_default,
      op_get_n_obj = cache_get_n_obj_default\<rparr>"

definition Sieve_get :: "Sieve_cache \<Rightarrow> request \<Rightarrow> (bool \<times> Sieve_cache) outcome" where
  "Sieve_get c req = cache_get_base Sieve_ops c req"

section \<open>The hand\<close>

text \<open>The order in which the hand visits the queue when it stands at \<open>i\<close>.\<close>

definition hand_order :: "obj_id list \<Rightarrow> obj_id \<Rightarrow> obj_id list" where
  "hand_order q i = dropWhile (\<lambda>j. j \<noteq> i) (rev q) @ takeWhile (\<lambda>j. j \<noteq> i) (rev q)"

definition hand_next :: "obj_id list \<Rightarrow> obj_id \<Rightarrow> obj_id option" where
  "hand_next q i = (case q_prev q i of None \<Rightarrow> q_tail q | Some p \<Rightarrow> Some p)"

lemma hand_order_split: "rev q = pre @ i # suf \<Longrightarrow> i \<notin> set pre \<Longrightarrow> hand_order q i = i # suf @ pre"
proof -
  assume "rev q = pre @ i # suf" "i \<notin> set pre"
  moreover from this have "dropWhile (\<lambda>j. j \<noteq> i) pre = []" "takeWhile (\<lambda>j. j \<noteq> i) pre = pre"
    by (auto simp: dropWhile_eq_Nil_conv takeWhile_eq_all_conv)
  ultimately show ?thesis
    by (simp add: hand_order_def dropWhile_append takeWhile_append)
qed

lemma hand_next_order:
  assumes "distinct q" "i \<in> set q" "hand_order q i = i' # r"
  shows "i' = i" "hand_next q i = Some (hd (r @ [i]))" "hand_order q (hd (r @ [i])) = r @ [i]"
proof -
  obtain pre suf where p: "rev q = pre @ i # suf" "i \<notin> set pre"
    using assms(2) by (metis set_rev split_list_first)
  have d: "distinct (pre @ i # suf)"
    using assms(1) p(1) by (metis distinct_rev)
  have o: "hand_order q i = i # suf @ pre"
    by (rule hand_order_split [OF p])
  then have r: "i' = i" "r = suf @ pre"
    using assms(3) by auto
  show "i' = i" by (rule r(1))
  have v: "q_prev q i = (case suf of [] \<Rightarrow> None | s # _ \<Rightarrow> Some s)"
    using q_prev_rev [OF d] p(1) by (metis rev_rev_ident)
  have t: "q_tail q = Some (hd (rev q))"
    using assms(2) by (cases "q = []") (simp_all add: q_tail_def hd_rev)
  show "hand_next q i = Some (hd (r @ [i]))"
    using v t p(1) r(2) by (cases suf) (auto simp: hand_next_def)
  show "hand_order q (hd (r @ [i])) = r @ [i]"
  proof (cases suf)
    case Nil
    show ?thesis
    proof (cases pre)
      case (Cons a pre')
      have "hand_order q a = a # (pre' @ [i]) @ []"
        by (rule hand_order_split) (use p(1) Nil Cons in simp_all)
      then show ?thesis using Nil Cons r by simp
    qed (use Nil o r in simp)
  next
    case (Cons a suf')
    have "hand_order q a = a # suf' @ (pre @ [i])"
      by (rule hand_order_split) (use p(1) d Cons in auto)
    then show ?thesis using Cons r by simp
  qed
qed

lemma hand_order_set:
  assumes "i \<in> set q"
  shows "set (hand_order q i) = set q" "hand_order q i \<noteq> []" "hd (hand_order q i) = i"
    "distinct q \<Longrightarrow> distinct (hand_order q i)"
proof -
  obtain pre suf where p: "rev q = pre @ i # suf" "i \<notin> set pre"
    using assms by (metis set_rev split_list_first)
  have o: "hand_order q i = i # suf @ pre"
    by (rule hand_order_split [OF p])
  have "set q = set (pre @ i # suf)"
    using p(1) by (metis set_rev)
  then show "set (hand_order q i) = set q" "hand_order q i \<noteq> []" "hd (hand_order q i) = i"
    using o by auto
  assume "distinct q"
  then have "distinct (pre @ i # suf)"
    using p(1) by (metis distinct_rev)
  then show "distinct (hand_order q i)"
    using o by auto
qed

text \<open>Taking one unit from the mark of each object of \<open>A\<close>.\<close>

definition unmark :: "obj_id set \<Rightarrow> Sieve_cache \<Rightarrow> Sieve_cache" where
  "unmark A c = c\<lparr>table := (\<lambda>j. if j \<in> A then map_option (\<lambda>x. x\<lparr>md := md x - 1\<rparr>) (table c j) else table c j)\<rparr>"

lemma unmark_simps [simp]:
  "eviction_params (unmark A c) = eviction_params c" "n_req (unmark A c) = n_req c"
  "cache_size (unmark A c) = cache_size c" "obj_md_size (unmark A c) = obj_md_size c"
  "admissioner (unmark A c) = admissioner c" "occupied_byte (unmark A c) = occupied_byte c"
  "dom (table (unmark A c)) = dom (table c)" "unmark {} c = c"
  by (auto simp: unmark_def dom_def)

lemma unmark_freq:
  "j \<in> dom (table c) \<Longrightarrow> freq_of (unmark A c) j = (if j \<in> A then freq_of c j - 1 else freq_of c j)"
  by (auto simp: unmark_def freq_of_def)

lemma unmark_unmark: "A \<inter> B = {} \<Longrightarrow> unmark A (unmark B c) = unmark (A \<union> B) c"
  by (rule cache.equality) (auto simp: unmark_def fun_eq_iff)

lemma upd_obj_unmark: "table c i \<noteq> None \<Longrightarrow> upd_obj c (Some i) (\<lambda>x. x\<lparr>md := md x - 1\<rparr>) = Inr (unmark {i} c)"
  by (auto simp: upd_obj_def intro!: cache.equality) (auto simp: unmark_def fun_eq_iff)

lemma Sieve_turn_step:
  assumes "distinct (q_list c)" "set (q_list c) = dom (table c)" "i \<in> set (q_list c)" "hand_order (q_list c) i = a @ b"
    "\<forall>j \<in> set a. 0 < freq_of c j"
  shows "Sieve_turn c (Some i) = Sieve_turn (unmark (set a) c) (Some (hd (b @ a))) \<and>
     hand_order (q_list c) (hd (b @ a)) = b @ a"
  using assms
proof (induction a arbitrary: c i b)
  case Nil
  then show ?case using hand_order_set [of i "q_list c"] by simp
next
  case (Cons j a)
  note n = hand_next_order [OF Cons.prems(1,3) Cons.prems(4) [unfolded append_Cons]]
  let ?c = "unmark {i} c" and ?n = "hd ((a @ b) @ [i])"
  have i: "table c i \<noteq> None" "0 < freq_of c i"
    using Cons.prems(2,3,5) n(1) by auto
  have d: "distinct (hand_order (q_list c) i)"
    by (rule hand_order_set(4) [OF Cons.prems(3,1)])
  then have ia: "i \<notin> set a"
    using Cons.prems(4) n(1) by auto
  have "Sieve_turn c (Some i) = Sieve_turn ?c (Some ?n)"
    using i upd_obj_unmark [OF i(1)] n(2) unfolding hand_next_def
    by (subst Sieve_turn.simps) (auto simp: deref_def freq_of_def split: option.splits)
  moreover have "Sieve_turn ?c (Some ?n) = Sieve_turn (unmark (set a) ?c) (Some (hd ((b @ [i]) @ a))) \<and>
      hand_order (q_list ?c) (hd ((b @ [i]) @ a)) = (b @ [i]) @ a"
  proof (rule Cons.IH)
    have "set (hand_order (q_list c) i) = set (q_list c)"
      by (rule hand_order_set(1) [OF Cons.prems(3)])
    then show "?n \<in> set (q_list ?c)"
      using Cons.prems(4) n(1) by (cases "a @ b") auto
    show "\<forall>j \<in> set a. 0 < freq_of ?c j"
    proof
      fix k assume k: "k \<in> set a"
      then have "k \<in> dom (table c)"
        using \<open>set (hand_order (q_list c) i) = set (q_list c)\<close> Cons.prems(2,4) by auto
      then show "0 < freq_of ?c k"
        using k ia Cons.prems(5) by (auto simp: unmark_freq)
    qed
  qed (use Cons.prems n(3) in auto)
  moreover have "unmark (set a) ?c = unmark (set (j # a)) c"
    using ia n(1) unmark_unmark [of "set a" "{i}" c] by (simp add: insert_commute)
  ultimately show ?case
    using n(1) by simp
qed

section \<open>The invariant\<close>

text \<open>Marks are 0 or 1, and the hand stands on a cached object.\<close>

definition Sieve_inv :: "Sieve_cache \<Rightarrow> bool" where
  "Sieve_inv c \<longleftrightarrow> cache_wf (q_list c) c \<and> freqs_ok 1 (table c) \<and>
     (case pointer (eviction_params c) of None \<Rightarrow> True | Some i \<Rightarrow> i \<in> set (q_list c))"

lemma Sieve_inv_init: "Sieve_inv (Sieve_init params)"
  by (simp add: Sieve_inv_def cache_wf_def Sieve_init_def cache_struct_init_def freqs_ok_def)

lemma Sieve_inv_q:
  assumes "Sieve_inv c"
  shows "distinct (q_list c)" "set (q_list c) = dom (table c)"
  using assms by (auto simp: Sieve_inv_def cache_wf_def)

lemma Sieve_inv_freq: "Sieve_inv c \<Longrightarrow> freq_of c j = 0 \<or> freq_of c j = 1"
proof -
  assume "Sieve_inv c"
  then have "freqs_ok 1 (table c)"
    by (simp add: Sieve_inv_def)
  then show ?thesis
    using freqs_ok_get [of 1 "table c" j] by (cases "table c j") (auto simp: freq_of_def)
qed

text \<open>Where the hand starts, and which object it stops at.\<close>

definition hand_start :: "Sieve_cache \<Rightarrow> obj_id" where
  "hand_start c = (case pointer (eviction_params c) of None \<Rightarrow> last (q_list c) | Some i \<Rightarrow> i)"

definition hand_victim :: "Sieve_cache \<Rightarrow> obj_id" where
  "hand_victim c = (case filter (\<lambda>j. freq_of c j = 0) (hand_order (q_list c) (hand_start c)) of
     [] \<Rightarrow> hand_start c | v # _ \<Rightarrow> v)"

lemma hand_start_mem: "Sieve_inv c \<Longrightarrow> q_list c \<noteq> [] \<Longrightarrow> hand_start c \<in> set (q_list c)"
  by (auto simp: Sieve_inv_def hand_start_def split: option.splits)

lemma unmark_inv:
  assumes "Sieve_inv c" "\<forall>j \<in> A. freq_of c j = 1"
  shows "Sieve_inv (unmark A c)"
proof -
  have w: "cache_wf (q_list c) c" "freqs_ok 1 (table c)"
    using assms(1) by (auto simp: Sieve_inv_def)
  have "obj_bytes (unmark A c) = obj_bytes c"
    by (auto simp: obj_bytes_def unmark_def fun_eq_iff split: option.splits)
  then have "cache_wf (q_list c) (unmark A c)"
    using w(1) unmark_simps(7) [of A c]
    by (auto simp: cache_wf_def simp del: unmark_simps(7)) (auto simp: unmark_def obj_ok_def split: if_splits)
  moreover have "freqs_ok 1 (table (unmark A c))"
    using w(2) assms(2) by (auto simp: freqs_ok_def unmark_def freq_of_def split: if_splits)
  ultimately show ?thesis
    using assms(1) by (auto simp: Sieve_inv_def split: option.splits)
qed

lemma Sieve_turn_ok:
  assumes "Sieve_inv c" "q_list c \<noteq> []"
  shows "\<exists>A. Sieve_turn c (Some (hand_start c)) = Some (Inr (hand_victim c, unmark A c)) \<and>
     hand_victim c \<in> set (q_list c) \<and> (\<forall>j \<in> A. freq_of c j = 1) \<and> freq_of (unmark A c) (hand_victim c) = 0"
proof -
  let ?i = "hand_start c" and ?xs = "hand_order (q_list c) (hand_start c)"
  note q = Sieve_inv_q [OF assms(1)] and i = hand_start_mem [OF assms]
  note o = hand_order_set [OF i]
  have stop: "Sieve_turn d (Some v) = Some (Inr (v, d))" if "v \<in> dom (table d)" "freq_of d v = 0" for d v
    using that by (subst Sieve_turn.simps) (auto simp: deref_def freq_of_def)
  show ?thesis
  proof (cases "\<exists>j \<in> set ?xs. freq_of c j = 0")
    case True
    obtain a v b where s: "?xs = a @ v # b" "freq_of c v = 0" "\<forall>j \<in> set a. freq_of c j \<noteq> 0"
      using split_list_first_prop [OF True] by blast
    have one: "\<forall>j \<in> set a. freq_of c j = 1"
      using s(3) Sieve_inv_freq [OF assms(1)] by blast
    have v: "hand_victim c = v"
      using s by (simp add: hand_victim_def)
    have m: "v \<in> set (q_list c)" "v \<notin> set a"
      using o(1) o(4) [OF q(1)] s(1) by auto
    have f: "freq_of (unmark (set a) c) v = 0"
      using m q(2) s(2) by (subst unmark_freq) auto
    have "Sieve_turn c (Some ?i) = Sieve_turn (unmark (set a) c) (Some v)"
      using Sieve_turn_step [OF q i s(1)] one by auto
    then show ?thesis
      using stop [OF _ f] m q(2) one v f by (intro exI [of _ "set a"]) auto
  next
    case False
    then have one: "\<forall>j \<in> set ?xs. freq_of c j = 1"
      using Sieve_inv_freq [OF assms(1)] by blast
    have v: "hand_victim c = ?i"
      using False by (simp add: hand_victim_def filter_empty_conv)
    have f: "freq_of (unmark (set ?xs) c) ?i = 0"
      using i q(2) one o(1) by (subst unmark_freq) auto
    have "Sieve_turn c (Some ?i) = Sieve_turn (unmark (set ?xs) c) (Some ?i)"
      using Sieve_turn_step [OF q i, of ?xs "[]"] one o(3) by auto
    then show ?thesis
      using stop [OF _ f] i q(2) one v f by (intro exI [of _ "set ?xs"]) auto
  qed
qed

lemma Sieve_walk_eq:
  "set xs \<subseteq> dom (table c) \<Longrightarrow>
   Sieve_walk c f xs = Inr (case filter (\<lambda>j. freq_of c j \<le> f) xs of [] \<Rightarrow> None | v # _ \<Rightarrow> Some v)"
  by (induction xs) (auto simp: deref_def freq_of_def)

lemma Sieve_to_evict_ok:
  assumes "Sieve_inv c" "q_list c \<noteq> []"
  shows "Sieve_to_evict c req = Some (Inr (Some (hand_victim c)))"
proof -
  let ?i = "hand_start c" and ?h = "from_hand (q_list c) (pointer (eviction_params c))"
  note q = Sieve_inv_q [OF assms(1)] and i = hand_start_mem [OF assms]
  obtain pre suf where p: "rev (q_list c) = pre @ ?i # suf" "?i \<notin> set pre"
    using i by (metis set_rev split_list_first)
  have xs: "hand_order (q_list c) ?i = ?i # suf @ pre"
    by (rule hand_order_split [OF p])
  have h: "?h = ?i # suf"
  proof (cases "pointer (eviction_params c)")
    case None
    then have "rev (q_list c) = ?i # tl (rev (q_list c))"
      using assms(2) by (simp add: hand_start_def flip: hd_rev)
    then have "pre = []"
      using p by (cases pre) (simp_all del: set_simps, simp add: list.set_intros)
    then show ?thesis using p(1) None by (simp add: from_hand_def)
  next
    case (Some j)
    then have "dropWhile (\<lambda>k. k \<noteq> ?i) pre = []"
      using p(2) by (simp add: dropWhile_eq_Nil_conv) metis
    then show ?thesis
      using Some p(1) by (simp add: from_hand_def hand_start_def dropWhile_append)
  qed
  have "set (rev (q_list c)) = set (pre @ ?i # suf)"
    by (simp only: p(1))
  then have sub: "set (rev (q_list c)) \<subseteq> dom (table c)" "set (?i # suf) \<subseteq> dom (table c)"
    using q(2) by auto
  have w: "Sieve_walk c f (?i # suf) = Inr (case filter (\<lambda>j. freq_of c j \<le> f) (?i # suf) of [] \<Rightarrow> None | v # _ \<Rightarrow> Some v)"
      "Sieve_walk c f (rev (q_list c)) = Inr (case filter (\<lambda>j. freq_of c j \<le> f) (rev (q_list c)) of [] \<Rightarrow> None | v # _ \<Rightarrow> Some v)" for f
    using Sieve_walk_eq sub by blast+
  have z: "(freq_of c j \<le> 0) = (freq_of c j = 0)" "freq_of c j \<le> 1" for j
    using Sieve_inv_freq [OF assms(1), of j] by auto
  have zero: "Sieve_to_evict_with_freq c req 0 =
      Inr (case filter (\<lambda>j. freq_of c j = 0) (hand_order (q_list c) ?i) of [] \<Rightarrow> None | v # _ \<Rightarrow> Some v)"
    unfolding Sieve_to_evict_with_freq_def h p(1) w [unfolded p(1)] z(1) xs by (auto split: list.splits)
  have one: "Sieve_to_evict_with_freq c req 1 = Inr (Some ?i)"
    unfolding Sieve_to_evict_with_freq_def h w by (simp add: z(2))
  show ?thesis
    unfolding Sieve_to_evict_def
    by (subst Sieve_raise.simps, subst Sieve_raise.simps)
      (simp add: zero one hand_victim_def split: list.splits)
qed

lemma q_prev_mem: "q_prev q i = Some p \<Longrightarrow> p \<in> set q \<and> (distinct q \<longrightarrow> p \<noteq> i)"
  by (induction q i rule: q_prev.induct) (auto split: if_splits)

lemma Sieve_evict_ok:
  assumes "Sieve_inv c" "dom (table c) \<noteq> {}"
  shows "\<exists>c'. Sieve_to_evict c req' = Some (Inr (Some (hand_victim c))) \<and> hand_victim c \<in> dom (table c) \<and>
     Sieve_evict c req = Some (Inr c') \<and> Sieve_inv c' \<and> dom (table c') = dom (table c) - {hand_victim c} \<and>
     conf c' = conf c"
proof -
  let ?v = "hand_victim c"
  have ne: "q_list c \<noteq> []"
    using assms(2) Sieve_inv_q(2) [OF assms(1)] by (metis empty_set)
  obtain A where A: "Sieve_turn c (Some (hand_start c)) = Some (Inr (?v, unmark A c))" "?v \<in> set (q_list c)"
      "\<forall>j \<in> A. freq_of c j = 1"
    using Sieve_turn_ok [OF assms(1) ne] by blast
  let ?d = "set_pointer (unmark A c) (q_prev (q_list c) ?v)"
  let ?q = "remove1 ?v (q_list c)"
  have inv: "Sieve_inv (unmark A c)"
    by (rule unmark_inv [OF assms(1) A(3)])
  then have w: "cache_wf (q_list c) (unmark A c)"
    by (simp add: Sieve_inv_def)
  have e: "set_q ?d ?q = unmark A c\<lparr>eviction_params := (eviction_params c)\<lparr>queue := ?q, pointer := q_prev (q_list c) ?v\<rparr>\<rparr>"
    by (simp add: set_q_def set_pointer_def)
  have s: "Sieve_evict c req = Some (cache_evict_base (set_q ?d ?q) (Some ?v) True)"
    using A(1) ne by (simp add: Sieve_evict_def Let_def hand_start_def q_tail_def set_pointer_def split: option.splits)
  have wd: "cache_wf (q_list c) (set_q ?d ?q)"
    unfolding e using w by simp
  then have s': "Sieve_evict c req = Some (Inr (removed (set_q ?d ?q) ?v))"
    using s cache_evict_base_eq [OF wd A(2)] by simp
  have p: "case q_prev (q_list c) ?v of None \<Rightarrow> True | Some i \<Rightarrow> i \<in> set ?q"
    using q_prev_mem [of "q_list c" ?v] Sieve_inv_q(1) [OF assms(1)] by (auto split: option.splits)
  have "Sieve_inv (removed (set_q ?d ?q) ?v)"
    using cache_wf_removed [OF wd A(2)] inv p unfolding e
    by (auto simp: Sieve_inv_def freqs_ok_del cong: option.case_cong)
  moreover have "conf (removed (set_q ?d ?q) ?v) = conf c" "dom (table (removed (set_q ?d ?q) ?v)) = dom (table c) - {?v}"
    unfolding e by auto
  ultimately show ?thesis
    using Sieve_to_evict_ok [OF assms(1) ne] s' A(2) Sieve_inv_q(2) [OF assms(1)] by auto
qed

lemma Sieve_find_ok:
  assumes "Sieve_inv c"
  shows "\<exists>c'. Sieve_find c req True = Inr (if r_obj_id req \<in> dom (table c) then Some (r_obj_id req) else None, c') \<and>
     Sieve_inv c' \<and> dom (table c') = dom (table c) \<and> conf c' = conf c \<and> admissioner c' = admissioner c \<and>
     occupied_byte c' = occupied_byte c \<and> eviction_params c' = eviction_params c"
proof (cases "table c (r_obj_id req)")
  case None
  then show ?thesis
    using assms by (simp add: Sieve_find_def cache_find_base_def domIff)
next
  case (Some x)
  let ?i = "r_obj_id req"
  let ?y = "x\<lparr>misc_next_access_vtime := r_next_access_vtime req, misc_freq := misc_freq x + 1, md := 1\<rparr>"
  let ?c = "c\<lparr>table := (table c)(?i \<mapsto> ?y)\<rparr>"
  have "Sieve_find c req True = Inr (Some ?i, ?c)"
    using Some by (simp add: Sieve_find_def cache_find_base_def upd_obj_def)
  moreover have "cache_wf (q_list c) ?c"
    using assms Some by (intro cache_wf_upd) (auto simp: Sieve_inv_def)
  moreover have "insert ?i (dom (table c)) = dom (table c)"
    using Some by auto
  moreover have "freqs_ok 1 (table ?c)"
    using assms by (auto simp: Sieve_inv_def intro!: freqs_ok_upd)
  ultimately show ?thesis
    using Some assms by (intro exI [of _ ?c]) (auto simp: Sieve_inv_def domI cong: option.case_cong)
qed

lemma Sieve_insert_ok:
  assumes "Sieve_inv c" "table c (r_obj_id req) = None" "req_ok c req"
  shows "\<exists>c'. Sieve_insert c req = Inr (Some (r_obj_id req), c') \<and> Sieve_inv c' \<and>
     dom (table c') = insert (r_obj_id req) (dom (table c)) \<and> conf c' = conf c \<and>
     occupied_byte c' = occupied_byte c + (to_u32 (r_obj_size req) + obj_md_size c)"
proof -
  let ?c = "set_q (inserted c req) (r_obj_id req # q_list c)"
  let ?d = "?c\<lparr>table := (table ?c)(r_obj_id req \<mapsto> (new_obj req)\<lparr>md := 0\<rparr>)\<rparr>"
  have "cache_wf (r_obj_id req # q_list c) ?c"
    using cache_wf_inserted [OF _ assms(2,3)] assms(1) by (simp add: Sieve_inv_def)
  then have "cache_wf (r_obj_id req # q_list c) ?d"
    by (rule cache_wf_upd [where x = "new_obj req"]) simp_all
  moreover have "Sieve_insert c req = Inr (Some (r_obj_id req), ?d)"
    using assms(2) by (simp add: Sieve_insert_def cache_insert_base_eq upd_obj_def)
  moreover have "freqs_ok 1 (table ?d)"
    using assms(1) by (auto simp: Sieve_inv_def intro!: freqs_ok_upd)
  ultimately show ?thesis
    using assms(1) by (intro exI [of _ ?d]) (auto simp: Sieve_inv_def set_q_def split: option.splits)
qed

interpretation sieve: table_cache Sieve_ops Sieve_inv
proof (unfold_locales, goal_cases)
  case (6 c req)
  then show ?case
    using Sieve_find_ok [OF 6, of req] by (auto simp: Sieve_ops_def)
next
  case (7 c req)
  then show ?case
    using Sieve_insert_ok [of c req] by (auto simp: Sieve_ops_def)
next
  case (8 c req)
  then obtain i c' where "i \<in> dom (table c)" "Sieve_evict c req = Some (Inr c')" "Sieve_inv c'"
      "dom (table c') = dom (table c) - {i}" "conf c' = conf c"
    using Sieve_evict_ok [of c req req] by blast
  then show ?case
    by (intro exI [of _ c']) (auto simp: Sieve_ops_def)
qed (auto simp: Sieve_inv_def Sieve_ops_def cache_get_occupied_byte_default_def cong: option.case_cong)

section \<open>Properties\<close>

text \<open>A full cache of two bytes whose tail object is marked, for the examples below.\<close>

definition example_sieve :: Sieve_cache where
  "example_sieve =
     (example_cache \<lparr>queue = [2, 1], pointer = None\<rparr>)
       \<lparr>table := [1 \<mapsto> (new_obj (example_req 1 1))\<lparr>md := 1\<rparr>, 2 \<mapsto> new_obj (example_req 2 1)]\<rparr>"

lemma example_sieve_inv: "Sieve_inv example_sieve"
  by (auto simp: Sieve_inv_def cache_wf_def example_sieve_def example_cache_def obj_bytes_def obj_ok_def to_u32_def freqs_ok_def)

text \<open>
  C30: \<open>Sieve_get\<close> returns (the hand stops and no step fails), reports a hit exactly when the object was
  cached, keeps the invariant, in which the hand stands on a cached object, and the capacity bound, and
  after a miss holds the object exactly when it was admitted.
\<close>

theorem Sieve_get_correct:
  assumes "Sieve_inv c" "req_ok c req" "occupied_byte c \<le> cache_size c"
  shows "\<exists>c'. Sieve_get c req = Some (Inr (r_obj_id req \<in> dom (table c), c')) \<and>
     Sieve_inv c' \<and> occupied_byte c' \<le> cache_size c' \<and> cache_size c' = cache_size c \<and>
     n_req c' = n_req c + 1 \<and> dom (table c') \<subseteq> insert (r_obj_id req) (dom (table c)) \<and>
     (r_obj_id req \<in> dom (table c') \<longleftrightarrow> r_obj_id req \<in> dom (table c) \<or> admits_default c req) \<and>
     (r_obj_id req \<in> dom (table c) \<or> \<not> admits_default c req \<longrightarrow> dom (table c') = dom (table c))"
  unfolding Sieve_get_def by (rule sieve.get_table [OF assms])

theorem Sieve_get_correct_witness:
  "\<exists>c'. Sieve_get example_sieve (example_req 3 1) = Some (Inr (False, c')) \<and> Sieve_inv c' \<and>
     occupied_byte c' \<le> 2 \<and> 3 \<in> dom (table c')"
  using Sieve_get_correct [OF example_sieve_inv, of "example_req 3 1"]
  by (auto simp: example_sieve_def example_cache_def req_ok_def to_u32_def admits_default_def)

text \<open>
  C31: \<open>Sieve_to_evict\<close> and \<open>Sieve_evict\<close> agree on the victim, although the first walks twice over the queue
  and raises the frequency it accepts while the second goes round and takes marks: both give the first
  unmarked object in the order of the hand, or the object at the hand when all are marked.
\<close>

theorem Sieve_to_evict_evict:
  assumes "Sieve_inv c" "dom (table c) \<noteq> {}"
  shows "\<exists>c'. Sieve_to_evict c req' = Some (Inr (Some (hand_victim c))) \<and> hand_victim c \<in> dom (table c) \<and>
     Sieve_evict c req = Some (Inr c') \<and> Sieve_inv c' \<and> dom (table c') = dom (table c) - {hand_victim c}"
  using Sieve_evict_ok [OF assms, of req' req] by blast

theorem Sieve_to_evict_evict_witness:
  "\<exists>c'. Sieve_to_evict example_sieve new_request = Some (Inr (Some 2)) \<and>
     Sieve_evict example_sieve new_request = Some (Inr c') \<and> dom (table c') = {1}"
proof -
  have "hand_victim example_sieve = 2"
    by (simp add: hand_victim_def hand_start_def hand_order_def example_sieve_def example_cache_def freq_of_def)
  then show ?thesis
    using Sieve_to_evict_evict [OF example_sieve_inv, of new_request new_request]
    by (auto simp: example_sieve_def)
qed

text \<open>
  C33: \<open>Sieve_to_evict\<close> on an empty cache never returns: it raises the frequency it accepts for ever
  (a mathematical integer here; the \<open>int\<close> of the source runs into its overflow).
\<close>

theorem Sieve_to_evict_empty:
  assumes "q_list c = []"
  shows "Sieve_to_evict c req = None"
proof -
  have e: "Sieve_to_evict_with_freq c req f = Inr None" for f
    using assms by (simp add: Sieve_to_evict_with_freq_def from_hand_def split: option.splits)
  have "\<not> (c' = c \<and> req' = req)" if "Sieve_raise c' req' f = Some r" for c' req' f r
    by (rule Sieve_raise.raw_induct [OF _ that]) (auto simp: e, metis)
  then have "Sieve_raise c req f = None" for f
    by (cases "Sieve_raise c req f") auto
  then show ?thesis
    unfolding Sieve_to_evict_def by simp
qed

theorem Sieve_to_evict_empty_witness: "Sieve_to_evict (Sieve_init default_common_cache_params) new_request = None"
  by (rule Sieve_to_evict_empty) (simp add: Sieve_init_def cache_struct_init_def)

text \<open>
  C32: on a cache in the invariant the assertions of \<open>Sieve_verify\<close> hold exactly when no metadata is
  charged or the cache is empty: the walk adds up the object sizes alone, while the cache also counts the
  per-object metadata that \<open>Sieve_init\<close> asks for.
\<close>

theorem Sieve_verify_correct:
  assumes "Sieve_inv c"
  shows "Sieve_verify c = (if obj_md_size c = 0 \<or> dom (table c) = {} then Inr () else Inl AssertFail)"
proof -
  have wf: "cache_wf (q_list c) c"
    using assms by (simp add: Sieve_inv_def)
  have "set q \<subseteq> dom (table c) \<Longrightarrow> Sieve_count c q =
      Inr (int (length q), sum_list (map (obj_bytes c) q) - int (length q) * obj_md_size c)" for q
    by (induction q) (auto simp: obj_bytes_def algebra_simps)
  then have "Sieve_count c (q_list c) = Inr (n_obj c, occupied_byte c - n_obj c * obj_md_size c)"
    using wf by (simp add: cache_wf_def)
  moreover have "n_obj c = 0 \<longleftrightarrow> dom (table c) = {}"
    using wf by (auto simp: cache_wf_def simp del: dom_eq_empty_conv)
  ultimately show ?thesis
    by (simp add: Sieve_verify_def cache_get_n_obj_default_def cache_get_occupied_byte_default_def del: dom_eq_empty_conv)
qed

theorem Sieve_verify_correct_witness:
  "Sieve_verify example_sieve = Inr () \<and>
   Sieve_verify (example_sieve\<lparr>obj_md_size := 1, occupied_byte := 4\<rparr>) = Inl AssertFail"
proof -
  have "Sieve_inv (example_sieve\<lparr>obj_md_size := 1, occupied_byte := 4\<rparr>)"
    by (auto simp: Sieve_inv_def cache_wf_def example_sieve_def example_cache_def obj_bytes_def obj_ok_def to_u32_def freqs_ok_def)
  then show ?thesis
    using Sieve_verify_correct [OF example_sieve_inv]
      Sieve_verify_correct [of "example_sieve\<lparr>obj_md_size := 1, occupied_byte := 4\<rparr>"]
    by (auto simp: example_sieve_def example_cache_def)
qed

end
