(* ===== verification/PQueue.thy ===== *)
theory PQueue
  imports CacheObj
begin

text \<open>
  The binary heap of \<open>dataStructure/pqueue.c\<close>: an array of pointers to nodes from slot 1 on, each node
  holding its priority and its slot. The queue is made by \<open>pqueue_init\<close>, so its callbacks are the
  functions at the end of \<open>pqueue.h\<close>. A priority is a \<open>double\<close>; the callers only store converted integers,
  so it is the integer the \<open>double\<close> denotes.
\<close>

section \<open>Data and operations\<close>

record pq_node =
  pri :: int
  pq_obj_id :: obj_id
  pos :: nat

text \<open>
  \<open>pq_mem\<close> is the memory of the nodes. A slot of \<open>pq_d\<close> that was never written is \<open>None\<close>; the length of
  the list is the allocated length.
\<close>

record pqueue_t =
  pq_size :: nat
  pq_avail :: nat
  pq_step :: nat
  pq_d :: "addr option list"
  pq_mem :: "addr \<rightharpoonup> pq_node"

definition get_node :: "pqueue_t \<Rightarrow> addr \<Rightarrow> pq_node result" where
  "get_node q a = (case pq_mem q a of None \<Rightarrow> Inl UseAfterFree | Some n \<Rightarrow> Inr n)"

definition cmp_pri :: "int \<Rightarrow> int \<Rightarrow> bool" where
  "cmp_pri next cur \<longleftrightarrow> next < cur"

definition get_pri :: "pqueue_t \<Rightarrow> addr \<Rightarrow> int result" where
  "get_pri q a = bindE (get_node q a) (\<lambda>n. Inr (pri n))"

definition set_pri :: "pqueue_t \<Rightarrow> addr \<Rightarrow> int \<Rightarrow> pqueue_t result" where
  "set_pri q a p = bindE (get_node q a) (\<lambda>n. Inr (q\<lparr>pq_mem := (pq_mem q)(a \<mapsto> n\<lparr>pri := p\<rparr>)\<rparr>))"

definition get_pos :: "pqueue_t \<Rightarrow> addr \<Rightarrow> nat result" where
  "get_pos q a = bindE (get_node q a) (\<lambda>n. Inr (pos n))"

definition set_pos :: "pqueue_t \<Rightarrow> addr \<Rightarrow> nat \<Rightarrow> pqueue_t result" where
  "set_pos q a i = bindE (get_node q a) (\<lambda>n. Inr (q\<lparr>pq_mem := (pq_mem q)(a \<mapsto> n\<lparr>pos := i\<rparr>)\<rparr>))"

definition get_d :: "pqueue_t \<Rightarrow> nat \<Rightarrow> addr result" where
  "get_d q i = (if i < length (pq_d q) then (case pq_d q ! i of None \<Rightarrow> Inl NullDeref | Some a \<Rightarrow> Inr a)
     else Inl OutOfBounds)"

definition set_d :: "pqueue_t \<Rightarrow> nat \<Rightarrow> addr \<Rightarrow> pqueue_t result" where
  "set_d q i a = (if i < length (pq_d q) then Inr (q\<lparr>pq_d := (pq_d q)[i := Some a]\<rparr>) else Inl OutOfBounds)"

abbreviation left :: "nat \<Rightarrow> nat" where "left i \<equiv> 2 * i"

abbreviation right :: "nat \<Rightarrow> nat" where "right i \<equiv> 2 * i + 1"

abbreviation parent :: "nat \<Rightarrow> nat" where "parent i \<equiv> i div 2"

definition pqueue_init :: "nat \<Rightarrow> pqueue_t" where
  "pqueue_init n = \<lparr>pq_size = 1, pq_avail = n + 1, pq_step = n + 1, pq_d = replicate (n + 1) None, pq_mem = Map.empty\<rparr>"

definition pqueue_size :: "pqueue_t \<Rightarrow> nat" where
  "pqueue_size q = pq_size q - 1"

text \<open>\<open>q->d[i] = a; q->setpos(a, i)\<close>\<close>

definition place :: "pqueue_t \<Rightarrow> nat \<Rightarrow> addr \<Rightarrow> pqueue_t result" where
  "place q i a = bindE (set_d q i a) (\<lambda>q. set_pos q a i)"

function bubble_up_loop :: "pqueue_t \<Rightarrow> nat \<Rightarrow> int \<Rightarrow> (pqueue_t \<times> nat) result" where
  "bubble_up_loop q i moving_pri =
     (if i > 1 then
        bindE (get_d q (parent i)) (\<lambda>a. bindE (get_pri q a) (\<lambda>p.
        if cmp_pri p moving_pri then bindE (place q i a) (\<lambda>q. bubble_up_loop q (parent i) moving_pri)
        else Inr (q, i)))
      else Inr (q, i))"
  by pat_completeness auto

termination
  by (relation "measure (\<lambda>(q, i, p). i)") auto

definition bubble_up :: "pqueue_t \<Rightarrow> nat \<Rightarrow> pqueue_t result" where
  "bubble_up q i =
     bindE (get_d q i) (\<lambda>moving_node. bindE (get_pri q moving_node) (\<lambda>moving_pri.
     bindE (bubble_up_loop q i moving_pri) (\<lambda>(q, i). place q i moving_node)))"

definition maxchild :: "pqueue_t \<Rightarrow> nat \<Rightarrow> nat result" where
  "maxchild q i =
     (let child_node = left i in
      if child_node \<ge> pq_size q then Inr 0
      else if child_node + 1 < pq_size q then
        bindE (get_d q child_node) (\<lambda>l. bindE (get_pri q l) (\<lambda>pl.
        bindE (get_d q (child_node + 1)) (\<lambda>r. bindE (get_pri q r) (\<lambda>pr.
        Inr (if cmp_pri pl pr then child_node + 1 else child_node)))))
      else Inr child_node)"

text \<open>The loop may only be entered at a slot other than 0, whose left child is itself.\<close>

partial_function (option) percolate_down_loop :: "pqueue_t \<Rightarrow> nat \<Rightarrow> int \<Rightarrow> (pqueue_t \<times> nat) outcome" where
  "percolate_down_loop q i moving_pri =
     bindO (Some (maxchild q i)) (\<lambda>child_node.
     if child_node \<noteq> 0 then
       bindO (Some (get_d q child_node)) (\<lambda>a. bindO (Some (get_pri q a)) (\<lambda>p.
       if cmp_pri moving_pri p then
         bindO (Some (place q i a)) (\<lambda>q. percolate_down_loop q child_node moving_pri)
       else Some (Inr (q, i))))
     else Some (Inr (q, i)))"

definition percolate_down :: "pqueue_t \<Rightarrow> nat \<Rightarrow> pqueue_t outcome" where
  "percolate_down q i =
     bindO (Some (get_d q i)) (\<lambda>moving_node. bindO (Some (get_pri q moving_node)) (\<lambda>moving_pri.
     bindO (percolate_down_loop q i moving_pri) (\<lambda>(q, i). Some (place q i moving_node))))"

definition pqueue_insert :: "pqueue_t \<Rightarrow> addr \<Rightarrow> pqueue_t result" where
  "pqueue_insert q d =
     (let q = (if pq_size q \<ge> pq_avail q then
                 let newsize = pq_size q + pq_step q in
                 q\<lparr>pq_d := pq_d q @ replicate (newsize - length (pq_d q)) None, pq_avail := newsize\<rparr>
               else q);
          i = pq_size q; q = q\<lparr>pq_size := i + 1\<rparr> in
      bindE (set_d q i d) (\<lambda>q. bubble_up q i))"

definition pqueue_change_priority :: "pqueue_t \<Rightarrow> int \<Rightarrow> addr \<Rightarrow> pqueue_t outcome" where
  "pqueue_change_priority q new_pri d =
     bindO (Some (get_pri q d)) (\<lambda>old_pri.
     bindO (Some (set_pri q d new_pri)) (\<lambda>q.
     bindO (Some (get_pos q d)) (\<lambda>posn.
     if cmp_pri old_pri new_pri then Some (bubble_up q posn) else percolate_down q posn)))"

definition pqueue_remove :: "pqueue_t \<Rightarrow> addr \<Rightarrow> pqueue_t outcome" where
  "pqueue_remove q d =
     bindO (Some (get_pos q d)) (\<lambda>posn.
     let q = q\<lparr>pq_size := pq_size q - 1\<rparr> in
     bindO (Some (get_d q (pq_size q))) (\<lambda>a.
     bindO (Some (set_d q posn a)) (\<lambda>q.
     bindO (Some (get_pri q d)) (\<lambda>old_pri.
     bindO (Some (get_pri q a)) (\<lambda>p.
     if cmp_pri old_pri p then Some (bubble_up q posn) else percolate_down q posn)))))"

definition pqueue_pop :: "pqueue_t \<Rightarrow> (addr option \<times> pqueue_t) outcome" where
  "pqueue_pop q =
     (if pq_size q = 1 then Some (Inr (None, q))
      else
        bindO (Some (get_d q 1)) (\<lambda>head.
        let q = q\<lparr>pq_size := pq_size q - 1\<rparr> in
        bindO (Some (get_d q (pq_size q))) (\<lambda>a.
        bindO (Some (set_d q 1 a)) (\<lambda>q.
        bindO (percolate_down q 1) (\<lambda>q. Some (Inr (Some head, q)))))))"

definition pqueue_peek :: "pqueue_t \<Rightarrow> addr option result" where
  "pqueue_peek q = (if pq_size q = 1 then Inr None else bindE (get_d q 1) (\<lambda>d. Inr (Some d)))"

text \<open>\<open>cmppri(getpri(d[pos]), getpri(d[child]))\<close>\<close>

definition below :: "pqueue_t \<Rightarrow> nat \<Rightarrow> nat \<Rightarrow> bool result" where
  "below q i j = bindE (get_d q i) (\<lambda>a. bindE (get_pri q a) (\<lambda>p.
     bindE (get_d q j) (\<lambda>b. bindE (get_pri q b) (\<lambda>p'. Inr (cmp_pri p p')))))"

partial_function (option) subtree_is_valid :: "pqueue_t \<Rightarrow> nat \<Rightarrow> bool outcome" where
  "subtree_is_valid q i =
     bindO
       (if left i < pq_size q then
          bindO (Some (below q i (left i))) (\<lambda>b. if b then Some (Inr False) else subtree_is_valid q (left i))
        else Some (Inr True))
       (\<lambda>ok. if \<not> ok then Some (Inr False)
        else if right i < pq_size q then
          bindO (Some (below q i (right i))) (\<lambda>b. if b then Some (Inr False) else subtree_is_valid q (right i))
        else Some (Inr True))"

definition pqueue_is_valid :: "pqueue_t \<Rightarrow> bool outcome" where
  "pqueue_is_valid q = subtree_is_valid q 1"

text \<open>The loop that pops until the queue is empty, and the nodes in the order they come.\<close>

partial_function (option) pqueue_drain :: "pqueue_t \<Rightarrow> (addr list \<times> pqueue_t) outcome" where
  "pqueue_drain q =
     bindO (pqueue_pop q) (\<lambda>(e, q). case e of None \<Rightarrow> Some (Inr ([], q))
       | Some a \<Rightarrow> bindO (pqueue_drain q) (\<lambda>(l, q). Some (Inr (a # l, q))))"

text \<open>
  \<open>pqueue_print\<close> pops from a copy of the array. The copy points to the same nodes, so the slots that the
  pops write into the nodes are seen by the queue itself.
\<close>

definition pqueue_print :: "pqueue_t \<Rightarrow> (addr list \<times> pqueue_t) outcome" where
  "pqueue_print q =
     (let dup = pqueue_init (pq_size q);
          dup = dup\<lparr>pq_size := pq_size q, pq_avail := pq_avail q, pq_step := pq_step q,
                    pq_d := take (pq_size q) (pq_d q) @ drop (pq_size q) (pq_d dup), pq_mem := pq_mem q\<rparr> in
      bindO (pqueue_drain dup) (\<lambda>(printed, dup). Some (Inr (printed, q\<lparr>pq_mem := pq_mem dup\<rparr>))))"

declare percolate_down_loop.simps [code] subtree_is_valid.simps [code] pqueue_drain.simps [code]

section \<open>The array as a function of the slot\<close>

text \<open>What moving nodes about leaves as it is: the sizes, and each node's priority and object id.\<close>

definition info :: "pqueue_t \<Rightarrow> addr \<Rightarrow> (int \<times> obj_id) option" where
  "info q a = map_option (\<lambda>n. (pri n, pq_obj_id n)) (pq_mem q a)"

definition prio :: "pqueue_t \<Rightarrow> addr \<Rightarrow> int" where
  "prio q a = fst (the (info q a))"

definition same :: "pqueue_t \<Rightarrow> pqueue_t \<Rightarrow> bool" where
  "same q q' \<longleftrightarrow> pq_size q' = pq_size q \<and> pq_avail q' = pq_avail q \<and> pq_step q' = pq_step q \<and>
     length (pq_d q') = length (pq_d q) \<and> info q' = info q"

lemma same_refl [simp]: "same q q"
  by (simp add: same_def)

lemma same_trans: "same q q' \<Longrightarrow> same q' q'' \<Longrightarrow> same q q''"
  by (simp add: same_def)

lemma same_prio: "same q q' \<Longrightarrow> prio q' = prio q"
  by (simp add: same_def prio_def fun_eq_iff)

lemma info_dom: "info q a \<noteq> None \<longleftrightarrow> pq_mem q a \<noteq> None"
  by (simp add: info_def)

lemma get_pri_eq: "pq_mem q a \<noteq> None \<Longrightarrow> get_pri q a = Inr (prio q a)"
  by (auto simp: get_pri_def get_node_def prio_def info_def)

text \<open>
  \<open>V\<close> is the intended content of the slots. At a hole the array need not hold it yet; everywhere else it
  does, and the node there knows its slot.
\<close>

definition at :: "pqueue_t \<Rightarrow> (nat \<Rightarrow> addr) \<Rightarrow> nat \<Rightarrow> bool" where
  "at q V k \<longleftrightarrow> pq_d q ! k = Some (V k) \<and> (\<exists>n. pq_mem q (V k) = Some n \<and> pos n = k)"

definition hole :: "pqueue_t \<Rightarrow> nat \<Rightarrow> (nat \<Rightarrow> addr) \<Rightarrow> bool" where
  "hole q i V \<longleftrightarrow> pq_size q \<le> length (pq_d q) \<and> 1 \<le> i \<and> i < length (pq_d q) \<and> pq_mem q (V i) \<noteq> None \<and>
     inj_on V (insert i {1..<pq_size q}) \<and> (\<forall>k. 1 \<le> k \<and> k < pq_size q \<and> k \<noteq> i \<longrightarrow> at q V k)"

definition full :: "pqueue_t \<Rightarrow> (nat \<Rightarrow> addr) \<Rightarrow> bool" where
  "full q V \<longleftrightarrow> pq_size q \<le> length (pq_d q) \<and> inj_on V {1..<pq_size q} \<and>
     (\<forall>k. 1 \<le> k \<and> k < pq_size q \<longrightarrow> at q V k)"

definition swp :: "(nat \<Rightarrow> addr) \<Rightarrow> nat \<Rightarrow> nat \<Rightarrow> nat \<Rightarrow> addr" where
  "swp V i j = V(i := V j, j := V i)"

lemma swp_simps [simp]: "swp V i j j = V i" "swp V i j i = V j" "k \<noteq> i \<Longrightarrow> k \<noteq> j \<Longrightarrow> swp V i j k = V k"
  by (auto simp: swp_def)

lemma swp_image: "i \<in> A \<Longrightarrow> j \<in> A \<Longrightarrow> swp V i j ` A = V ` A"
  by (auto simp: swp_def image_iff split: if_splits)

lemma swp_inj: "i \<in> A \<Longrightarrow> j \<in> A \<Longrightarrow> inj_on V A \<Longrightarrow> inj_on (swp V i j) A"
  by (auto simp: swp_def inj_on_def split: if_splits)

lemma place_eq:
  assumes "i < length (pq_d q)" "pq_mem q a = Some n"
  shows "place q i a = Inr (q\<lparr>pq_d := (pq_d q)[i := Some a], pq_mem := (pq_mem q)(a \<mapsto> n\<lparr>pos := i\<rparr>)\<rparr>)"
    "same q (q\<lparr>pq_d := (pq_d q)[i := Some a], pq_mem := (pq_mem q)(a \<mapsto> n\<lparr>pos := i\<rparr>)\<rparr>)"
  using assms by (auto simp: place_def set_d_def set_pos_def get_node_def same_def info_def fun_eq_iff)

lemma place_ok:
  assumes "hole q i V"
  shows "\<exists>q'. place q i (V i) = Inr q' \<and> full q' V \<and> same q q'"
proof -
  obtain n where n: "pq_mem q (V i) = Some n"
    using assms by (auto simp: hole_def)
  let ?q = "q\<lparr>pq_d := (pq_d q)[i := Some (V i)], pq_mem := (pq_mem q)(V i \<mapsto> n\<lparr>pos := i\<rparr>)\<rparr>"
  have i: "i < length (pq_d q)" "inj_on V (insert i {1..<pq_size q})"
    using assms by (auto simp: hole_def)
  have "at ?q V k" if k: "1 \<le> k" "k < pq_size q" for k
  proof (cases "k = i")
    case False
    then have "V k \<noteq> V i"
      using k inj_onD [OF i(2), of k i] by auto
    then show ?thesis
      using assms False k by (auto simp: hole_def at_def)
  qed (use i(1) in \<open>simp add: at_def\<close>)
  moreover have "inj_on V {1..<pq_size q}"
    by (rule inj_on_subset [OF i(2)]) auto
  ultimately have "full ?q V"
    using assms by (simp add: full_def hole_def)
  then show ?thesis
    using place_eq [OF i(1) n] by auto
qed

lemma place_move:
  assumes "hole q i V" "1 \<le> j" "j < pq_size q" "j \<noteq> i" "i < pq_size q"
  shows "\<exists>q'. place q i (V j) = Inr q' \<and> hole q' j (swp V i j) \<and> same q q'"
proof -
  have h: "i < length (pq_d q)" "inj_on V (insert i {1..<pq_size q})" "pq_mem q (V i) \<noteq> None" "at q V j" "1 \<le> i"
      "pq_size q \<le> length (pq_d q)" "\<And>k. 1 \<le> k \<Longrightarrow> k < pq_size q \<Longrightarrow> k \<noteq> i \<Longrightarrow> at q V k"
    using assms by (auto simp: hole_def)
  then obtain n where n: "pq_mem q (V j) = Some n"
    by (auto simp: at_def)
  let ?q = "q\<lparr>pq_d := (pq_d q)[i := Some (V j)], pq_mem := (pq_mem q)(V j \<mapsto> n\<lparr>pos := i\<rparr>)\<rparr>"
  have "at ?q (swp V i j) k" if k: "1 \<le> k" "k < pq_size q" "k \<noteq> j" for k
  proof (cases "k = i")
    case False
    then have "V k \<noteq> V j"
      using k inj_onD [OF h(2), of k j] assms(2,3) by auto
    then show ?thesis
      using h(7) [OF k(1,2) False] False k by (auto simp: at_def)
  qed (use h(1) in \<open>simp add: at_def\<close>)
  moreover have "inj_on (swp V i j) (insert j {1..<pq_size q})"
    using assms h(5) by (intro swp_inj inj_on_subset [OF h(2)]) auto
  ultimately have "hole ?q j (swp V i j)"
    using h(3,6) assms(2,3) by (auto simp: hole_def)
  then show ?thesis
    using place_eq [OF h(1) n] by auto
qed

lemma hole_at:
  assumes "hole q i V" "1 \<le> k" "k < pq_size q" "k \<noteq> i"
  shows "get_d q k = Inr (V k)" "get_pri q (V k) = Inr (prio q (V k))"
proof -
  have "at q V k" "pq_size q \<le> length (pq_d q)"
    using assms by (auto simp: hole_def)
  then show "get_d q k = Inr (V k)" "get_pri q (V k) = Inr (prio q (V k))"
    using assms(3) by (auto simp: at_def get_d_def get_pri_eq)
qed

section \<open>The heap order\<close>

definition edge :: "(addr \<Rightarrow> int) \<Rightarrow> (nat \<Rightarrow> addr) \<Rightarrow> nat \<Rightarrow> bool" where
  "edge p V k \<longleftrightarrow> p (V k) \<le> p (V (k div 2))"

definition heap :: "(addr \<Rightarrow> int) \<Rightarrow> (nat \<Rightarrow> addr) \<Rightarrow> nat \<Rightarrow> bool" where
  "heap p V n \<longleftrightarrow> (\<forall>k. 2 \<le> k \<and> k < n \<longrightarrow> edge p V k)"

text \<open>The order but for slot \<open>i\<close> and its parent, and but for slot \<open>i\<close> and its children.\<close>

definition skips :: "(addr \<Rightarrow> int) \<Rightarrow> (nat \<Rightarrow> addr) \<Rightarrow> nat \<Rightarrow> nat \<Rightarrow> bool" where
  "skips p V i n \<longleftrightarrow> (\<forall>k. 2 \<le> k \<and> k < n \<and> k div 2 = i \<and> 2 \<le> i \<longrightarrow> p (V k) \<le> p (V (i div 2)))"

definition up_inv :: "(addr \<Rightarrow> int) \<Rightarrow> (nat \<Rightarrow> addr) \<Rightarrow> nat \<Rightarrow> nat \<Rightarrow> bool" where
  "up_inv p V i n \<longleftrightarrow> (\<forall>k. 2 \<le> k \<and> k < n \<and> k \<noteq> i \<longrightarrow> edge p V k) \<and> skips p V i n"

definition down_inv :: "(addr \<Rightarrow> int) \<Rightarrow> (nat \<Rightarrow> addr) \<Rightarrow> nat \<Rightarrow> nat \<Rightarrow> bool" where
  "down_inv p V i n \<longleftrightarrow> (\<forall>k. 2 \<le> k \<and> k < n \<and> k div 2 \<noteq> i \<longrightarrow> edge p V k) \<and> skips p V i n"

lemma up_step:
  assumes "up_inv p V i n" "2 \<le> i" "i < n" "p (V (i div 2)) < p (V i)"
  shows "up_inv p (swp V i (i div 2)) (i div 2) n"
proof -
  let ?j = "i div 2" and ?W = "swp V i (i div 2)"
  have e: "p (V k) \<le> p (V (k div 2))" if "2 \<le> k" "k < n" "k \<noteq> i" for k
    using assms(1) that by (auto simp: up_inv_def edge_def)
  have c: "p (V k) \<le> p (V ?j)" if "2 \<le> k" "k < n" "k div 2 = i" for k
    using assms(1,2) that by (auto simp: up_inv_def skips_def)
  have j: "?j < i" "1 \<le> ?j"
    using assms(2) by auto
  have "edge p ?W k" if k: "2 \<le> k" "k < n" "k \<noteq> ?j" for k
  proof -
    consider "k = i" | "k \<noteq> i" "k div 2 = i" | "k \<noteq> i" "k div 2 = ?j" | "k \<noteq> i" "k div 2 \<noteq> i" "k div 2 \<noteq> ?j"
      by blast
    then show ?thesis
    proof cases
      case 2
      with c [OF k(1,2) 2(2)] k(3) show ?thesis by (simp add: edge_def)
    next
      case 3
      with e [OF k(1,2) 3(1)] assms(4) k(3) show ?thesis by (simp add: edge_def)
    next
      case 4
      with e [OF k(1,2) 4(1)] k(3) show ?thesis by (simp add: edge_def)
    qed (use assms(4) in \<open>simp add: edge_def\<close>)
  qed
  moreover have "p (?W k) \<le> p (?W (?j div 2))" if k: "2 \<le> k" "k < n" "k div 2 = ?j" "2 \<le> ?j" for k
  proof -
    have w: "?j div 2 \<noteq> i" "?j div 2 \<noteq> ?j"
      using j k(4) by linarith+
    have o: "p (V ?j) \<le> p (V (?j div 2))"
      using e [of ?j] j k(4) assms(3) by simp
    show ?thesis
    proof (cases "k = i")
      case False
      have "k \<noteq> ?j"
        using k(3) j(2) by linarith
      then show ?thesis
        using e [OF k(1,2) False] k(3) o w False by simp
    qed (use o w in simp)
  qed
  ultimately show ?thesis
    unfolding up_inv_def skips_def by blast
qed

lemma down_step:
  assumes "down_inv p V i n" "1 \<le> i" "j div 2 = i" "j < n" "p (V i) < p (V j)"
    "\<And>k. 2 \<le> k \<Longrightarrow> k < n \<Longrightarrow> k div 2 = i \<Longrightarrow> p (V k) \<le> p (V j)"
  shows "down_inv p (swp V i j) j n"
proof -
  let ?W = "swp V i j"
  have e: "p (V k) \<le> p (V (k div 2))" if "2 \<le> k" "k < n" "k div 2 \<noteq> i" for k
    using assms(1) that by (auto simp: down_inv_def edge_def)
  have j: "i < j" "2 \<le> j"
    using assms(2,3) by linarith+
  have "edge p ?W k" if k: "2 \<le> k" "k < n" "k div 2 \<noteq> j" for k
  proof -
    consider "k = j" | "k \<noteq> j" "k div 2 = i" | "k = i" | "k \<noteq> i" "k \<noteq> j" "k div 2 \<noteq> i"
      by blast
    then show ?thesis
    proof cases
      case 2
      then have "k \<noteq> i"
        using assms(2) by auto
      with 2 assms(6) [OF k(1,2) 2(2)] show ?thesis by (simp add: edge_def)
    next
      case 3
      have "p (V j) \<le> p (V (i div 2))"
        using assms(1,3,4) j(2) k(1) 3 by (auto simp: down_inv_def skips_def)
      moreover have "i div 2 \<noteq> j" "i div 2 \<noteq> i"
        using j assms(2) by linarith+
      ultimately show ?thesis
        using 3 j by (simp add: edge_def)
    next
      case 4
      with e [OF k(1,2) 4(3)] k(3) show ?thesis by (simp add: edge_def)
    qed (use assms(3,5) in \<open>simp add: edge_def\<close>)
  qed
  moreover have "p (?W k) \<le> p (?W (j div 2))" if k: "2 \<le> k" "k < n" "k div 2 = j" for k
  proof -
    have "k \<noteq> i" "k \<noteq> j"
      using k(3) j by linarith+
    then show ?thesis
      using e [OF k(1,2)] k(3) j(1) assms(3) by simp
  qed
  ultimately show ?thesis
    by (simp add: down_inv_def skips_def)
qed

text \<open>A state of the array that holds the same nodes as before.\<close>

definition perm :: "nat \<Rightarrow> (nat \<Rightarrow> addr) \<Rightarrow> (nat \<Rightarrow> addr) \<Rightarrow> bool" where
  "perm n V W \<longleftrightarrow> W ` {1..<n} = V ` {1..<n}"

lemma perm_refl [simp]: "perm n V V"
  by (simp add: perm_def)

lemma perm_swp: "1 \<le> i \<Longrightarrow> i < n \<Longrightarrow> 1 \<le> j \<Longrightarrow> j < n \<Longrightarrow> perm n V (swp V i j)"
  by (simp add: perm_def swp_image)

lemma perm_trans: "perm n U V \<Longrightarrow> perm n V W \<Longrightarrow> perm n U W"
  by (simp add: perm_def)

lemma bubble_up_loop_ok:
  assumes "hole q i V" "i < pq_size q" "up_inv (prio q) V i (pq_size q)"
  shows "\<exists>q' j W. bubble_up_loop q i (prio q (V i)) = Inr (q', j) \<and> hole q' j W \<and> W j = V i \<and> same q q' \<and>
     perm (pq_size q) V W \<and> heap (prio q) W (pq_size q)"
  using assms
proof (induction i arbitrary: q V rule: less_induct)
  case (less i)
  let ?p = "prio q (V i)"
  show ?case
  proof (cases "1 < i \<and> prio q (V (parent i)) < ?p")
    case True
    have j: "1 \<le> parent i" "parent i < pq_size q" "parent i \<noteq> i" "parent i < i"
      using True less.prems(2) by auto
    obtain q1 where q1: "place q i (V (parent i)) = Inr q1" "hole q1 (parent i) (swp V i (parent i))" "same q q1"
      using place_move [OF less.prems(1) j(1-3) less.prems(2)] by blast
    have "up_inv (prio q1) (swp V i (parent i)) (parent i) (pq_size q1)" "parent i < pq_size q1"
      using up_step [OF less.prems(3)] True less.prems(2) q1(3) j(2) same_prio [OF q1(3)] by (auto simp: same_def)
    then obtain q' k W where h: "bubble_up_loop q1 (parent i) (prio q1 (V i)) = Inr (q', k)" "hole q' k W" "W k = V i"
        "same q1 q'" "perm (pq_size q1) (swp V i (parent i)) W" "heap (prio q1) W (pq_size q1)"
      using less.IH [OF j(4) q1(2)] by auto
    have "bubble_up_loop q i ?p = Inr (q', k)"
      using hole_at [OF less.prems(1) j(1-3)] True q1(1) h(1) same_prio [OF q1(3)]
      by (subst bubble_up_loop.simps) (simp add: cmp_pri_def)
    moreover have "perm (pq_size q) V W"
      using h(5) q1(3) perm_swp [of i "pq_size q" "parent i" V] j less.prems(2) True
      by (auto simp: same_def intro: perm_trans)
    ultimately show ?thesis
      using h(2-4,6) q1(3) same_trans [OF q1(3) h(4)] same_prio [OF q1(3)]
      by (intro exI [of _ q'] exI [of _ k] exI [of _ W]) (simp add: same_def)
  next
    case False
    have "bubble_up_loop q i ?p = Inr (q, i)"
    proof (cases "1 < i")
      case True
      then have "1 \<le> parent i" "parent i < pq_size q" "parent i \<noteq> i"
        using less.prems(2) by auto
      then show ?thesis
        using hole_at [OF less.prems(1)] True False by (subst bubble_up_loop.simps) (simp add: cmp_pri_def)
    qed (simp add: bubble_up_loop.simps)
    moreover have "heap (prio q) V (pq_size q)"
      using less.prems(3) False by (auto simp: up_inv_def heap_def edge_def)
    ultimately show ?thesis
      using less.prems(1) by (intro exI [of _ q] exI [of _ i] exI [of _ V]) simp
  qed
qed

lemma maxchild_ok:
  assumes "hole q i V" "1 \<le> i"
  shows "\<exists>j. maxchild q i = Inr j \<and> (if j = 0 then \<forall>k. 2 \<le> k \<and> k < pq_size q \<longrightarrow> k div 2 \<noteq> i
     else j div 2 = i \<and> j < pq_size q \<and> (\<forall>k. 2 \<le> k \<and> k < pq_size q \<and> k div 2 = i \<longrightarrow> prio q (V k) \<le> prio q (V j)))"
proof -
  have two: "k = left i \<or> k = right i" if "k div 2 = i" for k
    using that by linarith
  consider "pq_size q \<le> left i" | "left i < pq_size q" "\<not> right i < pq_size q" | "right i < pq_size q"
    by linarith
  then show ?thesis
  proof cases
    case 1
    then show ?thesis
      by (intro exI [of _ 0]) (auto simp: maxchild_def)
  next
    case 2
    have "k = left i" if "k div 2 = i" "k < pq_size q" for k
      using 2 two [OF that(1)] that(2) by auto
    then show ?thesis
      using 2 assms(2) by (intro exI [of _ "left i"]) (auto simp: maxchild_def)
  next
    case 3
    have l: "1 \<le> left i" "left i < pq_size q" "left i \<noteq> i" "1 \<le> left i + 1" "left i + 1 < pq_size q" "left i + 1 \<noteq> i"
      using 3 assms(2) by auto
    let ?j = "if prio q (V (left i)) < prio q (V (right i)) then right i else left i"
    have "maxchild q i = Inr ?j"
      using hole_at [OF assms(1) l(1-3)] hole_at [OF assms(1) l(4-6)] l
      by (simp add: maxchild_def cmp_pri_def)
    moreover have "prio q (V k) \<le> prio q (V ?j)" if "k div 2 = i" for k
      using two [OF that] by auto
    ultimately show ?thesis
      using l by (intro exI [of _ ?j]) auto
  qed
qed

lemma percolate_down_loop_ok:
  assumes "hole q i V" "down_inv (prio q) V i (pq_size q)"
  shows "\<exists>q' j W. percolate_down_loop q i (prio q (V i)) = Some (Inr (q', j)) \<and> hole q' j W \<and> W j = V i \<and> same q q' \<and>
     perm (pq_size q) V W \<and> heap (prio q) W (pq_size q)"
  using assms
proof (induction "pq_size q - i" arbitrary: q i V rule: less_induct)
  case less
  let ?p = "prio q (V i)"
  have i: "1 \<le> i"
    using less.prems(1) by (simp add: hole_def)
  obtain j where j: "maxchild q i = Inr j" "j = 0 \<Longrightarrow> \<forall>k. 2 \<le> k \<and> k < pq_size q \<longrightarrow> k div 2 \<noteq> i"
      "j \<noteq> 0 \<Longrightarrow> j div 2 = i \<and> j < pq_size q \<and> (\<forall>k. 2 \<le> k \<and> k < pq_size q \<and> k div 2 = i \<longrightarrow> prio q (V k) \<le> prio q (V j))"
    using maxchild_ok [OF less.prems(1) i] by (metis (no_types, lifting))
  show ?case
  proof (cases "j \<noteq> 0 \<and> ?p < prio q (V j)")
    case True
    then have c: "j div 2 = i" "j < pq_size q" "\<And>k. 2 \<le> k \<Longrightarrow> k < pq_size q \<Longrightarrow> k div 2 = i \<Longrightarrow> prio q (V k) \<le> prio q (V j)"
      using j(3) by auto
    then have k: "1 \<le> j" "j \<noteq> i" "i < pq_size q" "pq_size q - j < pq_size q - i"
      using True i by auto
    obtain q1 where q1: "place q i (V j) = Inr q1" "hole q1 j (swp V i j)" "same q q1"
      using place_move [OF less.prems(1) k(1) c(2) k(2,3)] by blast
    have "down_inv (prio q) (swp V i j) j (pq_size q)"
      by (rule down_step [OF less.prems(2) i c(1,2) _ c(3)]) (use True in simp_all)
    then have "down_inv (prio q1) (swp V i j) j (pq_size q1)" "pq_size q1 - j < pq_size q - i"
      using k(4) q1(3) same_prio [OF q1(3)] by (simp_all add: same_def)
    then obtain q' l W where h: "percolate_down_loop q1 j (prio q1 (V i)) = Some (Inr (q', l))" "hole q' l W" "W l = V i"
        "same q1 q'" "perm (pq_size q1) (swp V i j) W" "heap (prio q1) W (pq_size q1)"
      using less.hyps [OF _ q1(2)] by auto
    have "percolate_down_loop q i ?p = Some (Inr (q', l))"
      using hole_at [OF less.prems(1) k(1) c(2) k(2)] True q1(1) h(1) j(1) same_prio [OF q1(3)]
      by (subst percolate_down_loop.simps) (simp add: cmp_pri_def)
    moreover have "perm (pq_size q) V W"
      using h(5) q1(3) perm_swp [OF i k(3,1) c(2), of V] by (auto simp: same_def intro: perm_trans)
    ultimately show ?thesis
      using h(2-4,6) q1(3) same_trans [OF q1(3) h(4)] same_prio [OF q1(3)]
      by (intro exI [of _ q'] exI [of _ l] exI [of _ W]) (simp add: same_def)
  next
    case False
    have "percolate_down_loop q i ?p = Some (Inr (q, i))"
    proof (cases "j = 0")
      case n: False
      then have "1 \<le> j" "j \<noteq> i" "j < pq_size q"
        using j(3) i by auto
      then show ?thesis
        using hole_at [OF less.prems(1)] j(1) n False by (subst percolate_down_loop.simps) (simp add: cmp_pri_def)
    qed (use j(1) in \<open>subst percolate_down_loop.simps, simp\<close>)
    moreover have "edge (prio q) V k" if "2 \<le> k" "k < pq_size q" for k
    proof (cases "k div 2 = i")
      case True
      with that j(2,3) False have "prio q (V k) \<le> ?p"
        by (cases "j = 0") force+
      then show ?thesis
        using True by (simp add: edge_def)
    qed (use less.prems(2) that in \<open>simp add: down_inv_def\<close>)
    ultimately show ?thesis
      using less.prems(1) by (intro exI [of _ q] exI [of _ i] exI [of _ V]) (simp add: heap_def)
  qed
qed

text \<open>\<open>V\<close> with the array holding \<open>V i\<close> at \<open>i\<close> already, where only the node's slot may be wrong.\<close>

definition seated :: "pqueue_t \<Rightarrow> nat \<Rightarrow> (nat \<Rightarrow> addr) \<Rightarrow> bool" where
  "seated q i V \<longleftrightarrow> hole q i V \<and> pq_d q ! i = Some (V i)"

lemma seated_get: "seated q i V \<Longrightarrow> get_d q i = Inr (V i) \<and> get_pri q (V i) = Inr (prio q (V i))"
  by (auto simp: seated_def hole_def get_d_def get_pri_eq)

text \<open>A queue in heap order.\<close>

definition pq_ok :: "pqueue_t \<Rightarrow> (nat \<Rightarrow> addr) \<Rightarrow> bool" where
  "pq_ok q V \<longleftrightarrow> full q V \<and> heap (prio q) V (pq_size q) \<and> 1 \<le> pq_size q"

text \<open>The array has the length \<open>avail\<close> says, and can grow.\<close>

definition pq_room :: "pqueue_t \<Rightarrow> bool" where
  "pq_room q \<longleftrightarrow> length (pq_d q) = pq_avail q \<and> 1 \<le> pq_step q"

lemma bubble_up_ok:
  assumes "seated q i V" "i < pq_size q" "up_inv (prio q) V i (pq_size q)"
  shows "\<exists>q' W. bubble_up q i = Inr q' \<and> full q' W \<and> same q q' \<and> perm (pq_size q) V W \<and> heap (prio q') W (pq_size q')"
proof -
  have h: "hole q i V"
    using assms(1) by (simp add: seated_def)
  obtain q1 j W where l: "bubble_up_loop q i (prio q (V i)) = Inr (q1, j)" "hole q1 j W" "W j = V i" "same q q1"
     "perm (pq_size q) V W" "heap (prio q) W (pq_size q)"
    using bubble_up_loop_ok [OF h assms(2,3)] by blast
  obtain q' where p: "place q1 j (W j) = Inr q'" "full q' W" "same q1 q'"
    using place_ok [OF l(2)] by blast
  have s: "same q q'"
    by (rule same_trans [OF l(4) p(3)])
  then show ?thesis
    using seated_get [OF assms(1)] l p same_prio [OF s]
    by (intro exI [of _ q'] exI [of _ W]) (simp add: bubble_up_def same_def)
qed

lemma percolate_down_ok:
  assumes "seated q i V" "down_inv (prio q) V i (pq_size q)"
  shows "\<exists>q' W. percolate_down q i = Some (Inr q') \<and> full q' W \<and> same q q' \<and> perm (pq_size q) V W \<and> heap (prio q') W (pq_size q')"
proof -
  have h: "hole q i V"
    using assms(1) by (simp add: seated_def)
  obtain q1 j W where l: "percolate_down_loop q i (prio q (V i)) = Some (Inr (q1, j))" "hole q1 j W" "W j = V i" "same q q1"
     "perm (pq_size q) V W" "heap (prio q) W (pq_size q)"
    using percolate_down_loop_ok [OF h assms(2)] by blast
  obtain q' where p: "place q1 j (W j) = Inr q'" "full q' W" "same q1 q'"
    using place_ok [OF l(2)] by blast
  have s: "same q q'"
    by (rule same_trans [OF l(4) p(3)])
  then show ?thesis
    using seated_get [OF assms(1)] l p same_prio [OF s]
    by (intro exI [of _ q'] exI [of _ W]) (simp add: percolate_down_def same_def)
qed

section \<open>The queue as a set of nodes\<close>

definition pq_inv :: "pqueue_t \<Rightarrow> bool" where
  "pq_inv q \<longleftrightarrow> (\<exists>V. pq_ok q V)"

definition members :: "pqueue_t \<Rightarrow> addr set" where
  "members q = {a. \<exists>k. 1 \<le> k \<and> k < pq_size q \<and> pq_d q ! k = Some a}"

lemma full_members: "full q V \<Longrightarrow> members q = V ` {1..<pq_size q}"
  by (force simp: full_def members_def at_def)

lemma moved:
  assumes "full q' W" "same q q'" "perm (pq_size q) V W" "heap (prio q') W (pq_size q')"
    "1 \<le> pq_size q" "V ` {1..<pq_size q} = S"
  shows "pq_inv q'" "members q' = S" "info q' = info q" "pq_size q' = pq_size q" "pq_room q' = pq_room q"
proof -
  show "pq_inv q'"
    using assms(1,2,4,5) by (auto simp: pq_inv_def pq_ok_def same_def intro!: exI [of _ W])
  show "members q' = S"
    using full_members [OF assms(1)] assms(2,3,6) by (simp add: same_def perm_def)
qed (use assms(2) in \<open>simp_all add: same_def pq_room_def\<close>)

lemma member_slot:
  assumes "pq_ok q V" "a \<in> members q"
  obtains k where "1 \<le> k" "k < pq_size q" "V k = a" "pq_d q ! k = Some a" "get_pos q a = Inr k" "pq_mem q a \<noteq> None"
proof -
  have f: "full q V"
    using assms(1) by (simp add: pq_ok_def)
  then obtain k where k: "1 \<le> k" "k < pq_size q" "a = V k"
    using assms(2) full_members [OF f] by auto
  then have "at q V k"
    using f by (simp add: full_def)
  then show thesis
    by (intro that [of k]) (use k in \<open>auto simp: at_def get_pos_def get_node_def\<close>)
qed

lemma members_alloc: "pq_inv q \<Longrightarrow> a \<in> members q \<Longrightarrow> pq_mem q a \<noteq> None"
  by (auto simp: pq_inv_def elim: member_slot)

lemma members_card: "pq_inv q \<Longrightarrow> finite (members q) \<and> card (members q) = pq_size q - 1"
  by (auto simp: pq_inv_def pq_ok_def full_members card_image full_def)

lemma pq_inv_init: "pq_inv (pqueue_init n)" "members (pqueue_init n) = {}"
  by (auto simp: pq_inv_def pq_ok_def pqueue_init_def full_def heap_def members_def)

text \<open>Only the nodes in the queue matter to it.\<close>

lemma pq_inv_mem:
  assumes "pq_inv q" "\<And>a. a \<in> members q \<Longrightarrow> m a = pq_mem q a"
  shows "pq_inv (q\<lparr>pq_mem := m\<rparr>)" "members (q\<lparr>pq_mem := m\<rparr>) = members q"
proof -
  obtain V where V: "pq_ok q V"
    using assms(1) by (auto simp: pq_inv_def)
  then have f: "full q V"
    by (simp add: pq_ok_def)
  have m: "m (V k) = pq_mem q (V k)" if "1 \<le> k" "k < pq_size q" for k
    using assms(2) that full_members [OF f] by auto
  have "edge (prio (q\<lparr>pq_mem := m\<rparr>)) V k = edge (prio q) V k" if "2 \<le> k" "k < pq_size q" for k
    using m [of k] m [of "k div 2"] that by (simp add: edge_def prio_def info_def)
  then have "pq_ok (q\<lparr>pq_mem := m\<rparr>) V"
    using V m by (simp add: pq_ok_def full_def at_def heap_def)
  then show "pq_inv (q\<lparr>pq_mem := m\<rparr>)"
    by (auto simp: pq_inv_def)
qed (simp add: members_def)

lemma pqueue_insert_ok:
  assumes "pq_inv q" "pq_room q" "d \<notin> members q" "pq_mem q d \<noteq> None"
  shows "\<exists>q'. pqueue_insert q d = Inr q' \<and> pq_inv q' \<and> members q' = insert d (members q) \<and>
     info q' = info q \<and> pq_size q' = pq_size q + 1 \<and> pq_room q'"
proof -
  obtain V where V: "pq_ok q V"
    using assms(1) by (auto simp: pq_inv_def)
  let ?n = "pq_size q"
  define g where "g = (if ?n \<ge> pq_avail q then q\<lparr>pq_d := pq_d q @ replicate (?n + pq_step q - length (pq_d q)) None,
      pq_avail := ?n + pq_step q\<rparr> else q)"
  have f: "full q V" "heap (prio q) V ?n" "1 \<le> ?n" "length (pq_d q) = pq_avail q" "1 \<le> pq_step q"
    using V assms(2) by (auto simp: pq_ok_def pq_room_def)
  have g: "pq_size g = ?n" "?n < length (pq_d g)" "length (pq_d g) = pq_avail g" "pq_step g = pq_step q" "pq_mem g = pq_mem q"
      "\<And>k. k < ?n \<Longrightarrow> pq_d g ! k = pq_d q ! k"
    using f by (auto simp: g_def full_def nth_append)
  let ?q = "g\<lparr>pq_size := ?n + 1, pq_d := (pq_d g)[?n := Some d]\<rparr>" and ?V = "V(?n := d)"
  have "at ?q ?V k" if "1 \<le> k" "k < ?n" for k
    using f(1) that g(5,6) by (simp add: full_def at_def)
  moreover have "d \<notin> V ` {1..<?n}"
    using assms(3) full_members [OF f(1)] by simp
  then have "inj_on ?V {1..<Suc ?n}"
    using f(1) by (auto simp: full_def inj_on_def image_iff less_Suc_eq)
  then have "inj_on ?V (insert ?n {1..<Suc ?n})"
    using f(3) by (simp add: insert_absorb)
  ultimately have "seated ?q ?n ?V"
    using g f(3) assms(4) by (simp add: seated_def hole_def)
  moreover have p: "prio ?q = prio q" "info ?q = info q"
    using g(5) by (simp_all add: prio_def info_def fun_eq_iff)
  have "up_inv (prio ?q) ?V ?n (pq_size ?q)"
    using f(2) unfolding p by (auto simp: up_inv_def skips_def heap_def edge_def)
  ultimately obtain q' W where b: "bubble_up ?q ?n = Inr q'" "full q' W" "same ?q q'" "perm (pq_size ?q) ?V W"
      "heap (prio q') W (pq_size q')"
    using bubble_up_ok [of ?q ?n ?V] by auto
  have "?V ` {1..<pq_size ?q} = insert d (members q)"
    using full_members [OF f(1)] f(3) by (auto simp: less_Suc_eq)
  then have m: "pq_inv q'" "members q' = insert d (members q)" "info q' = info ?q" "pq_size q' = pq_size ?q" "pq_room q' = pq_room ?q"
    by (intro moved [OF b(2-5)]; use f g in simp)+
  have "pqueue_insert q d = bindE (set_d (g\<lparr>pq_size := ?n + 1\<rparr>) ?n d) (\<lambda>q. bubble_up q ?n)"
    unfolding pqueue_insert_def Let_def g_def [symmetric] g(1) ..
  also have "\<dots> = Inr q'"
    using b(1) g(2) by (simp add: set_d_def)
  finally show ?thesis
    using m p g f(5) by (simp add: pq_room_def)
qed

text \<open>A heap in which the priority at one slot changes.\<close>

lemma change_one:
  assumes "heap p V n" "m \<le> n" "1 \<le> i" "\<And>k. 1 \<le> k \<Longrightarrow> k < m \<Longrightarrow> k \<noteq> i \<Longrightarrow> p' (W k) = p (V k)"
  shows "p (V i) \<le> p' (W i) \<Longrightarrow> up_inv p' W i m" "p' (W i) \<le> p (V i) \<Longrightarrow> down_inv p' W i m"
proof -
  have e: "p (V k) \<le> p (V (k div 2))" if "2 \<le> k" "k < m" for k
    using assms(1,2) that by (auto simp: heap_def edge_def)
  have s: "skips p' W i m"
    unfolding skips_def
  proof (intro allI impI, elim conjE)
    fix k assume k: "2 \<le> k" "k < m" "k div 2 = i" "2 \<le> i"
    have i: "i < m" "i div 2 \<noteq> i" "1 \<le> i div 2" "k \<noteq> i"
      using k by auto
    have "p (V k) \<le> p (V i)" "p (V i) \<le> p (V (i div 2))"
      using e [OF k(1,2)] e [of i] k i by auto
    moreover have "p' (W k) = p (V k)" "p' (W (i div 2)) = p (V (i div 2))"
      by (rule assms(4); use k i in linarith)+
    ultimately show "p' (W k) \<le> p' (W (i div 2))"
      by linarith
  qed
  show "up_inv p' W i m" if u: "p (V i) \<le> p' (W i)"
    unfolding up_inv_def edge_def
  proof (intro conjI s allI impI, elim conjE)
    fix k assume k: "2 \<le> k" "k < m" "k \<noteq> i"
    have "p' (W k) = p (V k)"
      by (rule assms(4)) (use k in linarith)+
    moreover have "p (V (k div 2)) \<le> p' (W (k div 2))"
      using u assms(4) [of "k div 2"] k by (cases "k div 2 = i") auto
    ultimately show "p' (W k) \<le> p' (W (k div 2))"
      using e [OF k(1,2)] by linarith
  qed
  show "down_inv p' W i m" if d: "p' (W i) \<le> p (V i)"
    unfolding down_inv_def edge_def
  proof (intro conjI s allI impI, elim conjE)
    fix k assume k: "2 \<le> k" "k < m" "k div 2 \<noteq> i"
    have "p' (W (k div 2)) = p (V (k div 2))"
      by (rule assms(4)) (use k in linarith)+
    moreover have "p' (W k) \<le> p (V k)"
      using d assms(4) [of k] k by (cases "k = i") auto
    ultimately show "p' (W k) \<le> p' (W (k div 2))"
      using e [OF k(1,2)] by linarith
  qed
qed

lemma pqueue_change_priority_ok:
  assumes "pq_inv q" "d \<in> members q"
  shows "\<exists>q'. pqueue_change_priority q p d = Some (Inr q') \<and> pq_inv q' \<and> members q' = members q \<and>
     info q' = (info q)(d := map_option (\<lambda>(_, i). (p, i)) (info q d)) \<and> pq_size q' = pq_size q \<and> pq_room q' = pq_room q"
proof -
  obtain V where V: "pq_ok q V"
    using assms(1) by (auto simp: pq_inv_def)
  obtain k where k: "1 \<le> k" "k < pq_size q" "V k = d" "pq_d q ! k = Some d" "get_pos q d = Inr k" "pq_mem q d \<noteq> None"
    using member_slot [OF V assms(2)] .
  then obtain x where x: "pq_mem q d = Some x"
    by auto
  let ?q = "q\<lparr>pq_mem := (pq_mem q)(d \<mapsto> x\<lparr>pri := p\<rparr>)\<rparr>" and ?n = "pq_size q"
  have f: "full q V" "heap (prio q) V ?n" "1 \<le> ?n"
    using V by (auto simp: pq_ok_def)
  have ne: "V j \<noteq> d" if "1 \<le> j" "j < ?n" "j \<noteq> k" for j
    using f(1) inj_onD [of V "{1..<?n}" j k] k that by (auto simp: full_def)
  have "at ?q V j" if "1 \<le> j" "j < ?n" "j \<noteq> k" for j
    using f(1) that ne [OF that] by (simp add: full_def at_def)
  then have st: "seated ?q k V"
    using f(1) k by (auto simp: seated_def hole_def full_def insert_absorb)
  have i: "info ?q = (info q)(d := map_option (\<lambda>(_, i). (p, i)) (info q d))"
    using x by (auto simp: info_def fun_eq_iff)
  have pr: "prio ?q (V j) = prio q (V j)" if "1 \<le> j" "j < ?n" "j \<noteq> k" for j
    using ne [OF that] by (simp add: prio_def info_def)
  have pk: "prio ?q (V k) = p"
    by (simp add: prio_def info_def k(3))
  have c: "pqueue_change_priority q p d = (if prio q d < p then Some (bubble_up ?q k) else percolate_down ?q k)"
    using x k(5) by (simp add: pqueue_change_priority_def get_pri_eq set_pri_def get_node_def get_pos_def cmp_pri_def)
  have "\<exists>q' W. pqueue_change_priority q p d = Some (Inr q') \<and> full q' W \<and> same ?q q' \<and> perm (pq_size ?q) V W \<and>
      heap (prio q') W (pq_size q')"
  proof (cases "prio q d < p")
    case True
    then have "up_inv (prio ?q) V k (pq_size ?q)"
      by (intro change_one(1) [OF f(2) _ k(1)]) (use pr k(3) pk in auto)
    then show ?thesis
      using bubble_up_ok [OF st] k(2) c True by simp
  next
    case False
    then have "down_inv (prio ?q) V k (pq_size ?q)"
      by (intro change_one(2) [OF f(2) _ k(1)]) (use pr k(3) pk in auto)
    then show ?thesis
      using percolate_down_ok [OF st] c False by simp
  qed
  then obtain q' W where b: "pqueue_change_priority q p d = Some (Inr q')" "full q' W" "same ?q q'" "perm (pq_size ?q) V W"
      "heap (prio q') W (pq_size q')"
    by (elim exE conjE)
  have "pq_inv q'" "members q' = members q" "info q' = info ?q" "pq_size q' = pq_size ?q" "pq_room q' = pq_room ?q"
    by (intro moved [OF b(2-5)]; use f full_members [OF f(1)] in simp)+
  then show ?thesis
    using b(1) i by (simp add: pq_room_def)
qed

text \<open>The last node moved to slot \<open>i\<close>, from which the node has gone, and the queue shortened.\<close>

lemma last_to:
  assumes "pq_ok q V" "1 \<le> i" "i < pq_size q"
  defines "n \<equiv> pq_size q - 1"
  defines "W \<equiv> V(i := V n)"
  defines "r \<equiv> q\<lparr>pq_size := n, pq_d := (pq_d q)[i := Some (V n)]\<rparr>"
  shows "get_d (q\<lparr>pq_size := n\<rparr>) n = Inr (V n)" "set_d (q\<lparr>pq_size := n\<rparr>) i (V n) = Inr r" "seated r i W"
    "info r = info q" "W ` {1..<n} = members q - {V i}"
proof -
  have f: "full q V" "pq_size q \<le> length (pq_d q)"
    using assms(1) by (auto simp: pq_ok_def full_def)
  have n: "1 \<le> n" "n < pq_size q" "pq_size q = Suc n"
    using assms(2,3) by (auto simp: n_def)
  have a: "at q V k" if "1 \<le> k" "k < pq_size q" for k
    using f(1) that by (simp add: full_def)
  have inj: "V j = V k \<longleftrightarrow> j = k" if "1 \<le> j" "j \<le> n" "1 \<le> k" "k \<le> n" for j k
    using f(1) inj_onD [of V "{1..<pq_size q}" j k] that n(3) by (auto simp: full_def)
  show "get_d (q\<lparr>pq_size := n\<rparr>) n = Inr (V n)"
    using a [OF n(1,2)] n f(2) by (simp add: get_d_def at_def)
  show "set_d (q\<lparr>pq_size := n\<rparr>) i (V n) = Inr r"
    using assms(3) f(2) by (simp add: set_d_def r_def)
  have i: "i \<le> n"
    using assms(3) n(3) by simp
  have "at r W k" if "1 \<le> k" "k < n" "k \<noteq> i" for k
    using a [of k] that n by (simp add: at_def r_def W_def)
  moreover have "inj_on W (insert i {1..<n})"
  proof (rule inj_onI)
    fix j k assume j: "j \<in> insert i {1..<n}" and k: "k \<in> insert i {1..<n}" and w: "W j = W k"
    have "1 \<le> j" "j \<le> n" "1 \<le> k" "k \<le> n" "j \<noteq> i \<Longrightarrow> j < n" "k \<noteq> i \<Longrightarrow> k < n"
      using j k assms(2) i by auto
    then show "j = k"
      using w inj [of j k] inj [of n k] inj [of j n] n(1) by (cases "j = i"; cases "k = i") (simp_all add: W_def)
  qed
  ultimately show "seated r i W"
    using a [OF n(1,2)] assms(2,3) f(2) n by (auto simp: seated_def hole_def r_def W_def at_def)
  show "info r = info q"
    by (simp add: r_def info_def fun_eq_iff)
  have s: "{1..<pq_size q} = insert n {1..<n}"
    using n by auto
  have "W ` {1..<n} = V ` {1..<pq_size q} - {V i}"
  proof (intro equalityI subsetI)
    fix x assume "x \<in> W ` {1..<n}"
    then obtain k where k: "1 \<le> k" "k < n" "x = W k"
      by auto
    then show "x \<in> V ` {1..<pq_size q} - {V i}"
      using inj [of k i] inj [of n i] assms(2) i n by (cases "k = i") (auto simp: W_def)
  next
    fix x assume "x \<in> V ` {1..<pq_size q} - {V i}"
    then obtain k where k: "k \<in> {1..<pq_size q}" "x = V k" "x \<noteq> V i"
      by blast
    then have "1 \<le> k" "k \<le> n" "k \<noteq> i"
      using n(3) by auto
    then show "x \<in> W ` {1..<n}"
      using i assms(2) k(2) by (cases "k = n") (auto simp: W_def image_iff intro!: bexI [of _ i] bexI [of _ k])
  qed
  then show "W ` {1..<n} = members q - {V i}"
    using full_members [OF f(1)] by simp
qed

lemma heap_top:
  assumes "heap p V n" "1 \<le> k" "k < n"
  shows "p (V k) \<le> p (V 1)"
  using assms(2,3)
proof (induction k rule: less_induct)
  case (less k)
  show ?case
  proof (cases "k = 1")
    case False
    then have "p (V k) \<le> p (V (k div 2))" "p (V (k div 2)) \<le> p (V 1)"
      using assms(1) less by (auto simp: heap_def edge_def)
    then show ?thesis
      by (rule order_trans)
  qed simp
qed

lemma pqueue_remove_ok:
  assumes "pq_inv q" "d \<in> members q"
  shows "\<exists>q'. pqueue_remove q d = Some (Inr q') \<and> pq_inv q' \<and> members q' = members q - {d} \<and>
     info q' = info q \<and> pq_size q' = pq_size q - 1 \<and> pq_room q' = pq_room q"
proof -
  obtain V where V: "pq_ok q V"
    using assms(1) by (auto simp: pq_inv_def)
  obtain k where k: "1 \<le> k" "k < pq_size q" "V k = d" "pq_d q ! k = Some d" "get_pos q d = Inr k" "pq_mem q d \<noteq> None"
    using member_slot [OF V assms(2)] .
  let ?n = "pq_size q - 1"
  let ?W = "V(k := V ?n)" and ?q = "q\<lparr>pq_size := ?n, pq_d := (pq_d q)[k := Some (V ?n)]\<rparr>"
  note l = last_to [OF V k(1,2)]
  have f: "heap (prio q) V (pq_size q)" "1 \<le> ?n"
    using V k by (auto simp: pq_ok_def)
  have p: "prio ?q = prio q"
    using l(4) by (simp add: prio_def fun_eq_iff)
  have "get_pri ?q (V ?n) = Inr (prio q (V ?n))" "get_pri ?q d = Inr (prio q d)"
    using seated_get [OF l(3)] k(6) p by (simp_all add: get_pri_eq)
  then have c: "pqueue_remove q d = (if prio q d < prio q (V ?n) then Some (bubble_up ?q k) else percolate_down ?q k)"
    using l(1,2) k(5) by (simp add: pqueue_remove_def cmp_pri_def Let_def)
  have "\<exists>q' W. pqueue_remove q d = Some (Inr q') \<and> full q' W \<and> same ?q q' \<and> perm (pq_size ?q) ?W W \<and>
      heap (prio q') W (pq_size q')"
  proof (cases "prio q d < prio q (V ?n)")
    case True
    then have "k \<noteq> ?n"
      using k(3) by auto
    moreover have "up_inv (prio ?q) ?W k (pq_size ?q)"
      unfolding p by (intro change_one(1) [OF f(1) _ k(1)]) (use True k(3) in auto)
    ultimately show ?thesis
      using bubble_up_ok [OF l(3)] k(2) c True by simp
  next
    case False
    then have "down_inv (prio ?q) ?W k (pq_size ?q)"
      unfolding p by (intro change_one(2) [OF f(1) _ k(1)]) (use k(3) in auto)
    then show ?thesis
      using percolate_down_ok [OF l(3)] c False by simp
  qed
  then obtain q' W where b: "pqueue_remove q d = Some (Inr q')" "full q' W" "same ?q q'" "perm (pq_size ?q) ?W W"
      "heap (prio q') W (pq_size q')"
    by (elim exE conjE)
  have "pq_inv q'" "members q' = members q - {d}" "info q' = info ?q" "pq_size q' = pq_size ?q" "pq_room q' = pq_room ?q"
    by (intro moved [OF b(2-5)]; use f l(5) k(3) in simp)+
  then show ?thesis
    using b(1) l(4) by (simp add: pq_room_def)
qed

lemma pqueue_peek_ok:
  assumes "pq_inv q"
  shows "\<exists>h. pqueue_peek q = Inr h \<and> (if members q = {} then h = None
     else \<exists>a. h = Some a \<and> a \<in> members q \<and> (\<forall>b \<in> members q. prio q b \<le> prio q a))"
proof (cases "pq_size q = 1")
  case False
  obtain V where V: "pq_ok q V"
    using assms by (auto simp: pq_inv_def)
  then have f: "full q V" "heap (prio q) V (pq_size q)" "1 < pq_size q"
    using False by (auto simp: pq_ok_def)
  then have "at q V 1" "pq_size q \<le> length (pq_d q)"
    by (auto simp: full_def)
  then have "pqueue_peek q = Inr (Some (V 1))"
    using f(3) False by (simp add: pqueue_peek_def get_d_def at_def)
  moreover have "V 1 \<in> members q" "\<forall>b \<in> members q. prio q b \<le> prio q (V 1)"
    using f heap_top [OF f(2)] unfolding full_members [OF f(1)] by auto
  ultimately show ?thesis
    by (intro exI [of _ "Some (V 1)"]) auto
qed (auto simp: pqueue_peek_def members_def)

lemma pqueue_pop_ok:
  assumes "pq_inv q"
  shows "\<exists>q'. pqueue_pop q = Some (bindE (pqueue_peek q) (\<lambda>h. Inr (h, q'))) \<and> pq_inv q' \<and> info q' = info q \<and>
     members q' = members q - set_option (case pqueue_peek q of Inr h \<Rightarrow> h | Inl _ \<Rightarrow> None) \<and> pq_size q' - 1 = pq_size q - 2 \<and>
     pq_room q' = pq_room q"
proof (cases "pq_size q = 1")
  case True
  then show ?thesis
    using assms by (intro exI [of _ q]) (simp add: pqueue_pop_def pqueue_peek_def)
next
  case False
  obtain V where V: "pq_ok q V"
    using assms by (auto simp: pq_inv_def)
  then have f: "heap (prio q) V (pq_size q)" "1 < pq_size q" "full q V"
    using False by (auto simp: pq_ok_def)
  let ?n = "pq_size q - 1"
  let ?W = "V(1 := V ?n)" and ?q = "q\<lparr>pq_size := ?n, pq_d := (pq_d q)[1 := Some (V ?n)]\<rparr>"
  note l = last_to [OF V _ f(2)]
  have g: "get_d q 1 = Inr (V 1)"
    using f(2,3) by (auto simp: full_def at_def get_d_def)
  have p: "prio ?q = prio q"
    using l(4) by (simp add: prio_def fun_eq_iff)
  have "down_inv (prio ?q) ?W 1 (pq_size ?q)"
    unfolding p by (intro change_one(2) [OF f(1)]) (use heap_top [OF f(1), of ?n] f(2) in auto)
  then obtain q' W where b: "percolate_down ?q 1 = Some (Inr q')" "full q' W" "same ?q q'" "perm (pq_size ?q) ?W W"
      "heap (prio q') W (pq_size q')"
    using percolate_down_ok [OF l(3)] by auto
  have "pq_inv q'" "members q' = members q - {V 1}" "info q' = info ?q" "pq_size q' = pq_size ?q" "pq_room q' = pq_room ?q"
    by (intro moved [OF b(2-5)]; use f l(5) in simp)+
  moreover have "pqueue_pop q = Some (Inr (Some (V 1), q'))" "pqueue_peek q = Inr (Some (V 1))"
    using False l(1,2) b(1) g by (simp_all add: pqueue_pop_def pqueue_peek_def Let_def)
  ultimately show ?thesis
    using l(4) f(2) by (intro exI [of _ q']) (simp add: pq_room_def)
qed

section \<open>The validity check\<close>

definition under :: "nat \<Rightarrow> nat \<Rightarrow> bool" where
  "under i k \<longleftrightarrow> (\<exists>j. k div 2 ^ j = i)"

lemma under_step: "under i k \<longleftrightarrow> k = i \<or> under (left i) k \<or> under (right i) k"
proof
  assume "under i k"
  then obtain j where j: "k div 2 ^ j = i"
    by (auto simp: under_def)
  show "k = i \<or> under (left i) k \<or> under (right i) k"
  proof (cases j)
    case (Suc m)
    then have "(k div 2 ^ m) div 2 = i"
      using j by (metis div_mult2_eq power_Suc2)
    then have "k div 2 ^ m = left i \<or> k div 2 ^ m = right i"
      by linarith
    then show ?thesis
      by (auto simp: under_def)
  qed (use j in simp)
next
  have "under i k" if "k div 2 ^ m = left i \<or> k div 2 ^ m = right i" for m
  proof -
    have "k div 2 ^ m div 2 = i"
      using that by auto
    then have "k div 2 ^ Suc m = i"
      by (metis div_mult2_eq power_Suc2)
    then show ?thesis
      unfolding under_def by blast
  qed
  moreover assume "k = i \<or> under (left i) k \<or> under (right i) k"
  ultimately show "under i k"
    by (auto simp: under_def intro: exI [of _ 0])
qed

lemma under_le: "under i k \<Longrightarrow> i \<le> k"
  by (auto simp: under_def)

lemma under_one: "1 \<le> k \<Longrightarrow> under 1 k"
proof (induction k rule: less_induct)
  case (less k)
  show ?case
  proof (cases "k = 1")
    case False
    then have "k div 2 < k" "1 \<le> k div 2"
      using less.prems by linarith+
    then obtain j where "k div 2 div 2 ^ j = 1"
      using less.IH [of "k div 2"] by (auto simp: under_def)
    then have "k div 2 ^ Suc j = 1"
      by (simp add: div_mult2_eq)
    then show ?thesis
      unfolding under_def by blast
  qed (auto simp: under_def intro: exI [of _ 0])
qed

definition ordered_below :: "pqueue_t \<Rightarrow> (nat \<Rightarrow> addr) \<Rightarrow> nat \<Rightarrow> bool" where
  "ordered_below q V i \<longleftrightarrow> (\<forall>k. k < pq_size q \<and> (under (left i) k \<or> under (right i) k) \<longrightarrow> edge (prio q) V k)"

lemma ordered_below_child:
  assumes "j = left i \<or> j = right i"
  shows "(\<forall>k. k < pq_size q \<and> under j k \<longrightarrow> edge (prio q) V k) \<longleftrightarrow>
     (if j < pq_size q then prio q (V j) \<le> prio q (V i) \<and> ordered_below q V j else True)"
proof -
  have "j div 2 = i"
    using assms by auto
  then show ?thesis
    using under_step [of j] under_le [of j] unfolding ordered_below_def edge_def by force
qed

lemma below_eq:
  assumes "full q V" "1 \<le> i" "i < pq_size q" "1 \<le> j" "j < pq_size q"
  shows "below q i j = Inr (prio q (V i) < prio q (V j))"
proof -
  have "at q V i" "at q V j" "pq_size q \<le> length (pq_d q)"
    using assms by (auto simp: full_def)
  then have "get_d q i = Inr (V i)" "get_d q j = Inr (V j)" "pq_mem q (V i) \<noteq> None" "pq_mem q (V j) \<noteq> None"
    using assms(3,5) by (auto simp: at_def get_d_def)
  then show ?thesis
    by (simp add: below_def get_pri_eq cmp_pri_def)
qed

lemma subtree_is_valid_eq:
  assumes "full q V" "1 \<le> i"
  shows "subtree_is_valid q i = Some (Inr (ordered_below q V i))"
  using assms(2)
proof (induction "pq_size q - i" arbitrary: i rule: less_induct)
  case less
  have child: "(if j < pq_size q then bindO (Some (below q i j)) (\<lambda>b. if b then Some (Inr False) else subtree_is_valid q j)
      else Some (Inr True)) = Some (Inr (\<forall>k. k < pq_size q \<and> under j k \<longrightarrow> edge (prio q) V k))"
    if j: "j = left i \<or> j = right i" for j
  proof (cases "j < pq_size q")
    case True
    then have b: "below q i j = Inr (prio q (V i) < prio q (V j))"
      by (intro below_eq [OF assms(1)]) (use j less.prems in auto)
    have "subtree_is_valid q j = Some (Inr (ordered_below q V j))"
      by (rule less.hyps) (use j True less.prems in auto)
    then show ?thesis
      using True b unfolding ordered_below_child [OF j] by auto
  qed (use ordered_below_child [OF j] in auto)
  have "ordered_below q V i \<longleftrightarrow> (\<forall>k. k < pq_size q \<and> under (left i) k \<longrightarrow> edge (prio q) V k) \<and>
      (\<forall>k. k < pq_size q \<and> under (right i) k \<longrightarrow> edge (prio q) V k)"
    unfolding ordered_below_def by blast
  then show ?case
    unfolding subtree_is_valid.simps [of q i] using child [of "left i"] child [of "right i"]
    by (cases "\<forall>k. k < pq_size q \<and> under (left i) k \<longrightarrow> edge (prio q) V k") simp_all
qed

lemma pqueue_is_valid_eq:
  assumes "full q V"
  shows "pqueue_is_valid q = Some (Inr (heap (prio q) V (pq_size q)))"
proof -
  have "under (left 1) k \<or> under (right 1) k \<longleftrightarrow> 2 \<le> k" for k
    using under_step [of 1 k] under_one [of k] under_le [of "left 1" k] under_le [of "right 1" k] by auto
  then have "ordered_below q V 1 \<longleftrightarrow> heap (prio q) V (pq_size q)"
    unfolding ordered_below_def heap_def by blast
  then show ?thesis
    using subtree_is_valid_eq [OF assms, of 1] by (simp add: pqueue_is_valid_def)
qed

section \<open>Draining the queue\<close>

lemma pqueue_drain_ok:
  assumes "pq_inv q"
  shows "\<exists>l q'. pqueue_drain q = Some (Inr (l, q')) \<and> distinct l \<and> set l = members q \<and>
     sorted_wrt (\<lambda>a b. prio q b \<le> prio q a) l \<and> members q' = {} \<and> info q' = info q"
  using assms
proof (induction "card (members q)" arbitrary: q rule: less_induct)
  case less
  obtain h where h: "pqueue_peek q = Inr h" "if members q = {} then h = None
     else \<exists>a. h = Some a \<and> a \<in> members q \<and> (\<forall>b \<in> members q. prio q b \<le> prio q a)"
    using pqueue_peek_ok [OF less.prems] by blast
  obtain q1 where p: "pqueue_pop q = Some (Inr (h, q1))" "pq_inv q1" "info q1 = info q" "members q1 = members q - set_option h"
    using pqueue_pop_ok [OF less.prems] h(1) by auto
  show ?case
  proof (cases h)
    case None
    then have "members q = {}" "pqueue_drain q = Some (Inr ([], q1))"
      using h(2) p(1) by (auto simp: pqueue_drain.simps [of q] split: if_splits)
    then show ?thesis
      using p None by (intro exI [of _ "[]"] exI [of _ q1]) simp
  next
    case (Some a)
    then have a: "a \<in> members q" "\<And>b. b \<in> members q \<Longrightarrow> prio q b \<le> prio q a"
      using h(2) by (auto split: if_splits)
    then have "card (members q1) < card (members q)"
      using p(4) Some members_card [OF less.prems] by (auto intro: psubset_card_mono)
    then obtain l q' where l: "pqueue_drain q1 = Some (Inr (l, q'))" "distinct l" "set l = members q1"
        "sorted_wrt (\<lambda>a b. prio q1 b \<le> prio q1 a) l" "members q' = {}" "info q' = info q1"
      using less.hyps p(2) by blast
    have "prio q1 = prio q"
      using p(3) by (simp add: prio_def fun_eq_iff)
    moreover have "pqueue_drain q = Some (Inr (a # l, q'))"
      using p(1) l(1) Some by (simp add: pqueue_drain.simps [of q])
    ultimately show ?thesis
      using l p(3,4) a Some by (intro exI [of _ "a # l"] exI [of _ q']) auto
  qed
qed

section \<open>Properties\<close>

definition example_pqueue :: pqueue_t where
  "example_pqueue = \<lparr>pq_size = 4, pq_avail = 5, pq_step = 5, pq_d = [None, Some 3, Some 1, Some 2, None],
     pq_mem = [1 \<mapsto> \<lparr>pri = 10, pq_obj_id = 101, pos = 2\<rparr>, 2 \<mapsto> \<lparr>pri = 20, pq_obj_id = 102, pos = 3\<rparr>,
       3 \<mapsto> \<lparr>pri = 30, pq_obj_id = 103, pos = 1\<rparr>, 4 \<mapsto> \<lparr>pri = 40, pq_obj_id = 104, pos = 0\<rparr>]\<rparr>"

lemma example_pqueue_ok: "pq_inv example_pqueue" "pq_room example_pqueue" "members example_pqueue = {1, 2, 3}"
proof -
  have k: "k = 1 \<or> k = 2 \<or> k = 3" if "1 \<le> k" "k < 4" for k :: nat
    using that by auto
  have s: "{1..<4} = {1, 2, 3 :: nat}"
    by auto
  let ?V = "\<lambda>k :: nat. if k = 1 then 3 else if k = 2 then 1 else 2 :: addr"
  have f: "full example_pqueue ?V"
    unfolding full_def inj_on_def by (auto simp: example_pqueue_def at_def dest!: k)
  moreover have "heap (prio example_pqueue) ?V 4"
    unfolding heap_def edge_def using k by (force simp: example_pqueue_def prio_def info_def)
  ultimately show "pq_inv example_pqueue"
    unfolding pq_inv_def pq_ok_def by (intro exI [of _ ?V]) (simp add: example_pqueue_def)
  show "members example_pqueue = {1, 2, 3}"
  proof -
    have "pq_size example_pqueue = 4"
      by (simp add: example_pqueue_def)
    then show ?thesis
      unfolding full_members [OF f] by (simp only: s) auto
  qed
qed (simp add: pq_room_def example_pqueue_def)

text \<open>
  Printing writes the slots of the copy into the shared nodes: the removal of node 2 after it takes node 3
  out of the queue, and node 2 stays, at its head.
\<close>

lemma pqueue_print_corrupts:
  "bindO (pqueue_print example_pqueue) (\<lambda>(l, q). bindO (pqueue_remove q 2) (\<lambda>q. Some (bindE (pqueue_peek q) (\<lambda>h. Inr (l, h))))) =
   Some (Inr ([3, 2, 1], Some 2))"
  by code_simp



text \<open>
  C18: \<open>pqueue_pop\<close> takes out a node of largest priority, the one \<open>pqueue_peek\<close> names, and gives NULL exactly
  on the empty queue; popping until then, as \<open>pqueue_print\<close> does on its copy, gives every node once, in the
  order of falling priority.
\<close>

theorem pqueue_pop_correct:
  assumes "pq_inv q"
  shows "\<exists>h q' l q''. pqueue_peek q = Inr h \<and> pqueue_pop q = Some (Inr (h, q')) \<and> pq_inv q' \<and> info q' = info q \<and>
     members q' = members q - set_option h \<and> (h = None \<longleftrightarrow> members q = {}) \<and>
     (\<forall>a. h = Some a \<longrightarrow> a \<in> members q \<and> (\<forall>b. b \<in> members q \<longrightarrow> prio q b \<le> prio q a)) \<and>
     pqueue_print q = Some (Inr (l, q'')) \<and> distinct l \<and> set l = members q \<and> sorted_wrt (\<lambda>a b. prio q b \<le> prio q a) l"
proof -
  let ?dup = "q\<lparr>pq_d := take (pq_size q) (pq_d q) @ [None]\<rparr>"
  obtain V where V: "pq_ok q V"
    using assms by (auto simp: pq_inv_def)
  then have f: "full q V" "pq_size q \<le> length (pq_d q)" "1 \<le> pq_size q"
    by (auto simp: pq_ok_def full_def)
  have at: "at ?dup V k = at q V k" if "k < pq_size q" for k
    using that f(2) by (simp add: at_def nth_append)
  have i: "info ?dup = info q" "prio ?dup = prio q"
    by (simp_all add: info_def prio_def fun_eq_iff)
  have F: "full ?dup V"
    using f(1) at by (auto simp: full_def)
  then have "pq_inv ?dup" "members ?dup = members q"
    using V full_members [OF F] full_members [OF f(1)] i(2) by (auto simp: pq_inv_def pq_ok_def)
  then obtain l q1 where l: "pqueue_drain ?dup = Some (Inr (l, q1))" "distinct l" "set l = members q"
      "sorted_wrt (\<lambda>a b. prio q b \<le> prio q a) l"
    using pqueue_drain_ok [of ?dup] i(2) by auto
  have "pqueue_print q = bindO (pqueue_drain ?dup) (\<lambda>(l, dup). Some (Inr (l, q\<lparr>pq_mem := pq_mem dup\<rparr>)))"
    using drop_replicate [of "pq_size q" "Suc (pq_size q)" "None :: addr option"]
    by (cases q) (simp add: pqueue_print_def pqueue_init_def Let_def)
  then have "pqueue_print q = Some (Inr (l, q\<lparr>pq_mem := pq_mem q1\<rparr>))"
    using l(1) by simp
  moreover obtain h where h: "pqueue_peek q = Inr h" "if members q = {} then h = None
     else \<exists>a. h = Some a \<and> a \<in> members q \<and> (\<forall>b \<in> members q. prio q b \<le> prio q a)"
    using pqueue_peek_ok [OF assms] by blast
  moreover obtain q' where "pqueue_pop q = Some (Inr (h, q'))" "pq_inv q'" "info q' = info q" "members q' = members q - set_option h"
    using pqueue_pop_ok [OF assms] h(1) by auto
  moreover have "h = None \<longleftrightarrow> members q = {}" "\<forall>a. h = Some a \<longrightarrow> a \<in> members q \<and> (\<forall>b. b \<in> members q \<longrightarrow> prio q b \<le> prio q a)"
    using h(2) by (auto split: if_splits)
  ultimately show ?thesis
    using l(2-4) by (intro exI [of _ h] exI [of _ q'] exI [of _ l] exI [of _ "q\<lparr>pq_mem := pq_mem q1\<rparr>"]) simp
qed

theorem pqueue_pop_correct_witness:
  "\<exists>h q'. pqueue_peek example_pqueue = Inr h \<and> pqueue_pop example_pqueue = Some (Inr (h, q')) \<and> pq_inv q' \<and> h \<noteq> None"
  using pqueue_pop_correct [OF example_pqueue_ok(1)] example_pqueue_ok(3) by auto

text \<open>
  When the array and the slots in the nodes agree, \<open>pqueue_is_valid\<close> ends, without a wild access, and is
  true exactly on the queues in heap order.
\<close>

lemma pqueue_is_valid_correct:
  assumes "full q V"
  shows "pqueue_is_valid q = Some (Inr (\<forall>k. 2 \<le> k \<and> k < pq_size q \<longrightarrow> prio q (V k) \<le> prio q (V (parent k))))"
  using pqueue_is_valid_eq [OF assms] by (simp add: heap_def edge_def)

end
