(* ===== verification/PQ_Cache.thy ===== *)
theory PQ_Cache
  imports PQueue Table_Cache "HOL-Library.Log_Nat"
begin

text \<open>
  What the caches that keep their objects in a priority queue (\<open>Belady.c\<close>, \<open>Size.c\<close>) have in common: the
  pointer from an object to its node, the id in the node that leads back, and how the operations of the
  queue keep the two in step.
\<close>

section \<open>Parameters and metadata\<close>

text \<open>
  The metadata of an object: \<open>Belady_obj_metadata_t\<close>, of which \<open>Size_obj_metadata_t\<close> has the first field.
  A new object's metadata is zeroed.
\<close>

datatype pq_md = Pq_md (pq_node: "addr option") (next_access_vtime: int)

instantiation pq_md :: zero
begin

definition zero_pq_md :: pq_md where
  "zero_pq_md = Pq_md None 0"

instance ..

end

text \<open>\<open>pq_next\<close> is the address the next allocation of a node returns.\<close>

record pq_params =
  pq :: pqueue_t
  pq_next :: addr

type_synonym pq_cache = "(pq_md, pq_params) cache"

definition set_pq :: "pq_cache \<Rightarrow> pqueue_t \<Rightarrow> pq_cache" where
  "set_pq c q = c\<lparr>eviction_params := (eviction_params c)\<lparr>pq := q\<rparr>\<rparr>"

abbreviation pq_of :: "pq_cache \<Rightarrow> pqueue_t" where
  "pq_of c \<equiv> pq (eviction_params c)"

text \<open>\<open>my_malloc(pq_node_t)\<close> and the assignments to the fields; \<open>pos\<close> is left to the insertion.\<close>

definition new_node :: "pq_cache \<Rightarrow> obj_id \<Rightarrow> int \<Rightarrow> addr \<times> pq_cache" where
  "new_node c i p =
     (let a = pq_next (eviction_params c); q = pq_of c in
      (a, c\<lparr>eviction_params := (eviction_params c)
             \<lparr>pq := q\<lparr>pq_mem := (pq_mem q)(a \<mapsto> \<lparr>pri = p, pq_obj_id = i, pos = 0\<rparr>)\<rparr>, pq_next := a + 1\<rparr>\<rparr>))"

definition free_node :: "pq_cache \<Rightarrow> addr \<Rightarrow> pq_cache" where
  "free_node c a = set_pq c ((pq_of c)\<lparr>pq_mem := (pq_mem (pq_of c))(a := None)\<rparr>)"

definition node_ptr :: "addr option \<Rightarrow> addr result" where
  "node_ptr p = (case p of None \<Rightarrow> Inl NullDeref | Some a \<Rightarrow> Inr a)"

text \<open>
  The conversion of an \<open>int64_t\<close> to \<open>double\<close>: exact up to 53 bits, beyond that rounded to the nearest
  multiple of the last place, ties to even.
\<close>

definition i64_to_double :: "int \<Rightarrow> int" where
  "i64_to_double n =
     (if \<bar>n\<bar> \<le> 2 ^ 53 then n
      else let u = 2 ^ nat (bitlen \<bar>n\<bar> - 53); m = \<bar>n\<bar> div u; r = \<bar>n\<bar> mod u in
        sgn n * (if 2 * r > u \<or> 2 * r = u \<and> odd m then m + 1 else m) * u)"

section \<open>Objects and nodes\<close>

text \<open>
  Every object points to a node in the queue that carries its id, every node in the queue is that of an
  object, and no other node is allocated. \<open>K\<close> relates an object's metadata to the priority of its node.
\<close>

definition nodes_ok :: "(pq_md \<Rightarrow> int \<Rightarrow> bool) \<Rightarrow> (obj_id \<rightharpoonup> pq_md cache_obj) \<Rightarrow> pqueue_t \<Rightarrow> bool" where
  "nodes_ok K t q \<longleftrightarrow> pq_inv q \<and> pq_room q \<and> dom (pq_mem q) = members q \<and>
     (\<forall>i x. t i = Some x \<longrightarrow> (\<exists>a p. pq_node (md x) = Some a \<and> a \<in> members q \<and> info q a = Some (p, i) \<and> K (md x) p)) \<and>
     (\<forall>a. a \<in> members q \<longrightarrow> (\<exists>i p x. info q a = Some (p, i) \<and> t i = Some x \<and> pq_node (md x) = Some a))"

lemma nodes_okD:
  assumes "nodes_ok K t q" "t i = Some x"
  obtains a p where "pq_node (md x) = Some a" "a \<in> members q" "info q a = Some (p, i)" "K (md x) p"
  using assms by (fastforce simp: nodes_ok_def)

lemma nodes_ok_member:
  assumes "nodes_ok K t q" "a \<in> members q"
  obtains i p x where "info q a = Some (p, i)" "t i = Some x" "pq_node (md x) = Some a" "K (md x) p"
proof -
  obtain i p x where i: "info q a = Some (p, i)" "t i = Some x" "pq_node (md x) = Some a"
    using assms by (fastforce simp: nodes_ok_def)
  moreover have "K (md x) p"
    using nodes_okD [OF assms(1) i(2)] i by fastforce
  ultimately show thesis
    by (rule that)
qed

lemma nodes_ok_card: "nodes_ok K t q \<Longrightarrow> finite (dom t) \<Longrightarrow> card (dom t) = pq_size q - 1"
proof -
  assume n: "nodes_ok K t q" and f: "finite (dom t)"
  have "bij_betw (\<lambda>i. the (pq_node (md (the (t i))))) (dom t) (members q)"
  proof (rule bij_betw_imageI)
    show "inj_on (\<lambda>i. the (pq_node (md (the (t i))))) (dom t)"
    proof (rule inj_onI)
      fix i j assume "i \<in> dom t" "j \<in> dom t" and e: "the (pq_node (md (the (t i)))) = the (pq_node (md (the (t j))))"
      then obtain x y where x: "t i = Some x" "t j = Some y"
        by auto
      obtain a p where a: "pq_node (md x) = Some a" "info q a = Some (p, i)"
        using nodes_okD [OF n x(1)] by metis
      obtain b r where b: "pq_node (md y) = Some b" "info q b = Some (r, j)"
        using nodes_okD [OF n x(2)] by metis
      show "i = j"
        using e a b x by simp
    qed
    show "(\<lambda>i. the (pq_node (md (the (t i))))) ` dom t = members q"
    proof (intro equalityI subsetI)
      fix a assume "a \<in> members q"
      then obtain i p x where "t i = Some x" "pq_node (md x) = Some a"
        using nodes_ok_member [OF n] by metis
      then show "a \<in> (\<lambda>i. the (pq_node (md (the (t i))))) ` dom t"
        by (intro image_eqI [of _ _ i]) auto
    next
      fix a assume "a \<in> (\<lambda>i. the (pq_node (md (the (t i))))) ` dom t"
      then obtain i x where "t i = Some x" "a = the (pq_node (md x))"
        by auto
      then show "a \<in> members q"
        using nodes_okD [OF n, of i x] by force
    qed
  qed
  then have "card (dom t) = card (members q)"
    by (rule bij_betw_same_card)
  then show ?thesis
    using n members_card [of q] by (simp add: nodes_ok_def)
qed

lemma dom_info: "dom (info q) = dom (pq_mem q)"
  by (auto simp: info_def)

lemma nodes_ok_own:
  assumes "nodes_ok K t q" "t i = Some x" "t j = Some y" "pq_node (md x) = pq_node (md y)"
  shows "i = j"
  using nodes_okD [OF assms(1,2)] nodes_okD [OF assms(1,3)] assms(4)
  by (metis (no_types, lifting) Pair_inject option.inject)

lemma get_pri_info: "info q a = Some (p, i) \<Longrightarrow> get_pri q a = Inr p"
  by (auto simp: info_def get_pri_def get_node_def)

lemma nodes_ok_change:
  assumes "nodes_ok K t q" "t i = Some x" "pq_node (md x) = Some a" "pq_node (md y) = Some a" "K (md y) p"
  shows "\<exists>q'. pqueue_change_priority q p a = Some (Inr q') \<and> nodes_ok K (t(i \<mapsto> y)) q' \<and> get_pri q' a = Inr p \<and>
     dom (pq_mem q') = dom (pq_mem q)"
proof -
  obtain r where a: "a \<in> members q" "info q a = Some (r, i)"
    using nodes_okD [OF assms(1,2)] assms(3) by (metis option.inject)
  have q: "pq_inv q" "pq_room q" "dom (pq_mem q) = members q"
    using assms(1) by (auto simp: nodes_ok_def)
  obtain q' where c: "pqueue_change_priority q p a = Some (Inr q')" "pq_inv q'" "members q' = members q"
      "info q' = (info q)(a \<mapsto> (p, i))" "pq_room q'"
    using pqueue_change_priority_ok [OF q(1) a(1), of p] a(2) q(2) by auto
  have d: "dom (pq_mem q') = dom (pq_mem q)"
    unfolding dom_info [symmetric] c(4) using a(2) by auto
  have "nodes_ok K (t(i \<mapsto> y)) q'"
    unfolding nodes_ok_def
  proof (intro conjI allI impI)
    fix j z assume j: "(t(i \<mapsto> y)) j = Some z"
    show "\<exists>b r. pq_node (md z) = Some b \<and> b \<in> members q' \<and> info q' b = Some (r, j) \<and> K (md z) r"
    proof (cases "j = i")
      case False
      then have z: "t j = Some z"
        using j by simp
      obtain b r where b: "pq_node (md z) = Some b" "b \<in> members q" "info q b = Some (r, j)" "K (md z) r"
        using nodes_okD [OF assms(1) z] .
      then have "b \<noteq> a"
        using nodes_ok_own [OF assms(1) z assms(2)] assms(3) False by auto
      then show ?thesis
        using b c(3,4) by auto
    qed (use j assms(4,5) a(1) c(3,4) in auto)
  next
    fix b assume "b \<in> members q'"
    then obtain j r z where b: "info q b = Some (r, j)" "t j = Some z" "pq_node (md z) = Some b"
      using nodes_ok_member [OF assms(1)] c(3) by metis
    show "\<exists>j r z. info q' b = Some (r, j) \<and> (t(i \<mapsto> y)) j = Some z \<and> pq_node (md z) = Some b"
    proof (cases "b = a")
      case False
      then have "j \<noteq> i"
        using b assms(2,3) by auto
      then show ?thesis
        using b c(4) False by auto
    qed (use assms(4) c(4) in auto)
  qed (use c q d in auto)
  then show ?thesis
    using c d get_pri_info [of q' a p i] by auto
qed

lemma nodes_ok_new:
  assumes "nodes_ok K t q" "t i = None" "pq_mem q a = None" "pq_node (md y) = Some a" "K (md y) p"
  shows "\<exists>q'. pqueue_insert (q\<lparr>pq_mem := (pq_mem q)(a \<mapsto> \<lparr>pri = p, pq_obj_id = i, pos = 0\<rparr>)\<rparr>) a = Inr q' \<and>
     nodes_ok K (t(i \<mapsto> y)) q' \<and> get_pri q' a = Inr p \<and> dom (pq_mem q') = insert a (dom (pq_mem q))"
proof -
  let ?q = "q\<lparr>pq_mem := (pq_mem q)(a \<mapsto> \<lparr>pri = p, pq_obj_id = i, pos = 0\<rparr>)\<rparr>"
  have q: "pq_inv q" "pq_room q" "dom (pq_mem q) = members q" "a \<notin> members q"
    using assms(1,3) by (auto simp: nodes_ok_def)
  then have m: "pq_inv ?q" "members ?q = members q"
    by (intro pq_inv_mem; auto)+
  have i: "info ?q = (info q)(a \<mapsto> (p, i))"
    by (auto simp: info_def)
  obtain q' where c: "pqueue_insert ?q a = Inr q'" "pq_inv q'" "members q' = insert a (members q)"
      "info q' = (info q)(a \<mapsto> (p, i))" "pq_room q'"
    using pqueue_insert_ok [of ?q a] m q(2,4) i by (auto simp: pq_room_def)
  have d: "dom (pq_mem q') = insert a (dom (pq_mem q))"
    unfolding dom_info [symmetric] c(4) by auto
  have "nodes_ok K (t(i \<mapsto> y)) q'"
    unfolding nodes_ok_def
  proof (intro conjI allI impI)
    fix j z assume j: "(t(i \<mapsto> y)) j = Some z"
    show "\<exists>b r. pq_node (md z) = Some b \<and> b \<in> members q' \<and> info q' b = Some (r, j) \<and> K (md z) r"
    proof (cases "j = i")
      case False
      then obtain b r where b: "pq_node (md z) = Some b" "b \<in> members q" "info q b = Some (r, j)" "K (md z) r"
        using nodes_okD [OF assms(1), of j z] j by auto
      then show ?thesis
        using c(3,4) q(4) by auto
    qed (use j assms(4,5) c(3,4) in auto)
  next
    fix b assume b: "b \<in> members q'"
    show "\<exists>j r z. info q' b = Some (r, j) \<and> (t(i \<mapsto> y)) j = Some z \<and> pq_node (md z) = Some b"
    proof (cases "b = a")
      case False
      then obtain j r z where "info q b = Some (r, j)" "t j = Some z" "pq_node (md z) = Some b"
        using nodes_ok_member [OF assms(1)] b c(3) by (metis insertE)
      then show ?thesis
        using c(4) assms(2) False by (intro exI [of _ j] exI [of _ r] exI [of _ z]) auto
    qed (use assms(4) c(4) in auto)
  qed (use c q d in auto)
  then show ?thesis
    using c d get_pri_info [of q' a p i] by auto
qed

lemma nodes_ok_drop:
  assumes "nodes_ok K t q" "t i = Some x" "pq_node (md x) = Some a"
    "pq_inv q'" "pq_room q'" "members q' = members q - {a}" "info q' = info q"
  shows "nodes_ok K (t(i := None)) (q'\<lparr>pq_mem := (pq_mem q')(a := None)\<rparr>)"
proof -
  let ?q = "q'\<lparr>pq_mem := (pq_mem q')(a := None)\<rparr>"
  have m: "pq_inv ?q" "members ?q = members q - {a}"
    using pq_inv_mem [OF assms(4), of "(pq_mem q')(a := None)"] assms(6) by auto
  have j: "info ?q = (info q)(a := None)"
    unfolding assms(7) [symmetric] by (auto simp: info_def)
  have "dom (pq_mem ?q) = members ?q"
    using assms(1) m(2) unfolding dom_info [symmetric] j nodes_ok_def by auto
  moreover have "\<exists>b r. pq_node (md z) = Some b \<and> b \<in> members ?q \<and> info ?q b = Some (r, k) \<and> K (md z) r"
    if k: "(t(i := None)) k = Some z" for k z
  proof -
    have z: "t k = Some z" "k \<noteq> i"
      using k by (auto split: if_splits)
    obtain b r where b: "pq_node (md z) = Some b" "b \<in> members q" "info q b = Some (r, k)" "K (md z) r"
      using nodes_okD [OF assms(1) z(1)] .
    moreover have "b \<noteq> a"
      using nodes_ok_own [OF assms(1) z(1) assms(2)] z(2) b(1) assms(3) by auto
    ultimately show ?thesis
      using m(2) j by auto
  qed
  moreover have "\<exists>k r z. info ?q b = Some (r, k) \<and> (t(i := None)) k = Some z \<and> pq_node (md z) = Some b"
    if b: "b \<in> members ?q" for b
  proof -
    have n: "b \<in> members q" "b \<noteq> a"
      using b m(2) by auto
    then obtain k r z where k: "info q b = Some (r, k)" "t k = Some z" "pq_node (md z) = Some b"
      using nodes_ok_member [OF assms(1)] by metis
    then have "k \<noteq> i"
      using n(2) assms(2,3) by auto
    then show ?thesis
      using j k n(2) by auto
  qed
  ultimately show ?thesis
    using m(1) assms(5) unfolding nodes_ok_def by (simp add: pq_room_def)
qed

end
