(* ===== verification/Belady.thy ===== *)
theory Belady
  imports PQ_Cache
begin

text \<open>
  The cache of \<open>cache/eviction/Belady.c\<close>: it evicts the object whose next access lies farthest ahead, which
  a priority queue keeps at its head. The next access time is part of the request.
\<close>

section \<open>Operations\<close>

definition Belady_init :: "common_cache_params \<Rightarrow> pq_cache" where
  "Belady_init ccache_params = cache_struct_init ccache_params \<lparr>pq = pqueue_init 8000000, pq_next = 0\<rparr>"

text \<open>The loop of \<open>Belady_free\<close>: it pops and frees the nodes.\<close>

partial_function (option) free_nodes :: "pq_cache \<Rightarrow> pq_cache outcome" where
  "free_nodes c =
     bindO (pqueue_pop (pq_of c)) (\<lambda>(node, q).
     case node of None \<Rightarrow> Some (Inr (set_pq c q)) | Some a \<Rightarrow> free_nodes (free_node (set_pq c q) a))"

definition Belady_free :: "pq_cache \<Rightarrow> pq_cache outcome" where
  "Belady_free c = free_nodes c"

definition Belady_find :: "pq_cache \<Rightarrow> request \<Rightarrow> bool \<Rightarrow> (obj_id option \<times> pq_cache) outcome" where
  "Belady_find c req update_cache =
     (case cache_find_base c req update_cache of (cached_obj, c) \<Rightarrow>
      if \<not> update_cache then Some (Inr (cached_obj, c))
      else case cached_obj of None \<Rightarrow> Some (Inr (None, c))
      | Some i \<Rightarrow>
        bindO (Some (upd_obj c (Some i) (\<lambda>x. x\<lparr>md := Pq_md (pq_node (md x)) (r_next_access_vtime req)\<rparr>))) (\<lambda>c.
        bindO (Some (deref c (Some i))) (\<lambda>x.
        bindO (Some (node_ptr (pq_node (md x)))) (\<lambda>a.
        bindO (pqueue_change_priority (pq_of c) (i64_to_double (r_next_access_vtime req)) a) (\<lambda>q.
        bindO (Some (get_pri q a)) (\<lambda>p.
        if p = i64_to_double (r_next_access_vtime req) then Some (Inr (Some i, set_pq c q))
        else Some (Inl AssertFail)))))))"

definition Belady_insert :: "pq_cache \<Rightarrow> request \<Rightarrow> (obj_id option \<times> pq_cache) result" where
  "Belady_insert c req =
     (if r_next_access_vtime req = -1 then Inl Abort
      else
        bindE (cache_insert_base c req) (\<lambda>(i, c).
        case new_node c (r_obj_id req) (i64_to_double (r_next_access_vtime req)) of (node, c) \<Rightarrow>
        bindE (pqueue_insert (pq_of c) node) (\<lambda>q.
        bindE (upd_obj (set_pq c q) (Some i) (\<lambda>x. x\<lparr>md := Pq_md (Some node) (r_next_access_vtime req)\<rparr>)) (\<lambda>c.
        bindE (get_pri (pq_of c) node) (\<lambda>p.
        if p = i64_to_double (r_next_access_vtime req) then Inr (Some i, c) else Inl AssertFail)))))"

definition Belady_to_evict :: "pq_cache \<Rightarrow> request \<Rightarrow> obj_id option result" where
  "Belady_to_evict c req =
     bindE (pqueue_peek (pq_of c)) (\<lambda>node.
     bindE (node_ptr node) (\<lambda>a.
     bindE (get_node (pq_of c) a) (\<lambda>n. Inr (hashtable_find_obj_id c (pq_obj_id n)))))"

definition Belady_evict :: "pq_cache \<Rightarrow> request \<Rightarrow> pq_cache outcome" where
  "Belady_evict c req =
     bindO (pqueue_pop (pq_of c)) (\<lambda>(node, q).
     let c = set_pq c q in
     bindO (Some (node_ptr node)) (\<lambda>a.
     bindO (Some (get_node q a)) (\<lambda>n.
     let obj_to_evict = hashtable_find_obj_id c (pq_obj_id n) in
     bindO (Some (deref c obj_to_evict)) (\<lambda>x.
     if pq_node (md x) \<noteq> Some a then Some (Inl AssertFail)
     else
       bindO (Some (upd_obj c obj_to_evict (\<lambda>x. x\<lparr>md := Pq_md None (next_access_vtime (md x))\<rparr>))) (\<lambda>c.
       Some (cache_evict_base (free_node c a) obj_to_evict True))))))"

definition Belady_remove_obj :: "pq_cache \<Rightarrow> obj_id option \<Rightarrow> pq_cache outcome" where
  "Belady_remove_obj c obj =
     (if obj = None then Some (Inl AssertFail)
      else
        bindO (Some (deref c obj)) (\<lambda>x.
        bindO
          (case pq_node (md x) of None \<Rightarrow> Some (Inr c)
           | Some a \<Rightarrow>
             bindO (pqueue_remove (pq_of c) a) (\<lambda>q.
             Some (upd_obj (free_node (set_pq c q) a) obj (\<lambda>x. x\<lparr>md := Pq_md None (next_access_vtime (md x))\<rparr>))))
          (\<lambda>c. Some (cache_remove_obj_base c obj True))))"

definition Belady_remove :: "pq_cache \<Rightarrow> obj_id \<Rightarrow> (bool \<times> pq_cache) outcome" where
  "Belady_remove c i =
     (case hashtable_find_obj_id c i of None \<Rightarrow> Some (Inr (False, c))
      | Some obj \<Rightarrow> bindO (Belady_remove_obj c (Some obj)) (\<lambda>c. Some (Inr (True, c))))"

definition Belady_ops :: "(pq_md, pq_params) cache_ops" where
  "Belady_ops =
     \<lparr>op_find = Belady_find,
      op_can_insert = (\<lambda>c req. Some (Inr (cache_can_insert_default c req))),
      op_insert = (\<lambda>c req. Some (Belady_insert c req)),
      op_evict = Belady_evict,
      op_to_evict = (\<lambda>c req. bindO (Some (Belady_to_evict c req)) (\<lambda>i. Some (Inr (i, c)))),
      op_remove = Belady_remove,
      op_get_occupied_byte = cache_get_occupied_byte_default,
      op_get_n_obj = cache_get_n_obj_default\<rparr>"

definition Belady_get :: "pq_cache \<Rightarrow> request \<Rightarrow> (bool \<times> pq_cache) outcome" where
  "Belady_get c req =
     (if r_next_access_vtime req = -2 then Some (Inl AssertFail)
      else if n_obj c \<noteq> int (pq_size (pq_of c)) - 1 then Some (Inl AssertFail)
      else cache_get_base Belady_ops c req)"

section \<open>The invariant\<close>

definition pqc_inv :: "(pq_md \<Rightarrow> int \<Rightarrow> bool) \<Rightarrow> pq_cache \<Rightarrow> bool" where
  "pqc_inv K c \<longleftrightarrow> (\<exists>q. cache_wf q c) \<and> nodes_ok K (table c) (pq_of c) \<and>
     (\<forall>a. pq_mem (pq_of c) a \<noteq> None \<longrightarrow> a < pq_next (eviction_params c))"

definition farthest :: "pq_md \<Rightarrow> int \<Rightarrow> bool" where
  "farthest m p \<longleftrightarrow> p = i64_to_double (next_access_vtime m)"

abbreviation Belady_inv :: "pq_cache \<Rightarrow> bool" where
  "Belady_inv \<equiv> pqc_inv farthest"

lemma set_pq_simps [simp]:
  "table (set_pq c q) = table c" "cache_size (set_pq c q) = cache_size c" "obj_md_size (set_pq c q) = obj_md_size c"
  "n_req (set_pq c q) = n_req c" "occupied_byte (set_pq c q) = occupied_byte c" "n_obj (set_pq c q) = n_obj c"
  "admissioner (set_pq c q) = admissioner c" "pq_of (set_pq c q) = q"
  "pq_next (eviction_params (set_pq c q)) = pq_next (eviction_params c)" "cache_wf l (set_pq c q) = cache_wf l c"
  by (simp_all add: set_pq_def)

lemma pqc_inv_n_obj:
  assumes "pqc_inv K c"
  shows "n_obj c = int (pq_size (pq_of c)) - 1"
proof -
  obtain l where l: "cache_wf l c" and n: "nodes_ok K (table c) (pq_of c)"
    using assms by (auto simp: pqc_inv_def)
  then have "finite (dom (table c))" "n_obj c = int (card (dom (table c)))"
    by (auto simp: cache_wf_def simp flip: distinct_card)
  moreover have "1 \<le> pq_size (pq_of c)"
    using n by (auto simp: nodes_ok_def pq_inv_def pq_ok_def)
  ultimately show ?thesis
    using nodes_ok_card [OF n] by simp
qed

lemma Belady_find_ok:
  assumes "Belady_inv c"
  shows "\<exists>c'. Belady_find c req True =
      Some (Inr (if r_obj_id req \<in> dom (table c) then Some (r_obj_id req) else None, c')) \<and>
    Belady_inv c' \<and> dom (table c') = dom (table c) \<and> conf c' = conf c \<and> admissioner c' = admissioner c \<and>
    occupied_byte c' = occupied_byte c"
proof (cases "table c (r_obj_id req)")
  case None
  then show ?thesis
    using assms by (auto simp: Belady_find_def cache_find_base_def)
next
  case (Some x)
  let ?i = "r_obj_id req" and ?v = "r_next_access_vtime req"
  let ?y = "x\<lparr>misc_next_access_vtime := ?v, misc_freq := misc_freq x + 1, md := Pq_md (pq_node (md x)) ?v\<rparr>"
  let ?c = "c\<lparr>table := (table c)(?i \<mapsto> ?y)\<rparr>"
  obtain l where l: "cache_wf l c" and n: "nodes_ok farthest (table c) (pq_of c)"
      and f: "\<forall>a. pq_mem (pq_of c) a \<noteq> None \<longrightarrow> a < pq_next (eviction_params c)"
    using assms by (auto simp: pqc_inv_def)
  obtain a where a: "pq_node (md x) = Some a"
    using nodes_okD [OF n Some] by metis
  obtain q where q: "pqueue_change_priority (pq_of c) (i64_to_double ?v) a = Some (Inr q)"
      "nodes_ok farthest ((table c)(?i \<mapsto> ?y)) q" "get_pri q a = Inr (i64_to_double ?v)" "dom (pq_mem q) = dom (pq_mem (pq_of c))"
    using nodes_ok_change [OF n Some a, of ?y "i64_to_double ?v"] a by (auto simp: farthest_def)
  have "Belady_find c req True = Some (Inr (Some ?i, set_pq ?c q))"
    using Some a q(1,3) by (simp add: Belady_find_def cache_find_base_def upd_obj_def deref_def node_ptr_def)
  moreover have "cache_wf l ?c"
    by (rule cache_wf_upd [OF l Some]) simp_all
  then have "Belady_inv (set_pq ?c q)"
    using q(2,4) f by (auto simp: pqc_inv_def)
  ultimately show ?thesis
    using Some by (intro exI [of _ "set_pq ?c q"]) auto
qed

lemma Belady_insert_ok:
  assumes "Belady_inv c" "table c (r_obj_id req) = None" "req_ok c req" "r_next_access_vtime req \<noteq> -1"
  shows "\<exists>c'. Belady_insert c req = Inr (Some (r_obj_id req), c') \<and> Belady_inv c' \<and>
     dom (table c') = insert (r_obj_id req) (dom (table c)) \<and> conf c' = conf c \<and>
     occupied_byte c' = occupied_byte c + (to_u32 (r_obj_size req) + obj_md_size c)"
proof -
  let ?i = "r_obj_id req" and ?v = "r_next_access_vtime req" and ?a = "pq_next (eviction_params c)"
  let ?y = "(new_obj req)\<lparr>md := Pq_md (Some ?a) ?v\<rparr>"
  let ?c = "snd (new_node (inserted c req) ?i (i64_to_double ?v))"
  obtain l where l: "cache_wf l c" and n: "nodes_ok farthest (table c) (pq_of c)"
      and f: "\<forall>a. pq_mem (pq_of c) a \<noteq> None \<longrightarrow> a < ?a"
    using assms(1) by (auto simp: pqc_inv_def)
  have "pq_mem (pq_of c) ?a = None"
    using f by blast
  then obtain q where q: "pqueue_insert (pq_of ?c) ?a = Inr q"
      "nodes_ok farthest ((table c)(?i \<mapsto> ?y)) q" "get_pri q ?a = Inr (i64_to_double ?v)"
      "dom (pq_mem q) = insert ?a (dom (pq_mem (pq_of c)))"
    using nodes_ok_new [OF n assms(2), of ?a ?y "i64_to_double ?v"] by (auto simp: farthest_def new_node_def Let_def)
  let ?d = "(set_pq ?c q)\<lparr>table := (table c)(?i \<mapsto> ?y)\<rparr>"
  have "cache_wf (?i # l) (inserted c req)"
    by (rule cache_wf_inserted [OF l assms(2,3)])
  then have "cache_wf (?i # l) (set_pq ?c q)"
    by (simp add: new_node_def Let_def)
  from cache_wf_upd [OF this, of ?i "new_obj req" ?y] have w: "cache_wf (?i # l) ?d"
    by (simp add: new_node_def Let_def)
  have "Belady_insert c req = Inr (Some ?i, ?d)"
    using assms(2,4) q(1,3)
    by (simp add: Belady_insert_def cache_insert_base_eq new_node_def Let_def upd_obj_def set_pq_def)
  moreover have "Belady_inv ?d"
    using w q(2,4) f unfolding pqc_inv_def by (auto simp: new_node_def Let_def less_Suc_eq set_pq_def)
  ultimately show ?thesis
    by (intro exI [of _ ?d]) (simp add: new_node_def Let_def)
qed

lemma free_node_simps [simp]:
  "table (free_node c a) = table c" "cache_size (free_node c a) = cache_size c" "obj_md_size (free_node c a) = obj_md_size c"
  "n_req (free_node c a) = n_req c" "occupied_byte (free_node c a) = occupied_byte c" "n_obj (free_node c a) = n_obj c"
  "admissioner (free_node c a) = admissioner c" "pq_of (free_node c a) = (pq_of c)\<lparr>pq_mem := (pq_mem (pq_of c))(a := None)\<rparr>"
  "pq_next (eviction_params (free_node c a)) = pq_next (eviction_params c)" "cache_wf l (free_node c a) = cache_wf l c"
  by (simp_all add: free_node_def)

lemma free_node_table: "free_node (c\<lparr>table := t\<rparr>) a = (free_node c a)\<lparr>table := t\<rparr>"
  by (simp add: free_node_def set_pq_def)

text \<open>An object taken out together with its node.\<close>

lemma pqc_drop:
  assumes "pqc_inv K c" "table c i = Some x" "pq_node (md x) = Some a"
    "pq_inv q" "pq_room q" "members q = members (pq_of c) - {a}" "info q = info (pq_of c)"
  shows "\<exists>c'. cache_remove_obj_base (free_node (set_pq c q) a\<lparr>table := (table c)(i \<mapsto> x\<lparr>md := m\<rparr>)\<rparr>) (Some i) True = Inr c' \<and>
     pqc_inv K c' \<and> table c' = (table c)(i := None) \<and> conf c' = conf c \<and> admissioner c' = admissioner c \<and>
     occupied_byte c' = occupied_byte c - obj_bytes c i"
proof -
  let ?c = "free_node (set_pq c q) a\<lparr>table := (table c)(i \<mapsto> x\<lparr>md := m\<rparr>)\<rparr>"
  obtain l where l: "cache_wf l c" and n: "nodes_ok K (table c) (pq_of c)"
      and f: "\<forall>a. pq_mem (pq_of c) a \<noteq> None \<longrightarrow> a < pq_next (eviction_params c)"
    using assms(1) by (auto simp: pqc_inv_def)
  have "cache_wf l (free_node (set_pq c q) a)"
    using l by simp
  from cache_wf_upd [OF this, of i x "x\<lparr>md := m\<rparr>"] assms(2) have w: "cache_wf l ?c"
    by simp
  have i: "i \<in> set l"
    using l assms(2) by (auto simp: cache_wf_def)
  have "nodes_ok K ((table c)(i := None)) (q\<lparr>pq_mem := (pq_mem q)(a := None)\<rparr>)"
    by (rule nodes_ok_drop [OF n assms(2-7)])
  moreover have "dom (pq_mem q) = dom (pq_mem (pq_of c))"
    using assms(7) by (simp flip: dom_info)
  ultimately have "pqc_inv K (removed ?c i)"
    using cache_wf_removed [OF w i] f by (auto simp: pqc_inv_def split: if_splits)
  then show ?thesis
    using cache_remove_obj_base_eq [OF w i] assms(2) by (auto simp: obj_bytes_def)
qed

lemma get_node_info: "info q a = Some (p, i) \<Longrightarrow> \<exists>n. get_node q a = Inr n \<and> pq_obj_id n = i"
  by (auto simp: info_def get_node_def)

lemma Belady_evict_ok:
  assumes "pqc_inv K c" "dom (table c) \<noteq> {}"
  obtains i x p c' where "Belady_to_evict c req' = Inr (Some i)" "Belady_evict c req = Some (Inr c')" "table c i = Some x"
    "K (md x) p" "\<And>j y. table c j = Some y \<Longrightarrow> \<exists>r. r \<le> p \<and> K (md y) r"
    "pqc_inv K c'" "table c' = (table c)(i := None)" "conf c' = conf c" "occupied_byte c' = occupied_byte c - obj_bytes c i"
proof -
  let ?q = "pq_of c"
  have n: "nodes_ok K (table c) ?q" and q: "pq_inv ?q" "pq_room ?q"
    using assms(1) by (auto simp: pqc_inv_def nodes_ok_def)
  obtain j y where "table c j = Some y"
    using assms(2) by blast
  then have "members ?q \<noteq> {}"
    using nodes_okD [OF n] by (metis empty_iff)
  then obtain a where a: "pqueue_peek ?q = Inr (Some a)" "a \<in> members ?q" "\<And>b. b \<in> members ?q \<Longrightarrow> prio ?q b \<le> prio ?q a"
    using pqueue_peek_ok [OF q(1)] by auto
  obtain i p x where i: "info ?q a = Some (p, i)" "table c i = Some x" "pq_node (md x) = Some a" "K (md x) p"
    using nodes_ok_member [OF n a(2)] .
  obtain q' where p: "pqueue_pop ?q = Some (Inr (Some a, q'))" "pq_inv q'" "info q' = info ?q" "members q' = members ?q - {a}" "pq_room q'"
    using pqueue_pop_ok [OF q(1)] a(1) q(2) by auto
  obtain n1 n2 where nd: "get_node ?q a = Inr n1" "pq_obj_id n1 = i" "get_node q' a = Inr n2" "pq_obj_id n2 = i"
    using get_node_info [OF i(1)] get_node_info [of q' a p i] i(1) p(3) by auto
  obtain c' where c': "cache_remove_obj_base (free_node (set_pq c q') a
        \<lparr>table := (table c)(i \<mapsto> x\<lparr>md := Pq_md None (next_access_vtime (md x))\<rparr>)\<rparr>) (Some i) True = Inr c'"
      "pqc_inv K c'" "table c' = (table c)(i := None)" "conf c' = conf c" "occupied_byte c' = occupied_byte c - obj_bytes c i"
    using pqc_drop [OF assms(1) i(2,3) p(2,5,4,3)] by blast
  show thesis
  proof (rule that [OF _ _ i(2,4) _ c'(2-5)])
    show "Belady_to_evict c req' = Inr (Some i)"
      using a(1) nd i(2) by (simp add: Belady_to_evict_def node_ptr_def hashtable_find_obj_id_def)
    show "Belady_evict c req = Some (Inr c')"
      using p(1) nd i(2,3) c'(1)
      by (simp add: Belady_evict_def node_ptr_def hashtable_find_obj_id_def deref_def upd_obj_def cache_evict_base_def
          free_node_table)
    show "\<exists>r. r \<le> p \<and> K (md y) r" if t: "table c j = Some y" for j y
    proof -
      obtain b r where b: "b \<in> members ?q" "info ?q b = Some (r, j)" "K (md y) r"
        using nodes_okD [OF n t] by metis
      then show ?thesis
        using a(3) [OF b(1)] i(1) by (auto simp: prio_def)
    qed
  qed
qed

lemma Belady_remove_ok:
  assumes "pqc_inv K c"
  shows "\<exists>c'. Belady_remove c i = Some (Inr (table c i \<noteq> None, c')) \<and> pqc_inv K c' \<and> table c' = (table c)(i := None) \<and>
     conf c' = conf c \<and> occupied_byte c' = occupied_byte c - obj_bytes c i"
proof (cases "table c i")
  case None
  then have "(table c)(i := None) = table c"
    by (rule fun_upd_idem)
  then show ?thesis
    using assms None by (simp add: Belady_remove_def hashtable_find_obj_id_def obj_bytes_def)
next
  case (Some x)
  let ?q = "pq_of c"
  have n: "nodes_ok K (table c) ?q" and q: "pq_inv ?q" "pq_room ?q"
    using assms(1) by (auto simp: pqc_inv_def nodes_ok_def)
  obtain a where a: "pq_node (md x) = Some a" "a \<in> members ?q"
    using nodes_okD [OF n Some] by metis
  obtain q' where p: "pqueue_remove ?q a = Some (Inr q')" "pq_inv q'" "members q' = members ?q - {a}" "info q' = info ?q" "pq_room q'"
    using pqueue_remove_ok [OF q(1) a(2)] q(2) by auto
  obtain c' where "cache_remove_obj_base (free_node (set_pq c q') a
        \<lparr>table := (table c)(i \<mapsto> x\<lparr>md := Pq_md None (next_access_vtime (md x))\<rparr>)\<rparr>) (Some i) True = Inr c'"
      "pqc_inv K c'" "table c' = (table c)(i := None)" "conf c' = conf c" "occupied_byte c' = occupied_byte c - obj_bytes c i"
    using pqc_drop [OF assms(1) Some a(1) p(2,5,3,4)] by blast
  then show ?thesis
    using p(1) a(1) Some
    by (simp add: Belady_remove_def hashtable_find_obj_id_def Belady_remove_obj_def deref_def upd_obj_def)
qed

text \<open>The requests the cache serves: their next access time is given.\<close>

definition Belady_req_ok :: "pq_cache \<Rightarrow> request \<Rightarrow> bool" where
  "Belady_req_ok c req \<longleftrightarrow> req_ok c req \<and> r_next_access_vtime req \<noteq> -1 \<and> r_next_access_vtime req \<noteq> -2"

interpretation belady: total_eviction_algorithm Belady_ops Belady_inv "\<lambda>c. dom (table c)" Belady_req_ok
  "\<lambda>c req. card (dom (table c))" admits_default "\<lambda>_ _. True" "\<lambda>_ _. True"
proof (unfold_locales, goal_cases)
  case (4 c n req)
  show ?case by (rule admits_default_cong) simp_all
next
  case (5 c' c n req)
  then show ?case by (auto simp: Belady_req_ok_def intro: req_ok_conf)
next
  case (6 c req)
  then show ?case by (auto simp: Belady_req_ok_def intro: req_ok_size)
next
  case (7 c)
  then show ?case by (auto simp: pqc_inv_def cache_wf_md)
next
  case (8 c req)
  obtain c' where f: "Belady_find c req True =
      Some (Inr (if r_obj_id req \<in> dom (table c) then Some (r_obj_id req) else None, c'))"
    "Belady_inv c'" "dom (table c') = dom (table c)" "conf c' = conf c" "admissioner c' = admissioner c"
    "occupied_byte c' = occupied_byte c"
    using Belady_find_ok [OF 8, of req] by blast
  have "admits_default c' req = admits_default c req"
    by (rule admits_default_cong) (use f(4,5) in simp_all)
  with f show ?case by (simp add: Belady_ops_def cache_get_occupied_byte_default_def)
next
  case (9 c req)
  then show ?case
    using cache_can_insert_default_eq [of c req]
    by (auto simp: Belady_ops_def cache_get_occupied_byte_default_def pqc_inv_def)
next
  case (11 c req)
  obtain i x c' where e: "Belady_evict c req = Some (Inr c')" "table c i = Some x" "Belady_inv c'"
      "table c' = (table c)(i := None)" "conf c' = conf c"
    using Belady_evict_ok [OF 11(1,4), of req req] by metis
  have "finite (dom (table c))"
    using 11(1) by (auto simp: pqc_inv_def cache_wf_def)
  then have "card (dom (table c')) < card (dom (table c))"
    using e(2,4) by (intro psubset_card_mono) auto
  with e show ?case by (auto simp: Belady_ops_def)
next
  case (12 c req)
  then have r: "req_ok c req" "r_next_access_vtime req \<noteq> -1" "table c (r_obj_id req) = None"
    by (auto simp: Belady_req_ok_def)
  obtain c' where "Belady_insert c req = Inr (Some (r_obj_id req), c')" "Belady_inv c'"
     "dom (table c') = insert (r_obj_id req) (dom (table c))" "conf c' = conf c"
     "occupied_byte c' = occupied_byte c + (to_u32 (r_obj_size req) + obj_md_size c)"
    using Belady_insert_ok [OF 12(1) r(3,1,2)] by blast
  then show ?case
    using 12(5) to_u32_le [OF req_ok_size [OF r(1)]]
    by (intro exI [of _ "Some (r_obj_id req)"] exI [of _ c']) (simp add: Belady_ops_def cache_get_occupied_byte_default_def)
next
  case (13 c)
  then show ?case
    using dom_empty_queue by (auto simp: Belady_ops_def cache_get_occupied_byte_default_def pqc_inv_def)
next
  case (1 c n)
  then show ?case by (simp add: pqc_inv_def)
qed (simp_all add: Belady_ops_def cache_get_occupied_byte_default_def admits_default_def)

text \<open>Freeing the cache frees every node.\<close>

lemma free_nodes_ok:
  assumes "pq_inv (pq_of c)" "dom (pq_mem (pq_of c)) = members (pq_of c)"
  shows "\<exists>c'. free_nodes c = Some (Inr c') \<and> pq_mem (pq_of c') = Map.empty"
  using assms
proof (induction "card (members (pq_of c))" arbitrary: c rule: less_induct)
  case less
  let ?q = "pq_of c"
  show ?case
  proof (cases "members ?q = {}")
    case True
    obtain q where q: "pqueue_pop ?q = Some (Inr (None, q))" "info q = info ?q"
      using pqueue_pop_ok [OF less.prems(1)] pqueue_peek_ok [OF less.prems(1)] True by auto
    have "dom (pq_mem q) = {}"
      using less.prems(2) True q(2) by (simp flip: dom_info)
    then show ?thesis
      using q(1) by (intro exI [of _ "set_pq c q"]) (simp add: free_nodes.simps [of c])
  next
    case False
    obtain a q where q: "pqueue_pop ?q = Some (Inr (Some a, q))" "info q = info ?q" "pq_inv q" "members q = members ?q - {a}"
        "a \<in> members ?q"
      using pqueue_pop_ok [OF less.prems(1)] pqueue_peek_ok [OF less.prems(1)] False by auto
    let ?c = "free_node (set_pq c q) a"
    have i: "pq_inv (pq_of ?c)" "members (pq_of ?c) = members ?q - {a}"
      using pq_inv_mem [OF q(3), of "(pq_mem q)(a := None)"] q(4) by auto
    have "card (members (pq_of ?c)) < card (members ?q)"
      unfolding i(2) using q(5) members_card [OF less.prems(1)] by (intro card_Diff1_less) simp_all
    moreover have "dom (pq_mem q) = members ?q"
      using less.prems(2) q(2) by (simp flip: dom_info)
    then have "dom (pq_mem (pq_of ?c)) = members (pq_of ?c)"
      using i(2) by auto
    ultimately obtain c' where "free_nodes ?c = Some (Inr c')" "pq_mem (pq_of c') = Map.empty"
      using less.hyps i(1) by blast
    then show ?thesis
      using q(1) by (simp add: free_nodes.simps [of c])
  qed
qed

lemma i64_to_double_exact: "\<bar>n\<bar> \<le> 2 ^ 53 \<Longrightarrow> i64_to_double n = n"
  by (simp add: i64_to_double_def)

lemma Belady_inv_init: "Belady_inv (Belady_init params)"
  using pq_inv_init [of 8000000] cache_wf_init [of params "\<lparr>pq = pqueue_init 8000000, pq_next = 0\<rparr>"]
  by (auto simp: pqc_inv_def Belady_init_def nodes_ok_def cache_struct_init_def pq_room_def)
    (simp_all add: pqueue_init_def)

section \<open>Properties\<close>

text \<open>Two objects of a byte each, the first of which is used again at time 50 and the second at time 90.\<close>

definition example_belady :: pq_cache where
  "example_belady =
     (example_cache \<lparr>pq = \<lparr>pq_size = 3, pq_avail = 4, pq_step = 4, pq_d = [None, Some 1, Some 0, None],
         pq_mem = [0 \<mapsto> \<lparr>pri = 50, pq_obj_id = 1, pos = 2\<rparr>, 1 \<mapsto> \<lparr>pri = 90, pq_obj_id = 2, pos = 1\<rparr>]\<rparr>, pq_next = 2\<rparr>)
       \<lparr>table := [1 \<mapsto> (new_obj (example_req 1 1))\<lparr>md := Pq_md (Some 0) 50\<rparr>,
                 2 \<mapsto> (new_obj (example_req 2 1))\<lparr>md := Pq_md (Some 1) 90\<rparr>]\<rparr>"

lemma example_belady_inv: "Belady_inv example_belady"
proof -
  have k: "k = 1 \<or> k = 2" if "1 \<le> k" "k < 3" for k :: nat
    using that by auto
  let ?q = "pq_of example_belady" and ?V = "\<lambda>k :: nat. if k = 1 then 1 else 0 :: addr"
  have f: "full ?q ?V"
    unfolding full_def inj_on_def by (auto simp: example_belady_def example_cache_def at_def dest!: k)
  moreover have "heap (prio ?q) ?V 3"
    unfolding heap_def edge_def using k by (force simp: example_belady_def example_cache_def prio_def info_def)
  ultimately have p: "pq_inv ?q"
    unfolding pq_inv_def pq_ok_def by (intro exI [of _ ?V]) (simp add: example_belady_def example_cache_def)
  have s: "{1..<3} = {1, 2 :: nat}" and n: "pq_size ?q = 3"
    by (auto simp: example_belady_def example_cache_def)
  have m: "members ?q = {0, 1}"
    unfolding full_members [OF f] n s by auto
  have "nodes_ok farthest (table example_belady) ?q"
    unfolding nodes_ok_def m using p
    by (auto simp: example_belady_def example_cache_def pq_room_def info_def farthest_def i64_to_double_def split: if_splits)
  moreover have "cache_wf [1, 2] example_belady"
    by (auto simp: cache_wf_def example_belady_def example_cache_def obj_bytes_def obj_ok_def to_u32_def)
  ultimately show ?thesis
    unfolding pqc_inv_def by (auto simp: example_belady_def example_cache_def)
qed

text \<open>
  C19: \<open>Belady_to_evict\<close> names the object that \<open>Belady_evict\<close> removes, and of all cached objects that one has the
  latest next access: as a \<open>double\<close> always, and exactly when the times stay within 53 bits. Objects, nodes
  and heap stay in step, and no node is leaked.
\<close>

theorem Belady_evicts_farthest:
  assumes "Belady_inv c" "dom (table c) \<noteq> {}"
  shows "\<exists>i x c'. Belady_to_evict c req' = Inr (Some i) \<and> Belady_evict c req = Some (Inr c') \<and> table c i = Some x \<and>
     table c' = (table c)(i := None) \<and> Belady_inv c' \<and> occupied_byte c' = occupied_byte c - obj_bytes c i \<and>
     (\<forall>j y. table c j = Some y \<longrightarrow>
        i64_to_double (next_access_vtime (md y)) \<le> i64_to_double (next_access_vtime (md x)) \<and>
        (\<bar>next_access_vtime (md x)\<bar> \<le> 2 ^ 53 \<and> \<bar>next_access_vtime (md y)\<bar> \<le> 2 ^ 53 \<longrightarrow>
           next_access_vtime (md y) \<le> next_access_vtime (md x)))"
proof -
  obtain i x p c' where e: "Belady_to_evict c req' = Inr (Some i)" "Belady_evict c req = Some (Inr c')" "table c i = Some x"
    "farthest (md x) p" "\<And>j y. table c j = Some y \<Longrightarrow> \<exists>r. r \<le> p \<and> farthest (md y) r"
    "Belady_inv c'" "table c' = (table c)(i := None)" "conf c' = conf c" "occupied_byte c' = occupied_byte c - obj_bytes c i"
    by (rule Belady_evict_ok [OF assms, of req' req]) (rule that)
  then have "i64_to_double (next_access_vtime (md y)) \<le> i64_to_double (next_access_vtime (md x))" if "table c j = Some y" for j y
    using that by (fastforce simp: farthest_def)
  moreover from this have "next_access_vtime (md y) \<le> next_access_vtime (md x)"
    if "table c j = Some y" "\<bar>next_access_vtime (md x)\<bar> \<le> 2 ^ 53" "\<bar>next_access_vtime (md y)\<bar> \<le> 2 ^ 53" for j y
    using that i64_to_double_exact by metis
  ultimately show ?thesis
    using e(1-3,6,7,9) by (intro exI [of _ i] exI [of _ x] exI [of _ c']) blast
qed

theorem Belady_evicts_farthest_witness:
  "\<exists>i c'. Belady_to_evict example_belady new_request = Inr (Some i) \<and>
     Belady_evict example_belady new_request = Some (Inr c') \<and> dom (table c') \<subset> {1, 2} \<and> Belady_inv c'"
proof -
  have d: "dom (table example_belady) = {1, 2}"
    by (auto simp: example_belady_def)
  obtain i x c' where e: "Belady_to_evict example_belady new_request = Inr (Some i)" "Belady_evict example_belady new_request = Some (Inr c')"
      "table example_belady i = Some x" "table c' = (table example_belady)(i := None)" "Belady_inv c'"
    using Belady_evicts_farthest [OF example_belady_inv, of new_request new_request] d by auto
  then have "dom (table c') \<subset> {1, 2}"
    unfolding d [symmetric] by auto
  then show ?thesis
    using e by blast
qed

text \<open>
  C20: \<open>Belady_get\<close> returns, with no assertion failing, for every request whose next access time is given: it
  reports a hit exactly when the object was cached, keeps the invariant and the capacity bound, and after a
  miss holds the object exactly when it was admitted. A request with time -2 fails its assertion, and
  freeing the cache afterwards leaves no node allocated.
\<close>

theorem Belady_get_correct:
  assumes "Belady_inv c" "req_ok c req" "r_next_access_vtime req \<noteq> -1" "occupied_byte c \<le> cache_size c"
  shows "if r_next_access_vtime req = -2 then Belady_get c req = Some (Inl AssertFail)
    else \<exists>c' c''. Belady_get c req = Some (Inr (r_obj_id req \<in> dom (table c), c')) \<and>
     Belady_inv c' \<and> occupied_byte c' \<le> cache_size c' \<and> cache_size c' = cache_size c \<and>
     dom (table c') \<subseteq> insert (r_obj_id req) (dom (table c)) \<and>
     (r_obj_id req \<in> dom (table c') \<longleftrightarrow> r_obj_id req \<in> dom (table c) \<or> admits_default c req) \<and>
     Belady_free c' = Some (Inr c'') \<and> pq_mem (pq_of c'') = Map.empty"
proof (cases "r_next_access_vtime req = -2")
  case False
  then have "Belady_req_ok c req" "op_get_occupied_byte Belady_ops c \<le> cache_size c"
    using assms by (simp_all add: Belady_req_ok_def Belady_ops_def cache_get_occupied_byte_default_def)
  from belady.get_total [OF assms(1) this] obtain c' where g: "cache_get_base Belady_ops c req = Some (Inr (r_obj_id req \<in> dom (table c), c'))"
      "belady.served c req c'"
    by blast
  have o: "op_get_occupied_byte Belady_ops c' = occupied_byte c'"
    by (simp add: Belady_ops_def cache_get_occupied_byte_default_def)
  have "pq_inv (pq_of c')" "dom (pq_mem (pq_of c')) = members (pq_of c')"
    using g(2) by (auto simp: belady.served_def pqc_inv_def nodes_ok_def)
  then obtain c'' where "Belady_free c' = Some (Inr c'')" "pq_mem (pq_of c'') = Map.empty"
    using free_nodes_ok [of c'] by (auto simp: Belady_free_def)
  then show ?thesis
    using g False pqc_inv_n_obj [OF assms(1)] unfolding Belady_get_def belady.served_def o by auto
qed (simp add: Belady_get_def)

theorem Belady_get_correct_witness:
  "\<exists>c'. Belady_get example_belady ((example_req 3 1)\<lparr>r_next_access_vtime := 60\<rparr>) = Some (Inr (False, c')) \<and> Belady_inv c' \<and>
     3 \<in> dom (table c') \<and> occupied_byte c' \<le> 2"
  using Belady_get_correct [OF example_belady_inv, of "(example_req 3 1)\<lparr>r_next_access_vtime := 60\<rparr>"]
  by (auto simp: example_belady_def example_cache_def req_ok_def to_u32_def admits_default_def)

end
