(* ===== verification/Size_Cache.thy ===== *)
theory Size_Cache
  imports Belady
begin

text \<open>
  The cache of \<open>cache/eviction/Size.c\<close>: it evicts the object of the largest size. The code is that of
  \<open>Belady.c\<close> with the size of the request for a priority and without the checks on the access times.
\<close>

section \<open>Operations\<close>

definition Size_init :: "common_cache_params \<Rightarrow> pq_cache" where
  "Size_init ccache_params = cache_struct_init ccache_params \<lparr>pq = pqueue_init 8000000, pq_next = 0\<rparr>"

definition Size_free :: "pq_cache \<Rightarrow> pq_cache outcome" where
  "Size_free c = free_nodes c"

definition Size_find :: "pq_cache \<Rightarrow> request \<Rightarrow> bool \<Rightarrow> (obj_id option \<times> pq_cache) outcome" where
  "Size_find c req update_cache =
     (case cache_find_base c req update_cache of (cached_obj, c) \<Rightarrow>
      if \<not> update_cache then Some (Inr (cached_obj, c))
      else case cached_obj of None \<Rightarrow> Some (Inr (None, c))
      | Some i \<Rightarrow>
        bindO (Some (deref c (Some i))) (\<lambda>x.
        bindO (Some (node_ptr (pq_node (md x)))) (\<lambda>a.
        bindO (pqueue_change_priority (pq_of c) (i64_to_double (r_obj_size req)) a) (\<lambda>q.
        Some (Inr (Some i, set_pq c q))))))"

definition Size_insert :: "pq_cache \<Rightarrow> request \<Rightarrow> (obj_id option \<times> pq_cache) result" where
  "Size_insert c req =
     bindE (cache_insert_base c req) (\<lambda>(i, c).
     case new_node c (r_obj_id req) (i64_to_double (r_obj_size req)) of (node, c) \<Rightarrow>
     bindE (pqueue_insert (pq_of c) node) (\<lambda>q.
     bindE (upd_obj (set_pq c q) (Some i) (\<lambda>x. x\<lparr>md := Pq_md (Some node) (next_access_vtime (md x))\<rparr>)) (\<lambda>c.
     Inr (Some i, c))))"

definition Size_to_evict :: "pq_cache \<Rightarrow> request \<Rightarrow> obj_id option result" where
  "Size_to_evict c req =
     bindE (pqueue_peek (pq_of c)) (\<lambda>node.
     bindE (node_ptr node) (\<lambda>a.
     bindE (get_node (pq_of c) a) (\<lambda>n. Inr (hashtable_find_obj_id c (pq_obj_id n)))))"

definition Size_evict :: "pq_cache \<Rightarrow> request \<Rightarrow> pq_cache outcome" where
  "Size_evict c req =
     bindO (pqueue_pop (pq_of c)) (\<lambda>(node, q).
     let c = set_pq c q in
     bindO (Some (node_ptr node)) (\<lambda>a.
     bindO (Some (get_node q a)) (\<lambda>n.
     let obj_to_evict = hashtable_find_obj_id c (pq_obj_id n) in
     bindO (Some (deref c obj_to_evict)) (\<lambda>x.
     if pq_node (md x) \<noteq> Some a then Some (Inl AssertFail)
     else
       bindO (Some (upd_obj c obj_to_evict (\<lambda>x. x\<lparr>md := Pq_md None (next_access_vtime (md x))\<rparr>))) (\<lambda>c.
       Some (cache_evict_base (free_node c a) obj_to_evict True))))))"

definition Size_remove_obj :: "pq_cache \<Rightarrow> obj_id option \<Rightarrow> pq_cache outcome" where
  "Size_remove_obj c obj =
     (if obj = None then Some (Inl AssertFail)
      else
        bindO (Some (deref c obj)) (\<lambda>x.
        bindO
          (case pq_node (md x) of None \<Rightarrow> Some (Inr c)
           | Some a \<Rightarrow>
             bindO (pqueue_remove (pq_of c) a) (\<lambda>q.
             Some (upd_obj (free_node (set_pq c q) a) obj (\<lambda>x. x\<lparr>md := Pq_md None (next_access_vtime (md x))\<rparr>))))
          (\<lambda>c. Some (cache_remove_obj_base c obj True))))"

definition Size_remove :: "pq_cache \<Rightarrow> obj_id \<Rightarrow> (bool \<times> pq_cache) outcome" where
  "Size_remove c i =
     (case hashtable_find_obj_id c i of None \<Rightarrow> Some (Inr (False, c))
      | Some obj \<Rightarrow> bindO (Size_remove_obj c (Some obj)) (\<lambda>c. Some (Inr (True, c))))"

definition Size_ops :: "(pq_md, pq_params) cache_ops" where
  "Size_ops =
     \<lparr>op_find = Size_find,
      op_can_insert = (\<lambda>c req. Some (Inr (cache_can_insert_default c req))),
      op_insert = (\<lambda>c req. Some (Size_insert c req)),
      op_evict = Size_evict,
      op_to_evict = (\<lambda>c req. bindO (Some (Size_to_evict c req)) (\<lambda>i. Some (Inr (i, c)))),
      op_remove = Size_remove,
      op_get_occupied_byte = cache_get_occupied_byte_default,
      op_get_n_obj = cache_get_n_obj_default\<rparr>"

definition Size_get :: "pq_cache \<Rightarrow> request \<Rightarrow> (bool \<times> pq_cache) outcome" where
  "Size_get c req =
     (if n_obj c \<noteq> int (pq_size (pq_of c)) - 1 then Some (Inl AssertFail) else cache_get_base Size_ops c req)"

section \<open>What the two caches share\<close>

lemma Size_remove_obj_shared: "Size_remove_obj = Belady_remove_obj"
  by (intro ext) (simp only: Size_remove_obj_def Belady_remove_obj_def)

lemma Size_shared: "Size_to_evict = Belady_to_evict" "Size_evict = Belady_evict" "Size_remove = Belady_remove"
    "Size_free = Belady_free"
  by (intro ext; simp only: Size_to_evict_def Belady_to_evict_def Size_evict_def Belady_evict_def Size_remove_def
      Belady_remove_def Size_remove_obj_shared Size_free_def Belady_free_def)+

text \<open>The priorities of the nodes are not tied to the objects: a later request may carry another size.\<close>

abbreviation Size_inv :: "pq_cache \<Rightarrow> bool" where
  "Size_inv \<equiv> pqc_inv (\<lambda>_ _. True)"

lemma Size_find_ok:
  assumes "Size_inv c"
  shows "\<exists>c'. Size_find c req True =
      Some (Inr (if r_obj_id req \<in> dom (table c) then Some (r_obj_id req) else None, c')) \<and>
    Size_inv c' \<and> dom (table c') = dom (table c) \<and> conf c' = conf c \<and> admissioner c' = admissioner c \<and>
    occupied_byte c' = occupied_byte c"
proof (cases "table c (r_obj_id req)")
  case None
  then show ?thesis
    using assms by (auto simp: Size_find_def cache_find_base_def)
next
  case (Some x)
  let ?i = "r_obj_id req" and ?p = "i64_to_double (r_obj_size req)"
  let ?y = "x\<lparr>misc_next_access_vtime := r_next_access_vtime req, misc_freq := misc_freq x + 1\<rparr>"
  let ?c = "c\<lparr>table := (table c)(?i \<mapsto> ?y)\<rparr>"
  obtain l where l: "cache_wf l c" and n: "nodes_ok (\<lambda>_ _. True) (table c) (pq_of c)"
      and f: "\<forall>a. pq_mem (pq_of c) a \<noteq> None \<longrightarrow> a < pq_next (eviction_params c)"
    using assms by (auto simp: pqc_inv_def)
  obtain a where a: "pq_node (md x) = Some a"
    using nodes_okD [OF n Some] by metis
  obtain q where q: "pqueue_change_priority (pq_of c) ?p a = Some (Inr q)"
      "nodes_ok (\<lambda>_ _. True) ((table c)(?i \<mapsto> ?y)) q" "dom (pq_mem q) = dom (pq_mem (pq_of c))"
    using nodes_ok_change [OF n Some a, of ?y ?p] a by auto
  have "Size_find c req True = Some (Inr (Some ?i, set_pq ?c q))"
    using Some a q(1) by (simp add: Size_find_def cache_find_base_def deref_def node_ptr_def)
  moreover have "cache_wf l ?c"
    by (rule cache_wf_upd [OF l Some]) simp_all
  then have "Size_inv (set_pq ?c q)"
    using q(2,3) f by (auto simp: pqc_inv_def)
  ultimately show ?thesis
    using Some by (intro exI [of _ "set_pq ?c q"]) auto
qed

lemma Size_insert_ok:
  assumes "Size_inv c" "table c (r_obj_id req) = None" "req_ok c req"
  shows "\<exists>c'. Size_insert c req = Inr (Some (r_obj_id req), c') \<and> Size_inv c' \<and>
     dom (table c') = insert (r_obj_id req) (dom (table c)) \<and> conf c' = conf c \<and>
     occupied_byte c' = occupied_byte c + (to_u32 (r_obj_size req) + obj_md_size c)"
proof -
  let ?i = "r_obj_id req" and ?p = "i64_to_double (r_obj_size req)" and ?a = "pq_next (eviction_params c)"
  let ?y = "(new_obj req)\<lparr>md := Pq_md (Some ?a) (next_access_vtime 0)\<rparr>"
  let ?c = "snd (new_node (inserted c req) ?i ?p)"
  obtain l where l: "cache_wf l c" and n: "nodes_ok (\<lambda>_ _. True) (table c) (pq_of c)"
      and f: "\<forall>a. pq_mem (pq_of c) a \<noteq> None \<longrightarrow> a < ?a"
    using assms(1) by (auto simp: pqc_inv_def)
  have "pq_mem (pq_of c) ?a = None"
    using f by blast
  then obtain q where q: "pqueue_insert (pq_of ?c) ?a = Inr q" "nodes_ok (\<lambda>_ _. True) ((table c)(?i \<mapsto> ?y)) q"
      "dom (pq_mem q) = insert ?a (dom (pq_mem (pq_of c)))"
    using nodes_ok_new [OF n assms(2), of ?a ?y ?p] by (auto simp: new_node_def Let_def)
  let ?d = "(set_pq ?c q)\<lparr>table := (table c)(?i \<mapsto> ?y)\<rparr>"
  have "cache_wf (?i # l) (inserted c req)"
    by (rule cache_wf_inserted [OF l assms(2,3)])
  then have "cache_wf (?i # l) (set_pq ?c q)"
    by (simp add: new_node_def Let_def)
  from cache_wf_upd [OF this, of ?i "new_obj req" ?y] have w: "cache_wf (?i # l) ?d"
    by (simp add: new_node_def Let_def)
  have "Size_insert c req = Inr (Some ?i, ?d)"
    using assms(2) q(1)
    by (simp add: Size_insert_def cache_insert_base_eq new_node_def Let_def upd_obj_def set_pq_def)
  moreover have "Size_inv ?d"
    using w q(2,3) f unfolding pqc_inv_def by (auto simp: new_node_def Let_def less_Suc_eq set_pq_def)
  ultimately show ?thesis
    by (intro exI [of _ ?d]) (simp add: new_node_def Let_def)
qed

interpretation size_cache: table_cache Size_ops Size_inv
proof (unfold_locales, goal_cases)
  case (6 c req)
  then show ?case
    using Size_find_ok [OF 6, of req] by (auto simp: Size_ops_def)
next
  case (7 c req)
  then show ?case
    using Size_insert_ok [of c req] by (auto simp: Size_ops_def)
next
  case (8 c req)
  obtain i x c' where e: "Belady_evict c req = Some (Inr c')" "table c i = Some x" "Size_inv c'"
      "table c' = (table c)(i := None)" "conf c' = conf c"
    using Belady_evict_ok [OF 8, of req req] by metis
  then show ?case
    by (intro exI [of _ c']) (auto simp: Size_ops_def Size_shared)
qed (auto simp: pqc_inv_def Size_ops_def cache_get_occupied_byte_default_def)

section \<open>Properties\<close>

lemma Size_victim:
  assumes "Size_inv c" "dom (table c) \<noteq> {}"
  shows "\<exists>i x a c'. Size_to_evict c req' = Inr (Some i) \<and> Size_evict c req = Some (Inr c') \<and> table c' = (table c)(i := None) \<and>
     table c i = Some x \<and> pq_node (md x) = Some a \<and>
     (\<forall>j y b. table c j = Some y \<and> pq_node (md y) = Some b \<longrightarrow> prio (pq_of c) b \<le> prio (pq_of c) a)"
proof -
  let ?K = "\<lambda>m p. \<exists>a. pq_node m = Some a \<and> prio (pq_of c) a = p"
  have "nodes_ok ?K (table c) (pq_of c)"
    using assms(1) unfolding pqc_inv_def nodes_ok_def by (fastforce simp: prio_def)
  then have "pqc_inv ?K c"
    using assms(1) by (simp add: pqc_inv_def)
  then obtain i x p c' where e: "Belady_to_evict c req' = Inr (Some i)" "Belady_evict c req = Some (Inr c')" "table c i = Some x"
      "?K (md x) p" "\<And>j y. table c j = Some y \<Longrightarrow> \<exists>r. r \<le> p \<and> ?K (md y) r" "pqc_inv ?K c'" "table c' = (table c)(i := None)"
      "conf c' = conf c" "occupied_byte c' = occupied_byte c - obj_bytes c i"
    by (rule Belady_evict_ok [OF _ assms(2), of ?K req' req]) (rule that)
  obtain a where a: "pq_node (md x) = Some a" "prio (pq_of c) a = p"
    using e(4) by blast
  have "prio (pq_of c) b \<le> prio (pq_of c) a" if "table c j = Some y" "pq_node (md y) = Some b" for j y b
    using e(5) [OF that(1)] that(2) a(2) by auto
  then show ?thesis
    using e(1-3,7) a(1) unfolding Size_shared by (intro exI [of _ i] exI [of _ x] exI [of _ a] exI [of _ c']) blast
qed

lemma example_size_inv: "Size_inv example_belady"
  using example_belady_inv unfolding pqc_inv_def nodes_ok_def by blast


lemma example_size_request:
  "req_ok example_belady (example_req 3 1)" "occupied_byte example_belady \<le> cache_size example_belady"
  "dom (table example_belady) = {1, 2}" "admits_default example_belady (example_req 3 1)"
  by (auto simp: example_belady_def example_cache_def req_ok_def to_u32_def admits_default_def)


end
