(* ===== verification/CBF.thy ===== *)
theory CBF
  imports XXHash CacheObj
begin

text \<open>
  The frequency sketch of Merlin, \<open>dataStructure/minimalIncrementCBF.c\<close>: an array of 32-bit counters
  indexed by \<open>hashes\<close> derived hash values of the object id. The floating-point sizing of
  \<open>minimalIncrementCBF_init\<close> is a parameter: the number of hash functions and the number of
  counters it computes.
\<close>

section \<open>The sketch\<close>

record cbf =
  entries :: int
  hashes :: nat
  counter_num :: nat
  bf :: "32 word list"
  cbf_ready :: bool

definition HASH_SEED0 :: "64 word" where "HASH_SEED0 = 0x12345678"
definition HASH_SEED1 :: "64 word" where "HASH_SEED1 = 0x12344321"

text \<open>
  \<open>n_hashes\<close> is \<open>(int)ceil(0.693147180559945 * bpe)\<close> and \<open>n_counters\<close> is
  \<open>(int)fmin(ceil(bpe * entries), INT_MAX)\<close>; a sketch with fewer counters than hash functions is
  enlarged to twice their number. \<open>malloc\<close> is assumed to succeed, otherwise the process exits.
\<close>

definition minimalIncrementCBF_init :: "cbf \<Rightarrow> int \<Rightarrow> nat \<Rightarrow> nat \<Rightarrow> int \<times> cbf" where
  "minimalIncrementCBF_init CBF n_entries n_hashes n_counters =
     (if cbf_ready CBF then (-1, CBF)
      else let num = (if n_counters < n_hashes then n_hashes * 2 else n_counters)
           in (0, CBF\<lparr>entries := n_entries, hashes := n_hashes, counter_num := num,
                     bf := replicate num 0, cbf_ready := True\<rparr>))"

text \<open>The array positions \<open>(a + i * b) % counter_num\<close>, computed in \<open>unsigned int\<close>.\<close>

definition cbf_index :: "cbf \<Rightarrow> obj_id \<Rightarrow> nat \<Rightarrow> nat" where
  "cbf_index CBF key i =
     (let a = ucast (XXH64 key HASH_SEED0) :: 32 word; b = ucast (XXH64 key HASH_SEED1) :: 32 word
      in unat ((a + of_nat i * b) mod of_nat (counter_num CBF)))"

definition cbf_indices :: "cbf \<Rightarrow> obj_id \<Rightarrow> nat list" where
  "cbf_indices CBF key = map (cbf_index CBF key) [0..<hashes CBF]"

text \<open>The two loops of \<open>minimalIncrementCBF_check_add\<close>, over the positions in loop order.\<close>

fun cbf_min :: "32 word list \<Rightarrow> nat list \<Rightarrow> 32 word \<Rightarrow> 32 word result" where
  "cbf_min b [] min_count = Inr min_count"
| "cbf_min b (x # xs) min_count =
     (if x < length b then cbf_min b xs (if b ! x < min_count then b ! x else min_count)
      else Inl OutOfBounds)"

fun cbf_incr :: "32 word list \<Rightarrow> nat list \<Rightarrow> 32 word list result" where
  "cbf_incr b [] = Inr b"
| "cbf_incr b (x # xs) =
     (if x < length b then cbf_incr (b[x := b ! x + 1]) xs else Inl OutOfBounds)"

definition UINT_MAX :: "32 word" where
  "UINT_MAX = 0xFFFFFFFF"

definition minimalIncrementCBF_check_add :: "cbf \<Rightarrow> obj_id \<Rightarrow> int \<Rightarrow> (int \<times> cbf) result" where
  "minimalIncrementCBF_check_add CBF key add =
     (if \<not> cbf_ready CBF then Inr (-1, CBF)
      else if add \<noteq> 0 \<and> add \<noteq> 1 then Inr (-1, CBF)
      else if counter_num CBF = 0 then Inl AssertFail
      else
        bindE (cbf_min (bf CBF) (cbf_indices CBF key) UINT_MAX) (\<lambda>min_count.
        if add = 1 \<and> min_count < UINT_MAX then
          bindE (cbf_incr (bf CBF) (cbf_indices CBF key)) (\<lambda>bf'.
          Inr (sint (min_count + 1), CBF\<lparr>bf := bf'\<rparr>))
        else Inr (sint min_count, CBF)))"

definition minimalIncrementCBF_estimate :: "cbf \<Rightarrow> obj_id \<Rightarrow> (int \<times> cbf) result" where
  "minimalIncrementCBF_estimate CBF key = minimalIncrementCBF_check_add CBF key 0"

definition minimalIncrementCBF_add :: "cbf \<Rightarrow> obj_id \<Rightarrow> (int \<times> cbf) result" where
  "minimalIncrementCBF_add CBF key = minimalIncrementCBF_check_add CBF key 1"

definition minimalIncrementCBF_free :: "cbf \<Rightarrow> cbf" where
  "minimalIncrementCBF_free CBF = (if cbf_ready CBF then CBF\<lparr>bf := [], cbf_ready := False\<rparr>
     else CBF\<lparr>cbf_ready := False\<rparr>)"

definition minimalIncrementCBF_decay :: "cbf \<Rightarrow> int \<times> cbf" where
  "minimalIncrementCBF_decay CBF =
     (if \<not> cbf_ready CBF then (1, CBF) else (0, CBF\<lparr>bf := map (drop_bit 1) (bf CBF)\<rparr>))"

section \<open>Estimates\<close>

definition cbf_wf :: "cbf \<Rightarrow> bool" where
  "cbf_wf CBF \<longleftrightarrow> cbf_ready CBF \<and> length (bf CBF) = counter_num CBF \<and> 0 < counter_num CBF \<and>
     counter_num CBF < 2 ^ 31"

definition cbf_est :: "cbf \<Rightarrow> obj_id \<Rightarrow> 32 word" where
  "cbf_est CBF key = Min (insert UINT_MAX ((!) (bf CBF) ` set (cbf_indices CBF key)))"

lemma cbf_index_less: "cbf_wf CBF \<Longrightarrow> cbf_index CBF key i < counter_num CBF"
proof -
  assume w: "cbf_wf CBF"
  then have u: "unat (of_nat (counter_num CBF) :: 32 word) = counter_num CBF"
    by (simp add: cbf_wf_def unat_of_nat)
  show ?thesis
    using w by (simp add: cbf_index_def Let_def unat_mod u cbf_wf_def)
qed

lemma cbf_indices_less: "cbf_wf CBF \<Longrightarrow> x \<in> set (cbf_indices CBF key) \<Longrightarrow> x < length (bf CBF)"
  using cbf_index_less by (auto simp: cbf_indices_def cbf_wf_def)

lemma cbf_min_eq:
  "(\<And>x. x \<in> set xs \<Longrightarrow> x < length b) \<Longrightarrow> cbf_min b xs m = Inr (Min (insert m ((!) b ` set xs)))"
proof (induction xs arbitrary: m)
  case (Cons x xs)
  have "Min (insert m ((!) b ` set (x # xs))) = min (b ! x) (Min (insert m ((!) b ` set xs)))"
    by (simp add: insert_commute [of m])
  also have "\<dots> = Min (insert (min (b ! x) m) ((!) b ` set xs))"
    by (cases "xs = []") (simp_all add: min.assoc)
  finally show ?case
    using Cons.IH Cons.prems by (simp add: min_def not_less) (metis (no_types, lifting) linorder_not_less order_le_less)
qed simp

lemma cbf_incr_eq:
  "(\<And>x. x \<in> set xs \<Longrightarrow> x < length b) \<Longrightarrow>
   \<exists>b'. cbf_incr b xs = Inr b' \<and> length b' = length b \<and>
        (\<forall>y < length b. b' ! y = b ! y + of_nat (count_list xs y))"
proof (induction xs arbitrary: b)
  case (Cons x xs)
  obtain b' where "cbf_incr (b[x := b ! x + 1]) xs = Inr b'" "length b' = length b"
      "\<forall>y < length b. b' ! y = b[x := b ! x + 1] ! y + of_nat (count_list xs y)"
    using Cons.IH [of "b[x := b ! x + 1]"] Cons.prems by auto
  then show ?case
    using Cons.prems by (auto simp: nth_list_update algebra_simps)
qed simp

lemma UINT_MAX_top [simp]: "w \<le> UINT_MAX"
  by (simp add: UINT_MAX_def word_le_nat_alt) (use unsigned_less [of w, where 'a = nat] in simp)

lemma cbf_est_le: "x \<in> set (cbf_indices CBF key) \<Longrightarrow> cbf_est CBF key \<le> bf CBF ! x"
  by (simp add: cbf_est_def)

lemma cbf_est_ge:
  "(\<And>x. x \<in> set (cbf_indices CBF key) \<Longrightarrow> w \<le> bf CBF ! x) \<Longrightarrow> w \<le> cbf_est CBF key"
  by (auto simp: cbf_est_def)

lemma minimalIncrementCBF_estimate_eq:
  assumes "cbf_wf CBF"
  shows "minimalIncrementCBF_estimate CBF key = Inr (sint (cbf_est CBF key), CBF)"
  using assms cbf_min_eq [of "cbf_indices CBF key" "bf CBF"] cbf_indices_less [OF assms]
  by (simp add: minimalIncrementCBF_estimate_def minimalIncrementCBF_check_add_def cbf_wf_def cbf_est_def)

lemma minimalIncrementCBF_add_eq:
  assumes "cbf_wf CBF"
  shows "\<exists>CBF' v. minimalIncrementCBF_add CBF key = Inr (v, CBF') \<and> cbf_wf CBF' \<and>
     hashes CBF' = hashes CBF \<and> counter_num CBF' = counter_num CBF \<and>
     (\<forall>y < counter_num CBF. bf CBF' ! y = bf CBF ! y +
        (if cbf_est CBF key < UINT_MAX then of_nat (count_list (cbf_indices CBF key) y) else 0)) \<and>
     v = sint (if cbf_est CBF key < UINT_MAX then cbf_est CBF key + 1 else cbf_est CBF key)"
proof -
  have i: "\<And>x. x \<in> set (cbf_indices CBF key) \<Longrightarrow> x < length (bf CBF)"
    by (rule cbf_indices_less [OF assms])
  obtain b' where b: "cbf_incr (bf CBF) (cbf_indices CBF key) = Inr b'" "length b' = length (bf CBF)"
      "\<forall>y < length (bf CBF). b' ! y = bf CBF ! y + of_nat (count_list (cbf_indices CBF key) y)"
    using cbf_incr_eq [of "cbf_indices CBF key" "bf CBF"] i by blast
  show ?thesis
    using assms b cbf_min_eq [of "cbf_indices CBF key" "bf CBF" UINT_MAX] i
    by (auto simp: minimalIncrementCBF_add_def minimalIncrementCBF_check_add_def cbf_wf_def cbf_est_def)
qed

section \<open>Properties\<close>

lemma cbf_indices_cong:
  "hashes CBF' = hashes CBF \<Longrightarrow> counter_num CBF' = counter_num CBF \<Longrightarrow>
   cbf_indices CBF' key = cbf_indices CBF key"
  by (simp add: cbf_indices_def cbf_index_def [abs_def])

lemma length_cbf_indices [simp]: "length (cbf_indices CBF key) = hashes CBF"
  by (simp add: cbf_indices_def)

lemma cbf_indices_nonempty: "0 < hashes CBF \<Longrightarrow> \<exists>x. x \<in> set (cbf_indices CBF key)"
  by (intro exI [of _ "cbf_index CBF key 0"]) (simp add: cbf_indices_def)

lemma sint_small: "unat (w :: 32 word) < 2 ^ 31 \<Longrightarrow> sint w = int (unat w)"
proof -
  assume "unat w < 2 ^ 31"
  then have "int (unat w) < int (2 ^ 31)"
    by (simp only: of_nat_less_iff)
  then have "uint w < 2 ^ 31"
    by simp
  moreover have "- (2 ^ 31) \<le> uint w"
    using unsigned_greater_eq [of w, where 'a = int] by (rule order_trans [rotated]) simp
  ultimately show ?thesis
    using signed_take_bit_int_eq_self [of 31 "uint w"] by (simp add: sint_uint)
qed

text \<open>
  The counters after a sequence of additions to an empty sketch: no counter exceeds the total
  number of increments, and every counter of a key is at least the number of times the key was
  added.
\<close>

definition cbf_counts :: "obj_id list \<Rightarrow> cbf \<Rightarrow> bool" where
  "cbf_counts ks CBF \<longleftrightarrow> cbf_wf CBF \<and>
     (\<forall>y < counter_num CBF. unat (bf CBF ! y) \<le> length ks * hashes CBF) \<and>
     (\<forall>key. \<forall>y \<in> set (cbf_indices CBF key). count_list ks key \<le> unat (bf CBF ! y))"

fun cbf_add_all :: "cbf \<Rightarrow> obj_id list \<Rightarrow> cbf result" where
  "cbf_add_all CBF [] = Inr CBF"
| "cbf_add_all CBF (key # ks) =
     bindE (minimalIncrementCBF_add CBF key) (\<lambda>(_, CBF). cbf_add_all CBF ks)"

lemma count_list_pos: "y \<in> set xs \<Longrightarrow> 0 < count_list xs y"
  by (induction xs) auto

lemma unat_add_small:
  "unat (w :: 32 word) \<le> n \<Longrightarrow> n + k < 2 ^ 32 \<Longrightarrow> unat (w + of_nat k) = unat w + k"
  by (simp add: unat_word_ariths unat_of_nat)

lemma cbf_counts_add:
  assumes c: "cbf_counts ks CBF" and h: "0 < hashes CBF"
    and n: "length (ks @ [key]) * hashes CBF < 2 ^ 32"
  shows "\<exists>v CBF'. minimalIncrementCBF_add CBF key = Inr (v, CBF') \<and> cbf_counts (ks @ [key]) CBF' \<and>
     hashes CBF' = hashes CBF"
proof -
  let ?xs = "cbf_indices CBF key"
  have w: "cbf_wf CBF" and b: "\<And>y. y < counter_num CBF \<Longrightarrow> unat (bf CBF ! y) \<le> length ks * hashes CBF"
    and l: "\<And>k y. y \<in> set (cbf_indices CBF k) \<Longrightarrow> count_list ks k \<le> unat (bf CBF ! y)"
    using c by (auto simp: cbf_counts_def)
  have lt: "\<And>k y. y \<in> set (cbf_indices CBF k) \<Longrightarrow> y < counter_num CBF"
    using cbf_indices_less [OF w] w by (simp add: cbf_wf_def)
  obtain x where x: "x \<in> set ?xs"
    using cbf_indices_nonempty [OF h] by blast
  have "unat (bf CBF ! x) < 2 ^ 32 - 1"
    using b [OF lt [OF x]] n h by (simp add: add_mult_distrib)
  then have "bf CBF ! x < UINT_MAX"
    by (simp add: UINT_MAX_def word_less_nat_alt)
  then have e: "cbf_est CBF key < UINT_MAX"
    using cbf_est_le [OF x] by (rule order.strict_trans1 [rotated])
  obtain CBF' v where a: "minimalIncrementCBF_add CBF key = Inr (v, CBF')" "cbf_wf CBF'"
      "hashes CBF' = hashes CBF" "counter_num CBF' = counter_num CBF"
      "\<forall>y < counter_num CBF. bf CBF' ! y = bf CBF ! y + of_nat (count_list ?xs y)"
    using minimalIncrementCBF_add_eq [OF w, of key] e by auto
  have u: "unat (bf CBF' ! y) = unat (bf CBF ! y) + count_list ?xs y" if "y < counter_num CBF" for y
    unfolding a(5) [rule_format, OF that]
    by (rule unat_add_small [OF b [OF that]])
      (use n count_le_length [of ?xs y] in \<open>simp add: add_mult_distrib\<close>)
  have "unat (bf CBF' ! y) \<le> length (ks @ [key]) * hashes CBF" if "y < counter_num CBF" for y
    using u [OF that] b [OF that] count_le_length [of ?xs y] by (simp add: add_mult_distrib)
  moreover have "count_list (ks @ [key]) k \<le> unat (bf CBF' ! y)" if "y \<in> set (cbf_indices CBF k)" for k y
    using u [OF lt [OF that]] l [OF that] that count_list_pos [of y ?xs] by auto
  ultimately show ?thesis
    using a cbf_indices_cong [OF a(3,4)] by (simp add: cbf_counts_def)
qed

lemma cbf_counts_add_all:
  "cbf_counts ks CBF \<Longrightarrow> 0 < hashes CBF \<Longrightarrow> length (ks @ ks') * hashes CBF < 2 ^ 32 \<Longrightarrow>
   \<exists>CBF'. cbf_add_all CBF ks' = Inr CBF' \<and> cbf_counts (ks @ ks') CBF'"
proof (induction ks' arbitrary: ks CBF)
  case (Cons key ks')
  have "length (ks @ [key]) * hashes CBF \<le> length (ks @ key # ks') * hashes CBF"
    by simp
  then obtain v CBF' where "minimalIncrementCBF_add CBF key = Inr (v, CBF')"
      "cbf_counts (ks @ [key]) CBF'" "hashes CBF' = hashes CBF"
    using cbf_counts_add [OF Cons.prems(1,2) le_less_trans [OF _ Cons.prems(3)]] by blast
  then show ?case
    using Cons.IH [of "ks @ [key]" CBF'] Cons.prems by simp
qed simp

text \<open>
  C22: the sketch never underestimates. After any sequence of additions to a freshly initialised
  sketch, as long as the counters cannot overflow, the additions all succeed and the estimate of
  every key is at least the number of times it was added.
\<close>

theorem cbf_never_underestimates:
  assumes "minimalIncrementCBF_init CBF n h m = (0, CBF0)" "0 < h" "0 < m" "max m (h * 2) < 2 ^ 31"
    and "length ks * h < 2 ^ 31"
  shows "\<exists>CBF'. cbf_add_all CBF0 ks = Inr CBF' \<and>
     (\<forall>key. \<exists>v. minimalIncrementCBF_estimate CBF' key = Inr (v, CBF') \<and> int (count_list ks key) \<le> v)"
proof -
  have i: "cbf_counts [] CBF0" "hashes CBF0 = h"
    using assms(1-4) cbf_indices_less
    by (auto simp: cbf_counts_def minimalIncrementCBF_init_def cbf_wf_def Let_def split: if_splits)
  obtain CBF' where c: "cbf_add_all CBF0 ks = Inr CBF'" "cbf_counts ks CBF'"
    using cbf_counts_add_all [OF i(1), of ks] i(2) assms(2,5) by auto
  have hh: "hashes CBF' = h" if "cbf_add_all C ks = Inr CBF'" "cbf_wf C" "hashes C = h" for C
    using that
  proof (induction ks arbitrary: C)
    case (Cons k ks)
    then show ?case using minimalIncrementCBF_add_eq [of C k] by fastforce
  qed simp
  have w: "cbf_wf CBF'"
    using c(2) by (simp add: cbf_counts_def)
  have "int (count_list ks key) \<le> sint (cbf_est CBF' key)" for key
  proof -
    let ?xs = "cbf_indices CBF' key"
    have "hashes CBF' = h"
      using hh [OF c(1)] i by (auto simp: cbf_counts_def)
    then obtain x where x: "x \<in> set ?xs"
      using cbf_indices_nonempty [of CBF' key] assms(2) by blast
    have "unat (bf CBF' ! x) < 2 ^ 31"
      using c(2) cbf_indices_less [OF w x] assms(5) \<open>hashes CBF' = h\<close>
      by (fastforce simp: cbf_counts_def cbf_wf_def)
    then have s: "unat (cbf_est CBF' key) < 2 ^ 31"
      using cbf_est_le [OF x] by (simp add: word_le_nat_alt)
    have k: "count_list ks key < 2 ^ 31"
      using c(2) x \<open>unat (bf CBF' ! x) < 2 ^ 31\<close> by (fastforce simp: cbf_counts_def)
    have "of_nat (count_list ks key) \<le> cbf_est CBF' key"
      using c(2) k by (intro cbf_est_ge) (auto simp: cbf_counts_def word_le_nat_alt unat_of_nat)
    then have "count_list ks key \<le> unat (cbf_est CBF' key)"
      using k by (simp add: word_le_nat_alt unat_of_nat)
    then show ?thesis
      unfolding sint_small [OF s] by (rule of_nat_mono)
  qed
  then show ?thesis
    using c(1) minimalIncrementCBF_estimate_eq [OF w] by auto
qed

theorem cbf_never_underestimates_witness:
  "\<exists>CBF'. cbf_add_all (snd (minimalIncrementCBF_init
        \<lparr>entries = 0, hashes = 0, counter_num = 0, bf = [], cbf_ready = False\<rparr> 100 10 1438)) [7, 9, 7] = Inr CBF' \<and>
     (\<exists>v. minimalIncrementCBF_estimate CBF' 7 = Inr (v, CBF') \<and> 2 \<le> v)"
  using cbf_never_underestimates [of "\<lparr>entries = 0, hashes = 0, counter_num = 0, bf = [], cbf_ready = False\<rparr>"
      100 10 1438 "snd (minimalIncrementCBF_init
        \<lparr>entries = 0, hashes = 0, counter_num = 0, bf = [], cbf_ready = False\<rparr> 100 10 1438)" "[7, 9, 7]"]
  by (auto simp: minimalIncrementCBF_init_def Let_def dest!: spec [of _ 7])



end
