(* ===== verification/Merlin.thy ===== *)
theory Merlin
  imports FIFO CBF
begin

text \<open>
  The Merlin cache of \<open>cache/eviction/cpp/merlin.cpp\<close>: four FIFO caches (filter, staging, core and
  ghost), a frequency sketch, and the cumulative frequency histogram \<open>hotdistribution\<close> from which the
  promotion threshold \<open>guard_freq\<close> is derived. This theory holds the model; \<open>Merlin_Inv\<close>,
  \<open>Merlin_Moves\<close>, \<open>Merlin_Loops\<close>, \<open>Merlin_Cache\<close> and \<open>Merlin_Props\<close> hold its invariant and its properties. \<open>TRACK_PARAMETERS\<close> is off.
\<close>

section \<open>State\<close>

record merlin_md =
  m_freq :: int
  m_staginghit :: bool
  m_inghost :: bool

text \<open>\<open>memset\<close> clears the metadata of a new object.\<close>

instantiation unit :: zero
begin
definition zero_unit :: unit where "zero_unit = ()"
instance ..
end

instantiation merlin_md_ext :: (zero) zero
begin
definition zero_merlin_md_ext :: "'a merlin_md_ext" where
  "zero_merlin_md_ext = merlin_md_ext 0 False False 0"
instance ..
end

definition MAXFREQ :: int where
  "MAXFREQ = 7"

record merlin_params =
  timer :: int
  req_local :: request
  req_staging :: request
  filter :: "merlin_md FIFO_cache"
  staging :: "merlin_md FIFO_cache"
  core :: "merlin_md FIFO_cache"
  ghost :: "merlin_md FIFO_cache"
  filter_limit :: int
  core_limit :: int
  staging_limit :: int
  ghost_limit :: int
  sketch :: cbf
  epoch_count :: int
  epoch_update :: int
  guard_freq :: int
  hotdistribution :: "int list"
  evictobj_num :: int
  seq_miss :: int
  ghost_freq :: int
  hit_on_ghost :: bool
  move_to_core :: bool
  filter_hitnum :: int
  staging_hitnum :: int
  core_hitnum :: int
  ghost_hitnum :: int
  compareguard :: int
  ghost2core :: int
  ghost2staging :: int
  filter2staging :: int
  filter2core :: int
  filter2ghost :: int
  staging2core :: int
  evict_staging_ghost :: int
  n_byte_admit_to_core :: int
  n_byte_move_to_core :: int

type_synonym merlin_cache = "(merlin_md, merlin_params) cache"

text \<open>\<open>get_occupied_byte\<close> and \<open>get_n_obj\<close> of the four FIFO caches are the defaults.\<close>

abbreviation occ :: "merlin_md FIFO_cache \<Rightarrow> int" where
  "occ c \<equiv> cache_get_occupied_byte_default c"

abbreviation n_objs :: "merlin_md FIFO_cache \<Rightarrow> int" where
  "n_objs c \<equiv> cache_get_n_obj_default c"

section \<open>Helpers\<close>

text \<open>Unchecked accesses to the vector \<open>hotdistribution\<close>.\<close>

definition hot_get :: "int list \<Rightarrow> int \<Rightarrow> int result" where
  "hot_get hs i = (if 0 \<le> i \<and> nat i < length hs then Inr (hs ! nat i) else Inl OutOfBounds)"

definition hot_add :: "int list \<Rightarrow> int \<Rightarrow> int \<Rightarrow> int list result" where
  "hot_add hs i d =
     (if 0 \<le> i \<and> nat i < length hs then Inr (hs[nat i := hs ! nat i + d]) else Inl OutOfBounds)"

text \<open>Writing the Merlin metadata of an object.\<close>

definition set_md ::
  "merlin_md FIFO_cache \<Rightarrow> obj_id option \<Rightarrow> (merlin_md \<Rightarrow> merlin_md) \<Rightarrow> merlin_md FIFO_cache result" where
  "set_md c p f = upd_obj c p (\<lambda>x. x\<lparr>md := f (md x)\<rparr>)"

text \<open>\<open>obj = q->insert(q, req)\<close> followed by the assignments to \<open>obj->MERLIN\<close>.\<close>

definition insert_with ::
  "merlin_md FIFO_cache \<Rightarrow> request \<Rightarrow> (merlin_md \<Rightarrow> merlin_md) \<Rightarrow> merlin_md FIFO_cache result" where
  "insert_with c req f = bindE (FIFO_insert c req) (\<lambda>(obj, c). set_md c obj f)"

text \<open>\<open>q->to_evict(q, NULL)\<close>; FIFO ignores the request.\<close>

definition victim :: "merlin_md FIFO_cache \<Rightarrow> obj_id option" where
  "victim c = FIFO_to_evict c new_request"

definition note_in_sketch :: "merlin_params \<Rightarrow> obj_id \<Rightarrow> merlin_params result" where
  "note_in_sketch P i =
     bindE (minimalIncrementCBF_add (sketch P) i) (\<lambda>(_, C). Inr (P\<lparr>sketch := C\<rparr>))"

text \<open>
  The block each hit executes: the frequency saturates at \<open>MAXFREQ\<close>, and an increase is entered
  into the histogram.
\<close>

definition bump_freq ::
  "merlin_md FIFO_cache \<Rightarrow> obj_id option \<Rightarrow> int list \<Rightarrow> (merlin_md FIFO_cache \<times> int list) result" where
  "bump_freq c obj hs =
     bindE (deref c obj) (\<lambda>x.
     if m_freq (md x) < MAXFREQ then
       bindE (set_md c obj (\<lambda>m. m\<lparr>m_freq := m_freq m + 1\<rparr>)) (\<lambda>c.
       bindE (hot_add hs (m_freq (md x) + 1) 1) (\<lambda>hs. Inr (c, hs)))
     else Inr (c, hs))"

section \<open>Initialisation\<close>

text \<open>
  \<open>filter_bytes\<close>, \<open>staging_bytes\<close> and \<open>ghost_bytes\<close> are the products of the size ratios with the
  cache size, converted to \<open>uint64_t\<close>; \<open>n_hashes\<close> and \<open>n_counters\<close> size the sketch. \<open>junk\<close> is the
  value of \<open>ghost_freq\<close>, which the function leaves uninitialised.
\<close>

definition merlin_init ::
  "common_cache_params \<Rightarrow> int \<Rightarrow> int \<Rightarrow> int \<Rightarrow> int \<Rightarrow> nat \<Rightarrow> nat \<Rightarrow> int \<Rightarrow> merlin_cache" where
  "merlin_init ccache_params filter_bytes staging_bytes ghost_bytes epoch_upd n_hashes n_counters junk =
     (let fl = max 1 filter_bytes; sl = max 1 staging_bytes;
          cl = to_u64 (cp_cache_size ccache_params - fl - sl); gl = ghost_bytes;
          sub = (\<lambda>n. FIFO_init (ccache_params\<lparr>cp_cache_size := n\<rparr>));
          empty_cbf = \<lparr>entries = 0, hashes = 0, counter_num = 0, bf = [], cbf_ready = False\<rparr>
      in cache_struct_init ccache_params
        \<lparr>timer = 0, req_local = new_request, req_staging = new_request,
         filter = sub fl, staging = sub sl, core = sub cl, ghost = sub gl,
         filter_limit = fl, core_limit = cl, staging_limit = sl, ghost_limit = gl,
         sketch = snd (minimalIncrementCBF_init empty_cbf (cp_cache_size ccache_params) n_hashes n_counters),
         epoch_count = 0, epoch_update = epoch_upd, guard_freq = 2,
         hotdistribution = replicate (nat (MAXFREQ + 1)) 0, evictobj_num = 0, seq_miss = 0,
         ghost_freq = junk, hit_on_ghost = False, move_to_core = False,
         filter_hitnum = 0, staging_hitnum = 0, core_hitnum = 0, ghost_hitnum = 0, compareguard = 0,
         ghost2core = 0, ghost2staging = 0, filter2staging = 0, filter2core = 0, filter2ghost = 0,
         staging2core = 0, evict_staging_ghost = 0, n_byte_admit_to_core = 0,
         n_byte_move_to_core = 0\<rparr>)"

section \<open>Lookup\<close>

definition merlin_lookup :: "merlin_params \<Rightarrow> request \<Rightarrow> obj_id option" where
  "merlin_lookup P req =
     (case fst (FIFO_find (filter P) req False) of Some i \<Rightarrow> Some i
      | None \<Rightarrow> (case fst (FIFO_find (staging P) req False) of Some i \<Rightarrow> Some i
      | None \<Rightarrow> fst (FIFO_find (core P) req False)))"

text \<open>The part of \<open>merlin_find\<close> that runs when no real partition holds the object.\<close>

definition find_in_ghost :: "merlin_params \<Rightarrow> request \<Rightarrow> merlin_params result" where
  "find_in_ghost P req =
     (case FIFO_find (ghost P) req False of
        (None, _) \<Rightarrow> Inr P
      | (Some i, g) \<Rightarrow>
        bindE (bump_freq g (Some i) (hotdistribution P)) (\<lambda>(g, hs).
        bindE (deref g (Some i)) (\<lambda>x.
        let P = P\<lparr>ghost_hitnum := ghost_hitnum P + 1, ghost := g, hotdistribution := hs,
                  hit_on_ghost := True, ghost_freq := m_freq (md x)\<rparr>
        in Inr (if m_freq (md x) \<ge> guard_freq P then P\<lparr>move_to_core := True\<rparr> else P))))"

definition merlin_find ::
  "merlin_params \<Rightarrow> request \<Rightarrow> bool \<Rightarrow> (obj_id option \<times> merlin_params) result" where
  "merlin_find P req update_cache =
     (if \<not> update_cache then Inr (merlin_lookup P req, P)
      else
        let P = P\<lparr>timer := timer P + 1\<rparr> in
        case FIFO_find (filter P) req True of
          (Some i, f) \<Rightarrow>
            bindE (bump_freq f (Some i) (hotdistribution P)) (\<lambda>(f, hs).
            Inr (Some i, P\<lparr>filter_hitnum := filter_hitnum P + 1, filter := f, hotdistribution := hs,
                           seq_miss := 0\<rparr>))
        | (None, f) \<Rightarrow>
        case FIFO_find (staging P) req True of
          (Some i, s) \<Rightarrow>
            bindE (set_md s (Some i) (\<lambda>m. m\<lparr>m_staginghit := True\<rparr>)) (\<lambda>s.
            bindE (bump_freq s (Some i) (hotdistribution P)) (\<lambda>(s, hs).
            Inr (Some i, P\<lparr>staging_hitnum := staging_hitnum P + 1, staging := s, hotdistribution := hs,
                           seq_miss := 0\<rparr>)))
        | (None, s) \<Rightarrow>
        case FIFO_find (core P) req True of
          (Some i, c) \<Rightarrow>
            bindE (bump_freq c (Some i) (hotdistribution P)) (\<lambda>(c, hs).
            Inr (Some i, P\<lparr>core_hitnum := core_hitnum P + 1, core := c, hotdistribution := hs,
                           seq_miss := 0\<rparr>))
        | (None, c) \<Rightarrow>
            bindE (find_in_ghost P req) (\<lambda>P. Inr (None, P\<lparr>seq_miss := seq_miss P + 1\<rparr>)))"

section \<open>Insertion and ghost bookkeeping\<close>

text \<open>
  \<open>decreasepop\<close> moves an object down from \<open>ori_freq\<close> to \<open>dest_freq\<close> in the cumulative histogram.
\<close>

function decreasepop :: "int list \<Rightarrow> int \<Rightarrow> int \<Rightarrow> int list result" where
  "decreasepop hs i dest_freq =
     (if i > dest_freq then bindE (hot_add hs i (-1)) (\<lambda>hs. decreasepop hs (i - 1) dest_freq)
      else Inr hs)"
  by pat_completeness auto
termination
  by (relation "measure (\<lambda>(hs, i, d). nat (i - d))") auto

definition hot_new :: "merlin_params \<Rightarrow> merlin_params result" where
  "hot_new P = bindE (hot_add (hotdistribution P) 0 1) (\<lambda>hs. Inr (P\<lparr>hotdistribution := hs\<rparr>))"

text \<open>The size \<open>cache_obj_t\<close> records for a request.\<close>

definition stored_size :: "request \<Rightarrow> int" where
  "stored_size req = to_u32 (r_obj_size req)"

definition merlin_insert :: "merlin_params \<Rightarrow> request \<Rightarrow> (obj_id option \<times> merlin_params) result" where
  "merlin_insert P req =
     bindE
       (if occ (staging P) = 0 \<and> occ (filter P) = 0 then
          bindE (insert_with (core P) req (\<lambda>m. m\<lparr>m_freq := 0\<rparr>)) (\<lambda>c.
          hot_new (P\<lparr>core := c, n_byte_admit_to_core := n_byte_admit_to_core P + stored_size req\<rparr>))
        else if hit_on_ghost P then
          let P = P\<lparr>hit_on_ghost := False\<rparr> in
          if move_to_core P then
            let P = P\<lparr>ghost2core := ghost2core P + 1, move_to_core := False\<rparr> in
            bindE (insert_with (core P) req (\<lambda>m. m\<lparr>m_freq := ghost_freq P\<rparr>)) (\<lambda>c.
            bindE (FIFO_remove (ghost P) (r_obj_id req)) (\<lambda>(_, g).
            Inr (P\<lparr>core := c, ghost := g\<rparr>)))
          else
            let P = P\<lparr>ghost2staging := ghost2staging P + 1\<rparr> in
            bindE (note_in_sketch P (r_obj_id req)) (\<lambda>P.
            bindE (insert_with (staging P) req (\<lambda>m. m\<lparr>m_freq := 0, m_inghost := True\<rparr>)) (\<lambda>s.
            hot_new (P\<lparr>staging := s, n_byte_admit_to_core := n_byte_admit_to_core P + stored_size req\<rparr>)))
        else
          bindE (insert_with (filter P) req (\<lambda>m. m\<lparr>m_freq := 0\<rparr>)) (\<lambda>f.
          hot_new (P\<lparr>filter := f\<rparr>)))
       (\<lambda>P. Inr (Some (r_obj_id req), P))"

text \<open>\<open>merlin_to_evict\<close> is not supported: it asserts false.\<close>

definition merlin_to_evict :: "merlin_params \<Rightarrow> request \<Rightarrow> (obj_id option \<times> merlin_params) result" where
  "merlin_to_evict P req = Inl AssertFail"

definition addtoghost :: "merlin_params \<Rightarrow> request \<Rightarrow> int \<Rightarrow> merlin_params result" where
  "addtoghost P req freq =
     bindE (insert_with (ghost P) req (\<lambda>m. m\<lparr>m_freq := freq\<rparr>)) (\<lambda>g. Inr (P\<lparr>ghost := g\<rparr>))"

definition removefromghost :: "merlin_params \<Rightarrow> request \<Rightarrow> (int \<times> merlin_params) result" where
  "removefromghost P req =
     (case fst (FIFO_find (ghost P) req False) of
        None \<Rightarrow> Inr (0, P)
      | Some i \<Rightarrow>
        bindE (deref (ghost P) (Some i)) (\<lambda>x.
        let ori_freq = m_freq (md x) in
        bindE (decreasepop (hotdistribution P) ori_freq (-1)) (\<lambda>hs.
        bindE (FIFO_remove (ghost P) (obj_id x)) (\<lambda>(_, g).
        Inr (ori_freq, P\<lparr>hotdistribution := hs, ghost := g\<rparr>)))))"

section \<open>Moving objects between the queues\<close>

text \<open>One round of the loop of \<open>adjust_core\<close>: the core victim is demoted to staging.\<close>

definition core_to_staging :: "merlin_params \<Rightarrow> merlin_params result" where
  "core_to_staging P =
     bindE (deref (core P) (victim (core P))) (\<lambda>x.
     let ori_freq = m_freq (md x) in
     if \<not> (0 \<le> ori_freq \<and> ori_freq \<le> MAXFREQ) then Inl AssertFail
     else
       let req = copy_cache_obj_to_request (req_local P) x in
       bindE (insert_with (staging P) req (\<lambda>m. m\<lparr>m_freq := ori_freq\<rparr>)) (\<lambda>s.
       bindE (FIFO_remove (core P) (obj_id x)) (\<lambda>(_, c).
       Inr (P\<lparr>req_local := req, staging := s, core := c\<rparr>))))"

partial_function (option) adjust_core :: "merlin_params \<Rightarrow> merlin_params outcome" where
  "adjust_core P =
     (if core_limit P < to_u64 (occ (core P))
      then (case core_to_staging P of Inl e \<Rightarrow> Some (Inl e) | Inr P' \<Rightarrow> adjust_core P')
      else Some (Inr P))"

definition evict_staging :: "merlin_params \<Rightarrow> merlin_params result" where
  "evict_staging P =
     bindE (deref (staging P) (victim (staging P))) (\<lambda>x.
     bindE (decreasepop (hotdistribution P) (m_freq (md x)) (-1)) (\<lambda>hs.
     bindE (FIFO_remove (staging P) (obj_id x)) (\<lambda>(_, s).
     Inr (P\<lparr>hotdistribution := hs, staging := s\<rparr>))))"

text \<open>
  \<open>compare\<close> returns 1 when the filter candidate replaces the staging candidate. It reads
  \<open>filter_to_evict->obj_size\<close> after \<open>filter->remove\<close> has freed the object: \<open>stale i\<close> is the value
  found in the freed memory of object \<open>i\<close>, which only the counter \<open>n_byte_move_to_core\<close> receives.
\<close>

definition size_after_free :: "(obj_id \<Rightarrow> int) \<Rightarrow> merlin_md FIFO_cache \<Rightarrow> obj_id \<Rightarrow> int" where
  "size_after_free stale c i = (case table c i of Some x \<Rightarrow> obj_size x | None \<Rightarrow> stale i)"

definition swap_candidates :: "(obj_id \<Rightarrow> int) \<Rightarrow> merlin_params \<Rightarrow> merlin_md cache_obj \<Rightarrow> merlin_params result" where
  "swap_candidates stale P x =
     (let P = P\<lparr>compareguard := compareguard P + 1\<rparr> in
      bindE (note_in_sketch P (obj_id x)) (\<lambda>P.
      let req = copy_cache_obj_to_request (req_staging P) x in
      bindE (insert_with (staging P) req (\<lambda>m. m\<lparr>m_freq := 0, m_inghost := True\<rparr>)) (\<lambda>s.
      bindE (hot_new (P\<lparr>req_staging := req, staging := s\<rparr>)) (\<lambda>P.
      bindE (addtoghost P req (m_freq (md x))) (\<lambda>P.
      bindE (FIFO_remove (filter P) (obj_id x)) (\<lambda>(_, f).
      Inr (P\<lparr>filter := f,
             n_byte_move_to_core := n_byte_move_to_core P + size_after_free stale f (obj_id x)\<rparr>)))))))"

definition compare :: "(obj_id \<Rightarrow> int) \<Rightarrow> merlin_params \<Rightarrow> (int \<times> merlin_params) result" where
  "compare stale P =
     (if victim (filter P) = None \<or> victim (staging P) = None then Inr (0, P)
      else
        bindE (deref (filter P) (victim (filter P))) (\<lambda>x.
        bindE (deref (staging P) (victim (staging P))) (\<lambda>y.
        if m_freq (md y) > 0 then Inr (0, P)
        else
          bindE (minimalIncrementCBF_estimate (sketch P) (obj_id x)) (\<lambda>(filter_value, _).
          if filter_value > epoch_update P then Inr (0, P)
          else
            bindE (minimalIncrementCBF_estimate (sketch P) (obj_id y)) (\<lambda>(staging_value, _).
            if filter_value > staging_value
            then bindE (swap_candidates stale P x) (\<lambda>P. Inr (1, P))
            else Inr (2, P))))))"

text \<open>
  One round of the loop of \<open>adjust_staging\<close> on a victim with positive frequency; its first part
  drops the ghost entry of an object that was staged from the ghost queue.
\<close>

definition forget_ghost :: "merlin_params \<Rightarrow> merlin_md cache_obj \<Rightarrow> request \<Rightarrow> merlin_params result" where
  "forget_ghost P x req =
     (if m_inghost (md x) then
        bindE (removefromghost (P\<lparr>evict_staging_ghost := evict_staging_ghost P + 1\<rparr>) req) (\<lambda>(_, P).
        bindE (set_md (staging P) (Some (obj_id x)) (\<lambda>m. m\<lparr>m_inghost := False\<rparr>)) (\<lambda>s.
        Inr (P\<lparr>staging := s\<rparr>)))
      else Inr P)"

definition staging_to_core :: "merlin_params \<Rightarrow> merlin_md cache_obj \<Rightarrow> merlin_params result" where
  "staging_to_core P x =
     (let ori_freq = m_freq (md x); req = copy_cache_obj_to_request (req_local P) x;
          P = P\<lparr>req_local := req\<rparr> in
      bindE (forget_ghost P x req) (\<lambda>P.
      bindE (note_in_sketch P (r_obj_id req)) (\<lambda>P.
      bindE (insert_with (core P) req (\<lambda>m. m\<lparr>m_freq := ori_freq - 1\<rparr>)) (\<lambda>c.
      bindE (decreasepop (hotdistribution P) ori_freq (ori_freq - 1)) (\<lambda>hs.
      bindE (FIFO_remove (staging P) (obj_id x)) (\<lambda>(_, s).
      Inr (P\<lparr>core := c, hotdistribution := hs, staging2core := staging2core P + 1, staging := s\<rparr>)))))))"

partial_function (option) adjust_staging :: "merlin_params \<Rightarrow> (int \<times> merlin_params) outcome" where
  "adjust_staging P =
     (if occ (staging P) > 0 then
        (case deref (staging P) (victim (staging P)) of Inl e \<Rightarrow> Some (Inl e)
         | Inr x \<Rightarrow>
           if m_freq (md x) = 0 then Some (Inr (1, P))
           else (case staging_to_core P x of Inl e \<Rightarrow> Some (Inl e) | Inr P' \<Rightarrow> adjust_staging P'))
      else Some (Inr (0, P)))"

text \<open>One round of the loop of \<open>adjust_filter\<close>; the flag is \<open>has_evicted\<close>.\<close>

definition filter_round :: "(obj_id \<Rightarrow> int) \<Rightarrow> merlin_params \<Rightarrow> (bool \<times> merlin_params) result" where
  "filter_round stale P =
     bindE (deref (filter P) (victim (filter P))) (\<lambda>x.
     let ori_freq = m_freq (md x); req = copy_cache_obj_to_request (req_local P) x;
         P = P\<lparr>req_local := req\<rparr>;
         finish = (\<lambda>evicted P.
           bindE (note_in_sketch P (r_obj_id (req_local P))) (\<lambda>P.
           bindE (FIFO_remove (filter P) (obj_id x)) (\<lambda>(_, f). Inr (evicted, P\<lparr>filter := f\<rparr>)))) in
     if ori_freq \<ge> guard_freq P then
       let P = P\<lparr>filter2core := filter2core P + 1\<rparr> in
       bindE (insert_with (core P) req (\<lambda>m. m\<lparr>m_freq := 0\<rparr>)) (\<lambda>c.
       bindE (decreasepop (hotdistribution P) ori_freq 0) (\<lambda>hs.
       finish False (P\<lparr>core := c, hotdistribution := hs\<rparr>)))
     else
       bindE (compare stale P) (\<lambda>(ret, P).
       if ret = 1 then
         bindE (evict_staging (P\<lparr>filter2staging := filter2staging P + 1\<rparr>)) (\<lambda>P. Inr (True, P))
       else
         bindE (addtoghost (P\<lparr>filter2ghost := filter2ghost P + 1\<rparr>) req ori_freq) (finish True)))"

partial_function (option) adjust_filter ::
  "(obj_id \<Rightarrow> int) \<Rightarrow> merlin_params \<Rightarrow> (bool \<times> merlin_params) outcome" where
  "adjust_filter stale P =
     (if occ (filter P) > 0 then
        (case filter_round stale P of Inl e \<Rightarrow> Some (Inl e)
         | Inr (has_evicted, P') \<Rightarrow>
             if has_evicted then Some (Inr (True, P')) else adjust_filter stale P')
      else Some (Inr (False, P)))"

text \<open>One round of the loop of \<open>adjust_ghost\<close>.\<close>

definition drop_ghost :: "merlin_params \<Rightarrow> merlin_params result" where
  "drop_ghost P =
     bindE (deref (ghost P) (victim (ghost P))) (\<lambda>x.
     bindE (FIFO_remove (ghost P) (obj_id x)) (\<lambda>(_, g).
     bindE (decreasepop (hotdistribution P) (m_freq (md x)) (-1)) (\<lambda>hs.
     Inr (P\<lparr>ghost := g, hotdistribution := hs\<rparr>))))"

partial_function (option) adjust_ghost :: "merlin_params \<Rightarrow> merlin_params outcome" where
  "adjust_ghost P =
     (if to_u64 (occ (ghost P)) > ghost_limit P
      then (case drop_ghost P of Inl e \<Rightarrow> Some (Inl e) | Inr P' \<Rightarrow> adjust_ghost P')
      else Some (Inr P))"

section \<open>The promotion threshold\<close>

text \<open>The two loops of \<open>merlin_adjustguard\<close>.\<close>

function guard_up :: "int list \<Rightarrow> int \<Rightarrow> int \<Rightarrow> int result" where
  "guard_up hs guardthreshold g =
     bindE (hot_get hs g) (\<lambda>v. if v > guardthreshold then guard_up hs guardthreshold (g + 1) else Inr g)"
  by pat_completeness auto
termination
  by (relation "measure (\<lambda>(hs, t, g). nat (int (length hs) - g))")
    (auto simp: hot_get_def split: if_splits)

function guard_down :: "int list \<Rightarrow> int \<Rightarrow> int \<Rightarrow> int result" where
  "guard_down hs guardthreshold g =
     (if g > 1 then
        bindE (hot_get hs (g - 1)) (\<lambda>v.
        if v < guardthreshold then guard_down hs guardthreshold (g - 1) else Inr g)
      else Inr g)"
  by pat_completeness auto
termination
  by (relation "measure (\<lambda>(hs, t, g). nat g)") auto

definition merlin_adjustguard :: "merlin_params \<Rightarrow> merlin_params result" where
  "merlin_adjustguard P =
     (let guardthreshold = n_objs (core P) in
      bindE (hot_get (hotdistribution P) (guard_freq P)) (\<lambda>v.
      bindE (if v > guardthreshold then guard_up (hotdistribution P) guardthreshold (guard_freq P)
             else guard_down (hotdistribution P) guardthreshold (guard_freq P)) (\<lambda>g.
      Inr (P\<lparr>guard_freq := g\<rparr>))))"

section \<open>Eviction, removal and the operation table\<close>

definition merlin_get_occupied_byte :: "merlin_params \<Rightarrow> int" where
  "merlin_get_occupied_byte P = occ (filter P) + occ (staging P) + occ (core P)"

definition merlin_get_n_obj :: "merlin_params \<Rightarrow> int" where
  "merlin_get_n_obj P = n_objs (filter P) + n_objs (staging P) + n_objs (core P)"

definition merlin_can_insert :: "merlin_params \<Rightarrow> request \<Rightarrow> bool" where
  "merlin_can_insert P req \<longleftrightarrow> r_obj_size req \<le> cache_size (filter P)"

text \<open>The epoch bookkeeping at the start of \<open>merlin_evict\<close>.\<close>

definition count_eviction :: "merlin_params \<Rightarrow> merlin_params" where
  "count_eviction P =
     (let P = P\<lparr>evictobj_num := evictobj_num P + 1\<rparr> in
      if evictobj_num P = merlin_get_n_obj P then
        let P = P\<lparr>evictobj_num := 0, epoch_count := epoch_count P + 1\<rparr> in
        if epoch_count P \<ge> epoch_update P
        then P\<lparr>epoch_count := 0, sketch := snd (minimalIncrementCBF_decay (sketch P))\<rparr>
        else P
      else P)"

text \<open>The loop \<open>while (ret == 0)\<close> of \<open>merlin_evict\<close>.\<close>

partial_function (option) settle_staging :: "merlin_params \<Rightarrow> merlin_params outcome" where
  "settle_staging P =
     (case adjust_core P of None \<Rightarrow> None | Some (Inl e) \<Rightarrow> Some (Inl e)
      | Some (Inr P') \<Rightarrow>
        (case adjust_staging P' of None \<Rightarrow> None | Some (Inl e) \<Rightarrow> Some (Inl e)
         | Some (Inr (ret, P'')) \<Rightarrow> if ret = 0 then settle_staging P'' else Some (Inr P'')))"

definition merlin_evict :: "(obj_id \<Rightarrow> int) \<Rightarrow> merlin_params \<Rightarrow> request \<Rightarrow> merlin_params outcome" where
  "merlin_evict stale P req =
     bindO (Some (merlin_adjustguard (count_eviction P))) (\<lambda>P.
     bindO
       (if to_u64 (occ (filter P) + r_obj_size req) > filter_limit P
        then bindO (adjust_filter stale P) (\<lambda>(_, P). Some (Inr P))
        else bindO (settle_staging P) (\<lambda>P.
             Some (bindE (compare stale P) (\<lambda>(_, P). evict_staging P))))
       adjust_ghost)"

definition merlin_remove :: "merlin_params \<Rightarrow> obj_id \<Rightarrow> (bool \<times> merlin_params) result" where
  "merlin_remove P i =
     bindE (FIFO_remove (filter P) i) (\<lambda>(r, f).
     let P = P\<lparr>filter := f\<rparr> in if r then Inr (True, P) else
     bindE (FIFO_remove (staging P) i) (\<lambda>(r, s).
     let P = P\<lparr>staging := s\<rparr> in if r then Inr (True, P) else
     bindE (FIFO_remove (core P) i) (\<lambda>(r, c).
     let P = P\<lparr>core := c\<rparr> in if r then Inr (True, P) else
     bindE (FIFO_remove (ghost P) i) (\<lambda>(r, g). Inr (r, P\<lparr>ghost := g\<rparr>)))))"

text \<open>Each operation of the table acts on \<open>cache->eviction_params\<close>.\<close>

definition on_params ::
  "merlin_cache \<Rightarrow> ('a \<times> merlin_params) outcome \<Rightarrow> ('a \<times> merlin_cache) outcome" where
  "on_params c r = bindO r (\<lambda>(v, P). Some (Inr (v, c\<lparr>eviction_params := P\<rparr>)))"

definition merlin_ops :: "(obj_id \<Rightarrow> int) \<Rightarrow> (merlin_md, merlin_params) cache_ops" where
  "merlin_ops stale =
     \<lparr>op_find = (\<lambda>c req u. on_params c (Some (merlin_find (eviction_params c) req u))),
      op_can_insert = (\<lambda>c req. Some (Inr (merlin_can_insert (eviction_params c) req, c))),
      op_insert = (\<lambda>c req. on_params c (Some (merlin_insert (eviction_params c) req))),
      op_evict = (\<lambda>c req. bindO (merlin_evict stale (eviction_params c) req) (\<lambda>P.
        Some (Inr (c\<lparr>eviction_params := P\<rparr>)))),
      op_to_evict = (\<lambda>c req. on_params c (Some (merlin_to_evict (eviction_params c) req))),
      op_remove = (\<lambda>c i. on_params c (Some (merlin_remove (eviction_params c) i))),
      op_get_occupied_byte = (\<lambda>c. merlin_get_occupied_byte (eviction_params c)),
      op_get_n_obj = (\<lambda>c. merlin_get_n_obj (eviction_params c))\<rparr>"

definition merlin_get ::
  "(obj_id \<Rightarrow> int) \<Rightarrow> merlin_cache \<Rightarrow> request \<Rightarrow> (bool \<times> merlin_cache) outcome" where
  "merlin_get stale c req = cache_get_base (merlin_ops stale) c req"

end
