(* ===== verification/Merlin_Inv.thy ===== *)
theory Merlin_Inv
  imports Merlin
begin

text \<open>
  The invariant of the Merlin cache and what each of its operations does to the four queues: every
  operation is described by its effect on the object tables and queue orders, from which byte
  counts, object counts and frequency counts follow by one summation lemma.
\<close>

declare dom_eq_empty_conv [simp del]

section \<open>Sums over the objects of a table\<close>

definition wsum :: "('m cache_obj \<Rightarrow> int) \<Rightarrow> (obj_id \<rightharpoonup> 'm cache_obj) \<Rightarrow> int" where
  "wsum g t = (\<Sum>i\<in>dom t. g (the (t i)))"

lemma wsum_insert:
  assumes "finite (dom t)" "t i = None"
  shows "wsum g (t(i \<mapsto> x)) = wsum g t + g x"
proof -
  have "(\<Sum>j\<in>dom t. g (the ((t(i \<mapsto> x)) j))) = (\<Sum>j\<in>dom t. g (the (t j)))"
    using assms(2) by (intro sum.cong) auto
  moreover have "i \<notin> dom t"
    using assms(2) by auto
  ultimately show ?thesis
    using assms(1) by (simp add: wsum_def)
qed

lemma wsum_remove:
  assumes "finite (dom t)" "t i = Some x"
  shows "wsum g (t(i := None)) = wsum g t - g x"
proof -
  have "wsum g ((t(i := None))(i \<mapsto> x)) = wsum g (t(i := None)) + g x"
    using assms(1) by (intro wsum_insert) auto
  moreover have "(t(i := None))(i \<mapsto> x) = t"
    using assms(2) by auto
  ultimately show ?thesis by simp
qed

lemma wsum_update:
  assumes "finite (dom t)" "t i = Some x"
  shows "wsum g (t(i \<mapsto> y)) = wsum g t - g x + g y"
proof -
  have "wsum g ((t(i := None))(i \<mapsto> y)) = wsum g (t(i := None)) + g y"
    using assms(1) by (intro wsum_insert) auto
  then show ?thesis
    using wsum_remove [OF assms] by simp
qed

lemma wsum_nonneg: "(\<And>i x. t i = Some x \<Longrightarrow> 0 \<le> g x) \<Longrightarrow> 0 \<le> wsum g t"
  unfolding wsum_def by (intro sum_nonneg) auto

lemma wsum_pos:
  assumes "finite (dom t)" "t i = Some x" "0 < g x" "\<And>i x. t i = Some x \<Longrightarrow> 0 \<le> g x"
  shows "0 < wsum g t"
proof -
  have "0 \<le> wsum g (t(i := None))"
    by (intro wsum_nonneg) (auto simp: assms(4) split: if_splits)
  then show ?thesis
    using wsum_remove [OF assms(1,2), of g] assms(3) by simp
qed

lemma wsum_empty: "dom t = {} \<Longrightarrow> wsum g t = 0"
  by (simp add: wsum_def)

section \<open>One of the four queues\<close>

abbreviation frq :: "merlin_md cache_obj \<Rightarrow> int" where
  "frq x \<equiv> m_freq (md x)"

definition obj_in_range :: "merlin_md cache_obj \<Rightarrow> bool" where
  "obj_in_range x \<longleftrightarrow> 0 < obj_size x \<and> 0 \<le> frq x \<and> frq x \<le> MAXFREQ"

definition sub_ok :: "merlin_md FIFO_cache \<Rightarrow> bool" where
  "sub_ok c \<longleftrightarrow> FIFO_inv c \<and> obj_md_size c = 0 \<and> (\<forall>i x. table c i = Some x \<longrightarrow> obj_in_range x)"

lemma sub_ok_finite: "sub_ok c \<Longrightarrow> finite (dom (table c))"
  unfolding sub_ok_def FIFO_inv_def cache_wf_def by (metis List.finite_set)

lemma sub_ok_dom: "sub_ok c \<Longrightarrow> set (q_list c) = dom (table c)"
  by (simp add: sub_ok_def FIFO_inv_def cache_wf_def)

lemma sub_ok_obj: "sub_ok c \<Longrightarrow> table c i = Some x \<Longrightarrow>
   obj_id x = i \<and> 0 < obj_size x \<and> obj_size x < 2 ^ 32 \<and> 0 \<le> frq x \<and> frq x \<le> MAXFREQ"
  by (fastforce simp: sub_ok_def FIFO_inv_def cache_wf_def obj_ok_def obj_in_range_def)

lemma sub_ok_occ: "sub_ok c \<Longrightarrow> occ c = wsum obj_size (table c)"
proof -
  assume s: "sub_ok c"
  then have w: "cache_wf (q_list c) c" "obj_md_size c = 0"
    by (auto simp: sub_ok_def FIFO_inv_def)
  have "occupied_byte c = sum (obj_bytes c) (set (q_list c))"
    using w by (simp add: cache_wf_def sum_list_distinct_conv_sum_set)
  also have "\<dots> = (\<Sum>i\<in>dom (table c). obj_size (the (table c i)))"
    unfolding sub_ok_dom [OF s] by (rule sum.cong) (auto simp: obj_bytes_def w(2))
  finally show ?thesis
    by (simp add: wsum_def cache_get_occupied_byte_default_def)
qed

lemma sub_ok_n: "sub_ok c \<Longrightarrow> n_objs c = wsum (\<lambda>_. 1) (table c)"
proof -
  assume s: "sub_ok c"
  then have "cache_wf (q_list c) c"
    by (auto simp: sub_ok_def FIFO_inv_def)
  then have "n_obj c = int (card (set (q_list c)))"
    using distinct_card [of "q_list c"] by (simp add: cache_wf_def)
  then show ?thesis
    by (simp add: wsum_def cache_get_n_obj_default_def sub_ok_dom [OF s])
qed

lemma sub_ok_occ_pos: "sub_ok c \<Longrightarrow> table c i = Some x \<Longrightarrow> 0 < occ c"
  using wsum_pos [of "table c" i x obj_size] sub_ok_obj [of c] sub_ok_finite [of c]
  by (fastforce simp: sub_ok_occ)

lemma sub_ok_occ_nonneg: "sub_ok c \<Longrightarrow> 0 \<le> occ c"
  using wsum_nonneg [of "table c" obj_size] sub_ok_obj [of c] by (fastforce simp: sub_ok_occ)

lemma sub_ok_occ_zero: "sub_ok c \<Longrightarrow> occ c = 0 \<longleftrightarrow> dom (table c) = {}"
  using sub_ok_occ_pos [of c] by (auto simp: sub_ok_occ wsum_empty)

subsection \<open>Operations on a queue\<close>

lemma victim_ok:
  assumes "sub_ok c" "dom (table c) \<noteq> {}"
  obtains q i x where "q_list c = q @ [i]" "victim c = Some i" "deref c (victim c) = Inr x"
    "table c i = Some x" "obj_id x = i"
proof -
  have "q_list c \<noteq> []"
    using sub_ok_dom [OF assms(1)] assms(2) by auto
  then obtain q i where q: "q_list c = q @ [i]"
    by (meson rev_exhaust)
  then obtain x where x: "table c i = Some x"
    using sub_ok_dom [OF assms(1)] by auto
  show thesis
    by (rule that [OF q _ _ x]) (use q x sub_ok_obj [OF assms(1) x] in \<open>simp_all add: victim_def FIFO_to_evict_def deref_def\<close>)
qed

lemma victim_none: "sub_ok c \<Longrightarrow> victim c = None \<longleftrightarrow> dom (table c) = {}"
  using sub_ok_dom [of c] by (auto simp: victim_def FIFO_to_evict_def q_tail_def)

lemma set_md_ok:
  assumes "sub_ok c" "table c i = Some x" "0 \<le> m_freq (f (md x))" "m_freq (f (md x)) \<le> MAXFREQ"
  shows "\<exists>c'. set_md c (Some i) f = Inr c' \<and> sub_ok c' \<and>
     table c' = (table c)(i \<mapsto> x\<lparr>md := f (md x)\<rparr>) \<and> q_list c' = q_list c \<and> cache_size c' = cache_size c"
proof -
  let ?c = "c\<lparr>table := (table c)(i \<mapsto> x\<lparr>md := f (md x)\<rparr>)\<rparr>"
  have "cache_wf (q_list c) ?c"
    using assms(1,2) by (intro cache_wf_upd) (auto simp: sub_ok_def FIFO_inv_def)
  moreover have "set_md c (Some i) f = Inr ?c"
    using assms(2) by (simp add: set_md_def upd_obj_def)
  ultimately show ?thesis
    using assms sub_ok_obj [OF assms(1,2)] by (auto simp: sub_ok_def FIFO_inv_def obj_in_range_def)
qed

lemma insert_with_ok:
  assumes "sub_ok c" "table c (r_obj_id req) = None" "0 < r_obj_size req" "r_obj_size req < 2 ^ 32"
    "0 \<le> m_freq (f 0)" "m_freq (f 0) \<le> MAXFREQ"
  shows "\<exists>c'. insert_with c req f = Inr c' \<and> sub_ok c' \<and>
     table c' = (table c)(r_obj_id req \<mapsto> (new_obj req)\<lparr>md := f 0\<rparr>) \<and>
     q_list c' = r_obj_id req # q_list c \<and> cache_size c' = cache_size c"
proof -
  let ?c = "set_q (inserted c req) (r_obj_id req # q_list c)"
  let ?d = "?c\<lparr>table := (table ?c)(r_obj_id req \<mapsto> (new_obj req)\<lparr>md := f 0\<rparr>)\<rparr>"
  have s: "to_u32 (r_obj_size req) = r_obj_size req"
    using assms(3,4) by (intro to_u32_id) auto
  have "req_ok c req"
    using assms(1,3,4) s by (auto simp: req_ok_def sub_ok_def)
  then have "FIFO_inv ?c"
    using assms(1,2) by (intro FIFO_insert_inv) (auto simp: sub_ok_def)
  then have "cache_wf (r_obj_id req # q_list c) ?d"
    by (intro cache_wf_upd [of _ ?c _ "new_obj req"]) (auto simp: FIFO_inv_def)
  moreover have "insert_with c req f = Inr ?d"
    using FIFO_insert_eq [OF assms(2)] by (simp add: insert_with_def set_md_def upd_obj_def)
  ultimately show ?thesis
    using assms s by (auto simp: sub_ok_def FIFO_inv_def obj_in_range_def)
qed

lemma FIFO_remove_ok:
  assumes "sub_ok c" "table c i = Some x"
  shows "\<exists>c'. FIFO_remove c i = Inr (True, c') \<and> sub_ok c' \<and> table c' = (table c)(i := None) \<and>
     q_list c' = remove1 i (q_list c) \<and> cache_size c' = cache_size c"
proof -
  have "FIFO_inv c" "i \<in> dom (table c)"
    using assms by (auto simp: sub_ok_def)
  note FIFO_remove_eq [OF this]
  then show ?thesis
    using assms(1) by (auto simp: sub_ok_def)
qed

lemma FIFO_remove_none: "table c i = None \<Longrightarrow> FIFO_remove c i = Inr (False, c)"
  by (simp add: FIFO_remove_def hashtable_find_obj_id_def)

lemma FIFO_find_hit:
  assumes "sub_ok c" "table c (r_obj_id req) = Some x"
  shows "\<exists>c' y. FIFO_find c req True = (Some (r_obj_id req), c') \<and> sub_ok c' \<and>
     table c' = (table c)(r_obj_id req \<mapsto> y) \<and> md y = md x \<and> obj_size y = obj_size x \<and>
     q_list c' = q_list c \<and> cache_size c' = cache_size c"
proof -
  let ?y = "x\<lparr>misc_next_access_vtime := r_next_access_vtime req, misc_freq := misc_freq x + 1\<rparr>"
  let ?c = "c\<lparr>table := (table c)(r_obj_id req \<mapsto> ?y)\<rparr>"
  have "cache_wf (q_list c) ?c"
    using assms by (intro cache_wf_upd) (auto simp: sub_ok_def FIFO_inv_def)
  then show ?thesis
    using assms by (auto simp: FIFO_find_def cache_find_base_def sub_ok_def FIFO_inv_def obj_in_range_def)
qed

lemma FIFO_find_miss: "table c (r_obj_id req) = None \<Longrightarrow> FIFO_find c req u = (None, c)"
  by (simp add: FIFO_find_def cache_find_base_def)

lemma FIFO_find_False:
  "FIFO_find c req False = (if r_obj_id req \<in> dom (table c) then Some (r_obj_id req) else None, c)"
  by (auto simp: FIFO_find_def cache_find_base_def split: option.splits)

section \<open>The frequency histogram\<close>

text \<open>
  \<open>ind k f\<close> is the contribution of an object of frequency \<open>f\<close> to entry \<open>k\<close> of the cumulative
  histogram; \<open>hot_shift hs hs' old new\<close> says that \<open>hs'\<close> is \<open>hs\<close> with one object moved from
  frequency \<open>old\<close> to \<open>new\<close>, where \<open>-1\<close> stands for an object that is not counted.
\<close>

definition ind :: "nat \<Rightarrow> int \<Rightarrow> int" where
  "ind k f = (if int k \<le> f then 1 else 0)"

definition hot_shift :: "int list \<Rightarrow> int list \<Rightarrow> int \<Rightarrow> int \<Rightarrow> bool" where
  "hot_shift hs hs' old new \<longleftrightarrow> length hs' = length hs \<and>
     (\<forall>k < length hs. hs' ! k = hs ! k - ind k old + ind k new)"

lemma hot_shift_refl: "hot_shift hs hs f f"
  by (simp add: hot_shift_def)

lemma hot_shift_length: "hot_shift hs hs' old new \<Longrightarrow> length hs' = length hs"
  by (simp add: hot_shift_def)

lemma decreasepop_ok:
  "-1 \<le> dest \<Longrightarrow> dest \<le> i \<Longrightarrow> i < int (length hs) \<Longrightarrow>
   \<exists>hs'. decreasepop hs i dest = Inr hs' \<and> hot_shift hs hs' i dest"
proof (induction hs i dest rule: decreasepop.induct)
  case (1 hs i dest)
  show ?case
  proof (cases "i > dest")
    case True
    let ?h = "hs[nat i := hs ! nat i - 1]"
    have a: "hot_add hs i (-1) = Inr ?h"
      using 1(2-4) True by (simp add: hot_add_def)
    obtain hs' where h: "decreasepop ?h (i - 1) dest = Inr hs'" "hot_shift ?h hs' (i - 1) dest"
      using 1(1) [OF True a] 1(2-4) True by auto
    have "hs' ! k = hs ! k - ind k i + ind k dest" if "k < length hs" for k
    proof -
      have "hs' ! k = ?h ! k - ind k (i - 1) + ind k dest"
        using h(2) that by (simp add: hot_shift_def)
      then show ?thesis
        using 1(2,3) True that by (auto simp: ind_def nth_list_update)
    qed
    then show ?thesis
      using h a True hot_shift_length [OF h(2)] by (simp add: hot_shift_def)
  qed (use 1 in \<open>auto simp: hot_shift_refl\<close>)
qed

declare decreasepop.simps [simp del]

lemma hot_new_ok:
  assumes "length (hotdistribution P) = 8"
  shows "\<exists>hs. hot_new P = Inr (P\<lparr>hotdistribution := hs\<rparr>) \<and> hot_shift (hotdistribution P) hs (-1) 0"
  using assms by (auto simp: hot_new_def hot_add_def hot_shift_def ind_def nth_list_update)

lemma bump_freq_ok:
  assumes "sub_ok c" "table c i = Some x" "length hs = 8"
  shows "\<exists>c' hs' y. bump_freq c (Some i) hs = Inr (c', hs') \<and> sub_ok c' \<and>
     table c' = (table c)(i \<mapsto> y) \<and> obj_size y = obj_size x \<and> hot_shift hs hs' (frq x) (frq y) \<and>
     q_list c' = q_list c \<and> cache_size c' = cache_size c"
proof (cases "frq x < MAXFREQ")
  case True
  note x = sub_ok_obj [OF assms(1,2)]
  obtain c' where c: "set_md c (Some i) (\<lambda>m. m\<lparr>m_freq := m_freq m + 1\<rparr>) = Inr c'" "sub_ok c'"
      "table c' = (table c)(i \<mapsto> x\<lparr>md := (md x)\<lparr>m_freq := frq x + 1\<rparr>\<rparr>)" "q_list c' = q_list c"
      "cache_size c' = cache_size c"
    using set_md_ok [OF assms(1,2), of "\<lambda>m. m\<lparr>m_freq := m_freq m + 1\<rparr>"] x True by auto
  have "hot_add hs (frq x + 1) 1 = Inr (hs[nat (frq x + 1) := hs ! nat (frq x + 1) + 1])"
    using x True assms(3) by (simp add: hot_add_def MAXFREQ_def)
  moreover have "hot_shift hs (hs[nat (frq x + 1) := hs ! nat (frq x + 1) + 1]) (frq x) (frq x + 1)"
    using x by (auto simp: hot_shift_def ind_def nth_list_update split: if_splits)
  ultimately show ?thesis
    using c True assms(2)
    by (intro exI [of _ c'] exI [of _ "hs[nat (frq x + 1) := hs ! nat (frq x + 1) + 1]"]
        exI [of _ "x\<lparr>md := (md x)\<lparr>m_freq := frq x + 1\<rparr>\<rparr>"]) (simp add: bump_freq_def deref_def)
next
  case False
  moreover have "(table c)(i \<mapsto> x) = table c"
    using assms(2) by auto
  ultimately show ?thesis
    using assms(1,2) by (intro exI [of _ c] exI [of _ hs] exI [of _ x])
      (simp add: bump_freq_def deref_def hot_shift_refl)
qed

section \<open>The invariant\<close>

definition disjoint_queues :: "merlin_params \<Rightarrow> bool" where
  "disjoint_queues P \<longleftrightarrow>
     (\<forall>i. table (filter P) i \<noteq> None \<longrightarrow>
          table (staging P) i = None \<and> table (core P) i = None \<and> table (ghost P) i = None) \<and>
     (\<forall>i. table (staging P) i \<noteq> None \<longrightarrow> table (core P) i = None)"

text \<open>The four queues are well formed, the three real ones disjoint, and no filter object has a ghost.\<close>

definition merlin_ok :: "merlin_params \<Rightarrow> bool" where
  "merlin_ok P \<longleftrightarrow>
     sub_ok (filter P) \<and> sub_ok (staging P) \<and> sub_ok (core P) \<and> sub_ok (ghost P) \<and>
     disjoint_queues P \<and> length (hotdistribution P) = 8 \<and>
     1 \<le> guard_freq P \<and> guard_freq P \<le> MAXFREQ \<and> cbf_wf (sketch P) \<and>
     (hit_on_ghost P \<longrightarrow> 0 \<le> ghost_freq P \<and> ghost_freq P \<le> MAXFREQ)"

definition hot_total :: "merlin_params \<Rightarrow> nat \<Rightarrow> int" where
  "hot_total P k =
     wsum (\<lambda>x. ind k (frq x)) (table (filter P)) + wsum (\<lambda>x. ind k (frq x)) (table (staging P)) +
     wsum (\<lambda>x. ind k (frq x)) (table (core P)) + wsum (\<lambda>x. ind k (frq x)) (table (ghost P))"

text \<open>
  \<open>hotdistribution[f] stores the number of objects with frequency >= f\<close>, as the comment in the
  source says, over the objects of all four queues.
\<close>

definition hot_exact :: "merlin_params \<Rightarrow> bool" where
  "hot_exact P \<longleftrightarrow> (\<forall>k < length (hotdistribution P). hotdistribution P ! k = hot_total P k)"

definition merlin_keys :: "merlin_params \<Rightarrow> obj_id set" where
  "merlin_keys P = dom (table (filter P)) \<union> dom (table (staging P)) \<union> dom (table (core P))"

text \<open>The parts of the state an eviction leaves alone.\<close>

definition fixed :: "merlin_params \<Rightarrow> int \<times> int \<times> int \<times> int \<times> int \<times> bool \<times> bool \<times> int" where
  "fixed P = (filter_limit P, staging_limit P, core_limit P, ghost_limit P, cache_size (filter P),
     hit_on_ghost P, move_to_core P, ghost_freq P)"

lemma merlin_ok_queues:
  assumes "merlin_ok P"
  shows "sub_ok (filter P)" "sub_ok (staging P)" "sub_ok (core P)" "sub_ok (ghost P)"
    "length (hotdistribution P) = 8" "cbf_wf (sketch P)"
  using assms by (simp_all add: merlin_ok_def)

lemma merlin_ok_disjoint:
  assumes "merlin_ok P"
  shows "table (filter P) i = Some x \<Longrightarrow> table (staging P) i = None"
    "table (filter P) i = Some x \<Longrightarrow> table (core P) i = None"
    "table (filter P) i = Some x \<Longrightarrow> table (ghost P) i = None"
    "table (staging P) i = Some x \<Longrightarrow> table (core P) i = None"
    "table (core P) i = Some x \<Longrightarrow> table (staging P) i = None"
  using assms by (auto simp: merlin_ok_def disjoint_queues_def)

lemma table_insert_sum:
  "sub_ok c \<Longrightarrow> table c i = None \<Longrightarrow> table c' = (table c)(i \<mapsto> x) \<Longrightarrow>
   wsum g (table c') = wsum g (table c) + g x"
  by (simp add: wsum_insert sub_ok_finite)

lemma table_remove_sum:
  "sub_ok c \<Longrightarrow> table c i = Some x \<Longrightarrow> table c' = (table c)(i := None) \<Longrightarrow>
   wsum g (table c') = wsum g (table c) - g x"
  by (simp add: wsum_remove sub_ok_finite)

lemma table_update_sum:
  "sub_ok c \<Longrightarrow> table c i = Some x \<Longrightarrow> table c' = (table c)(i \<mapsto> y) \<Longrightarrow>
   wsum g (table c') = wsum g (table c) - g x + g y"
  by (simp add: wsum_update sub_ok_finite)

lemma occ_remove_le:
  assumes "sub_ok c" "sub_ok c'" "table c' = (table c)(i := None)"
  shows "occ c' \<le> occ c"
proof (cases "table c i")
  case None
  then show ?thesis using assms by (simp add: sub_ok_occ fun_upd_idem)
next
  case (Some x)
  then show ?thesis
    using table_remove_sum [OF assms(1) Some assms(3), of obj_size] sub_ok_obj [OF assms(1) Some] assms
    by (simp add: sub_ok_occ)
qed

lemma occ_insert:
  assumes "sub_ok c" "sub_ok c'" "table c i = None" "table c' = (table c)(i \<mapsto> x)"
  shows "occ c' = occ c + obj_size x"
  using table_insert_sum [OF assms(1,3,4), of obj_size] assms by (simp add: sub_ok_occ)

text \<open>Copying a stored object into a request and inserting the request stores its size again.\<close>

lemma copied_size:
  assumes "sub_ok c" "table c i = Some x"
  shows "0 < r_obj_size (copy_cache_obj_to_request r x)" "r_obj_size (copy_cache_obj_to_request r x) < 2 ^ 32"
    "obj_size (new_obj (copy_cache_obj_to_request r x)) = obj_size x"
    "r_obj_id (copy_cache_obj_to_request r x) = i"
  using sub_ok_obj [OF assms] by (simp_all add: to_u32_id)

lemma note_in_sketch_ok:
  assumes "merlin_ok P"
  shows "\<exists>C. note_in_sketch P i = Inr (P\<lparr>sketch := C\<rparr>) \<and> cbf_wf C"
  using minimalIncrementCBF_add_eq [OF merlin_ok_queues(6) [OF assms], of i]
  by (auto simp: note_in_sketch_def)

section \<open>Moves between the queues\<close>

text \<open>
  Each lemma gives the result of one move, the tables it changes, and that it keeps the invariant
  and the exactness of the histogram.
\<close>

lemma core_to_staging_ok:
  assumes "merlin_ok P" "dom (table (core P)) \<noteq> {}"
  shows "\<exists>P' i x y. core_to_staging P = Inr P' \<and> merlin_ok P' \<and> (hot_exact P \<longrightarrow> hot_exact P') \<and>
     fixed P' = fixed P \<and> filter P' = filter P \<and> ghost P' = ghost P \<and> guard_freq P' = guard_freq P \<and>
     table (core P) i = Some x \<and> table (core P') = (table (core P))(i := None) \<and>
     table (staging P) i = None \<and> table (staging P') = (table (staging P))(i \<mapsto> y) \<and>
     obj_size y = obj_size x \<and> frq y = frq x"
proof -
  note ok = merlin_ok_queues [OF assms(1)]
  obtain q i x where v: "deref (core P) (victim (core P)) = Inr x" "table (core P) i = Some x" "obj_id x = i"
    using victim_ok [OF ok(3) assms(2)] by metis
  let ?r = "copy_cache_obj_to_request (req_local P) x"
  have n: "table (staging P) i = None"
    using merlin_ok_disjoint(5) [OF assms(1) v(2)] .
  have f: "0 \<le> frq x" "frq x \<le> MAXFREQ"
    using sub_ok_obj [OF ok(3) v(2)] by auto
  obtain s where s: "insert_with (staging P) ?r (\<lambda>m. m\<lparr>m_freq := frq x\<rparr>) = Inr s" "sub_ok s"
      "table s = (table (staging P))(i \<mapsto> (new_obj ?r)\<lparr>md := 0\<lparr>m_freq := frq x\<rparr>\<rparr>)"
    using insert_with_ok [OF ok(2), of ?r "\<lambda>m. m\<lparr>m_freq := frq x\<rparr>"] copied_size [OF ok(3) v(2)] n f v(3)
    by auto
  obtain c where c: "FIFO_remove (core P) i = Inr (True, c)" "sub_ok c" "table c = (table (core P))(i := None)"
    using FIFO_remove_ok [OF ok(3) v(2)] by blast
  let ?P = "P\<lparr>req_local := ?r, staging := s, core := c\<rparr>"
  have e: "core_to_staging P = Inr ?P"
    using v f s(1) c(1) by (simp add: core_to_staging_def Let_def)
  have "merlin_ok ?P"
    using assms(1) s(2,3) c(2,3) v(2) by (auto simp: merlin_ok_def disjoint_queues_def)
  moreover have "hot_exact P \<longrightarrow> hot_exact ?P"
    using table_insert_sum [OF ok(2) n s(3)] table_remove_sum [OF ok(3) v(2) c(3)]
    by (simp add: hot_exact_def hot_total_def)
  ultimately show ?thesis
    using e v(2) s(3) c(3) n copied_size(3) [OF ok(3) v(2), of "req_local P"]
    by (intro exI [of _ ?P] exI [of _ i] exI [of _ x] exI [of _ "(new_obj ?r)\<lparr>md := 0\<lparr>m_freq := frq x\<rparr>\<rparr>"])
      (simp add: fixed_def)
qed

lemma evict_staging_ok:
  assumes "merlin_ok P" "q_list (staging P) = q @ [i]"
  shows "\<exists>P' x. evict_staging P = Inr P' \<and> merlin_ok P' \<and> (hot_exact P \<longrightarrow> hot_exact P') \<and>
     fixed P' = fixed P \<and> filter P' = filter P \<and> core P' = core P \<and> ghost P' = ghost P \<and>
     guard_freq P' = guard_freq P \<and> table (staging P) i = Some x \<and>
     table (staging P') = (table (staging P))(i := None)"
proof -
  note ok = merlin_ok_queues [OF assms(1)]
  have "dom (table (staging P)) \<noteq> {}"
    using sub_ok_dom [OF ok(2)] assms(2) by auto
  then obtain x where v: "deref (staging P) (victim (staging P)) = Inr x" "table (staging P) i = Some x" "obj_id x = i"
    using victim_ok [OF ok(2)] assms(2) by (metis append1_eq_conv)
  have f: "0 \<le> frq x" "frq x \<le> MAXFREQ"
    using sub_ok_obj [OF ok(2) v(2)] by auto
  obtain hs where hs: "decreasepop (hotdistribution P) (frq x) (-1) = Inr hs"
      "hot_shift (hotdistribution P) hs (frq x) (-1)"
    using decreasepop_ok [of "-1" "frq x" "hotdistribution P"] f ok(5) by (auto simp: MAXFREQ_def)
  obtain s where s: "FIFO_remove (staging P) i = Inr (True, s)" "sub_ok s" "table s = (table (staging P))(i := None)"
    using FIFO_remove_ok [OF ok(2) v(2)] by blast
  let ?P = "P\<lparr>hotdistribution := hs, staging := s\<rparr>"
  have "evict_staging P = Inr ?P"
    using v hs s(1) by (simp add: evict_staging_def)
  moreover have "merlin_ok ?P"
    using assms(1) s(2,3) hot_shift_length [OF hs(2)] by (auto simp: merlin_ok_def disjoint_queues_def)
  moreover have "hot_exact P \<longrightarrow> hot_exact ?P"
    using table_remove_sum [OF ok(2) v(2) s(3)] hs(2)
    by (simp add: hot_exact_def hot_total_def hot_shift_def) (simp add: ind_def)
  ultimately show ?thesis
    using v(2) s(3) by (auto simp: fixed_def)
qed

lemma drop_ghost_ok:
  assumes "merlin_ok P" "dom (table (ghost P)) \<noteq> {}"
  shows "\<exists>P' i x. drop_ghost P = Inr P' \<and> merlin_ok P' \<and> (hot_exact P \<longrightarrow> hot_exact P') \<and>
     fixed P' = fixed P \<and> filter P' = filter P \<and> staging P' = staging P \<and> core P' = core P \<and>
     guard_freq P' = guard_freq P \<and> table (ghost P) i = Some x \<and>
     table (ghost P') = (table (ghost P))(i := None)"
proof -
  note ok = merlin_ok_queues [OF assms(1)]
  obtain i x where v: "deref (ghost P) (victim (ghost P)) = Inr x" "table (ghost P) i = Some x" "obj_id x = i"
    using victim_ok [OF ok(4) assms(2)] by metis
  have f: "0 \<le> frq x" "frq x \<le> MAXFREQ"
    using sub_ok_obj [OF ok(4) v(2)] by auto
  obtain hs where hs: "decreasepop (hotdistribution P) (frq x) (-1) = Inr hs"
      "hot_shift (hotdistribution P) hs (frq x) (-1)"
    using decreasepop_ok [of "-1" "frq x" "hotdistribution P"] f ok(5) by (auto simp: MAXFREQ_def)
  obtain g where g: "FIFO_remove (ghost P) i = Inr (True, g)" "sub_ok g" "table g = (table (ghost P))(i := None)"
    using FIFO_remove_ok [OF ok(4) v(2)] by blast
  let ?P = "P\<lparr>ghost := g, hotdistribution := hs\<rparr>"
  have "drop_ghost P = Inr ?P"
    using v hs g(1) by (simp add: drop_ghost_def)
  moreover have "merlin_ok ?P"
    using assms(1) g(2,3) hot_shift_length [OF hs(2)] by (auto simp: merlin_ok_def disjoint_queues_def)
  moreover have "hot_exact P \<longrightarrow> hot_exact ?P"
    using table_remove_sum [OF ok(4) v(2) g(3)] hs(2)
    by (simp add: hot_exact_def hot_total_def hot_shift_def) (simp add: ind_def)
  ultimately show ?thesis
    using v(2) g(3) by (auto simp: fixed_def)
qed

lemma removefromghost_ok:
  assumes "merlin_ok P"
  shows "\<exists>f P'. removefromghost P req = Inr (f, P') \<and> merlin_ok P' \<and> (hot_exact P \<longrightarrow> hot_exact P') \<and>
     fixed P' = fixed P \<and> filter P' = filter P \<and> staging P' = staging P \<and> core P' = core P \<and>
     guard_freq P' = guard_freq P \<and> table (ghost P') = (table (ghost P))(r_obj_id req := None) \<and>
     req_local P' = req_local P"
proof (cases "table (ghost P) (r_obj_id req)")
  case None
  then show ?thesis
    using assms by (simp add: removefromghost_def FIFO_find_False domIff fun_upd_idem)
next
  case (Some x)
  let ?i = "r_obj_id req"
  note ok = merlin_ok_queues [OF assms]
  have f: "0 \<le> frq x" "frq x \<le> MAXFREQ" "obj_id x = ?i"
    using sub_ok_obj [OF ok(4) Some] by auto
  obtain hs where hs: "decreasepop (hotdistribution P) (frq x) (-1) = Inr hs"
      "hot_shift (hotdistribution P) hs (frq x) (-1)"
    using decreasepop_ok [of "-1" "frq x" "hotdistribution P"] f ok(5) by (auto simp: MAXFREQ_def)
  obtain g where g: "FIFO_remove (ghost P) ?i = Inr (True, g)" "sub_ok g" "table g = (table (ghost P))(?i := None)"
    using FIFO_remove_ok [OF ok(4) Some] by blast
  let ?P = "P\<lparr>hotdistribution := hs, ghost := g\<rparr>"
  have "removefromghost P req = Inr (frq x, ?P)"
    using Some f hs g(1) by (simp add: removefromghost_def FIFO_find_False domIff deref_def Let_def)
  moreover have "merlin_ok ?P"
    using assms g(2,3) hot_shift_length [OF hs(2)] by (auto simp: merlin_ok_def disjoint_queues_def)
  moreover have "hot_exact P \<longrightarrow> hot_exact ?P"
    using table_remove_sum [OF ok(4) Some g(3)] hs(2)
    by (simp add: hot_exact_def hot_total_def hot_shift_def) (simp add: ind_def)
  ultimately show ?thesis
    using g(3) by (auto simp: fixed_def)
qed

lemma forget_ghost_ok:
  assumes "merlin_ok P" "table (staging P) i = Some x" "r_obj_id req = i"
  shows "\<exists>P' y. forget_ghost P x req = Inr P' \<and> merlin_ok P' \<and> (hot_exact P \<longrightarrow> hot_exact P') \<and>
     fixed P' = fixed P \<and> filter P' = filter P \<and> core P' = core P \<and> guard_freq P' = guard_freq P \<and>
     table (staging P') = (table (staging P))(i \<mapsto> y) \<and> obj_size y = obj_size x \<and> frq y = frq x \<and>
     q_list (staging P') = q_list (staging P) \<and> dom (table (ghost P')) \<subseteq> dom (table (ghost P)) \<and>
     occ (ghost P') \<le> occ (ghost P) \<and> req_local P' = req_local P"
proof (cases "m_inghost (md x)")
  case True
  let ?Q = "P\<lparr>evict_staging_ghost := evict_staging_ghost P + 1\<rparr>"
  have q: "merlin_ok ?Q" "hot_exact ?Q = hot_exact P" "fixed ?Q = fixed P"
    using assms(1) by (auto simp: merlin_ok_def disjoint_queues_def hot_exact_def hot_total_def fixed_def)
  obtain f R where r: "removefromghost ?Q req = Inr (f, R)" "merlin_ok R" "hot_exact P \<longrightarrow> hot_exact R"
      "fixed R = fixed P" "filter R = filter P" "staging R = staging P" "core R = core P"
      "guard_freq R = guard_freq P" "table (ghost R) = (table (ghost P))(i := None)" "req_local R = req_local P"
    using removefromghost_ok [OF q(1), of req] q(2,3) assms(3) by auto
  note ok = merlin_ok_queues [OF r(2)]
  have x: "table (staging R) i = Some x" "0 \<le> frq x" "frq x \<le> MAXFREQ" "obj_id x = i"
    using r(6) assms(2) sub_ok_obj [OF ok(2), of i x] by auto
  let ?y = "x\<lparr>md := (md x)\<lparr>m_inghost := False\<rparr>\<rparr>"
  obtain s where s: "set_md (staging R) (Some i) (\<lambda>m. m\<lparr>m_inghost := False\<rparr>) = Inr s" "sub_ok s"
      "table s = (table (staging R))(i \<mapsto> ?y)" "q_list s = q_list (staging R)"
    using set_md_ok [OF ok(2) x(1), of "\<lambda>m. m\<lparr>m_inghost := False\<rparr>"] x(2,3) by auto
  have e: "forget_ghost P x req = Inr (R\<lparr>staging := s\<rparr>)"
    using True r(1) s(1) x(4) by (simp add: forget_ghost_def)
  have "merlin_ok (R\<lparr>staging := s\<rparr>)"
    using r(2) s(2,3) x(1) by (auto simp: merlin_ok_def disjoint_queues_def)
  moreover have "hot_exact P \<longrightarrow> hot_exact (R\<lparr>staging := s\<rparr>)"
    using table_update_sum [OF ok(2) x(1) s(3)] r(3) by (simp add: hot_exact_def hot_total_def)
  moreover have "occ (ghost R) \<le> occ (ghost P)"
    using occ_remove_le [OF merlin_ok_queues(4) [OF assms(1)] ok(4) r(9)] .
  ultimately show ?thesis
    using e r s(3,4) by (intro exI [of _ "R\<lparr>staging := s\<rparr>"] exI [of _ ?y]) (auto simp: fixed_def)
next
  case False
  moreover have "(table (staging P))(i \<mapsto> x) = table (staging P)"
    using assms(2) by auto
  ultimately show ?thesis
    using assms by (intro exI [of _ P] exI [of _ x]) (auto simp: forget_ghost_def)
qed

lemma staging_to_core_ok:
  assumes "merlin_ok P" "table (staging P) i = Some x" "0 < frq x"
  shows "\<exists>P' y. staging_to_core P x = Inr P' \<and> merlin_ok P' \<and> (hot_exact P \<longrightarrow> hot_exact P') \<and>
     fixed P' = fixed P \<and> filter P' = filter P \<and> guard_freq P' = guard_freq P \<and>
     table (core P) i = None \<and> table (core P') = (table (core P))(i \<mapsto> y) \<and>
     table (staging P') = (table (staging P))(i := None) \<and> obj_size y = obj_size x \<and>
     frq y = frq x - 1 \<and> dom (table (ghost P')) \<subseteq> dom (table (ghost P)) \<and> occ (ghost P') \<le> occ (ghost P)"
proof -
  let ?r = "copy_cache_obj_to_request (req_local P) x" and ?Q = "P\<lparr>req_local := copy_cache_obj_to_request (req_local P) x\<rparr>"
  note okP = merlin_ok_queues [OF assms(1)]
  note cp = copied_size [OF okP(2) assms(2), of "req_local P"]
  have q: "merlin_ok ?Q" "hot_exact ?Q = hot_exact P" "fixed ?Q = fixed P"
    using assms(1) by (auto simp: merlin_ok_def disjoint_queues_def hot_exact_def hot_total_def fixed_def)
  have f: "frq x \<le> MAXFREQ" "obj_id x = i"
    using sub_ok_obj [OF okP(2) assms(2)] by auto
  obtain R y where r: "forget_ghost ?Q x ?r = Inr R" "merlin_ok R" "hot_exact P \<longrightarrow> hot_exact R"
      "fixed R = fixed P" "filter R = filter P" "core R = core P" "guard_freq R = guard_freq P"
      "table (staging R) = (table (staging P))(i \<mapsto> y)" "obj_size y = obj_size x" "frq y = frq x"
      "dom (table (ghost R)) \<subseteq> dom (table (ghost P))" "occ (ghost R) \<le> occ (ghost P)" "req_local R = ?r"
    using forget_ghost_ok [OF q(1), of i x ?r] assms(2) cp(4) q(2,3) by auto
  obtain C where C: "note_in_sketch R i = Inr (R\<lparr>sketch := C\<rparr>)" "cbf_wf C"
    using note_in_sketch_ok [OF r(2)] by blast
  note ok = merlin_ok_queues [OF r(2)]
  have n: "table (core R) i = None" and y: "table (staging R) i = Some y"
    using merlin_ok_disjoint(4) [OF assms(1,2)] r(6,8) by auto
  let ?z = "(new_obj ?r)\<lparr>md := 0\<lparr>m_freq := frq x - 1\<rparr>\<rparr>"
  obtain c where c: "insert_with (core R) ?r (\<lambda>m. m\<lparr>m_freq := frq x - 1\<rparr>) = Inr c" "sub_ok c"
      "table c = (table (core R))(i \<mapsto> ?z)"
    using insert_with_ok [OF ok(3), of ?r "\<lambda>m. m\<lparr>m_freq := frq x - 1\<rparr>"] cp n f assms(3) by auto
  obtain hs where hs: "decreasepop (hotdistribution R) (frq x) (frq x - 1) = Inr hs"
      "hot_shift (hotdistribution R) hs (frq x) (frq x - 1)"
    using decreasepop_ok [of "frq x - 1" "frq x" "hotdistribution R"] f assms(3) ok(5) by (auto simp: MAXFREQ_def)
  obtain s where s: "FIFO_remove (staging R) i = Inr (True, s)" "sub_ok s" "table s = (table (staging R))(i := None)"
    using FIFO_remove_ok [OF ok(2) y] by blast
  let ?P = "R\<lparr>sketch := C, core := c, hotdistribution := hs, staging2core := staging2core R + 1, staging := s\<rparr>"
  have e: "staging_to_core P x = Inr ?P"
    using r(1) C(1) c(1) hs(1) s(1) cp(4) f(2) by (simp add: staging_to_core_def Let_def)
  have "merlin_ok ?P"
    using r(2) C(2) c(2,3) s(2,3) hot_shift_length [OF hs(2)] y
    by (auto simp: merlin_ok_def disjoint_queues_def)
  moreover have "hot_exact P \<longrightarrow> hot_exact ?P"
    using table_insert_sum [OF ok(3) n c(3)] table_remove_sum [OF ok(2) y s(3)] r(3,10) hs(2)
    by (simp add: hot_exact_def hot_total_def hot_shift_def)
  ultimately show ?thesis
    using e r s(3) c(3) n cp(3) by (intro exI [of _ ?P] exI [of _ ?z]) (auto simp: fixed_def)
qed

end
