(* ===== verification/Merlin_Moves.thy ===== *)
theory Merlin_Moves
  imports Merlin_Inv
begin

text \<open>
  The composite moves of the Merlin cache: the comparison of filter and staging candidates, the
  rounds of \<open>adjust_filter\<close>, and the loops built from the moves, each of which is shown to end.
\<close>

section \<open>Comparing candidates\<close>

text \<open>The ghost entry is written while the object is still in the filter, so it is stated for any state.\<close>

lemma addtoghost_eq:
  assumes "sub_ok (ghost P)" "table (ghost P) (r_obj_id req) = None"
    "0 < r_obj_size req" "r_obj_size req < 2 ^ 32" "0 \<le> f" "f \<le> MAXFREQ"
  shows "\<exists>g. addtoghost P req f = Inr (P\<lparr>ghost := g\<rparr>) \<and> sub_ok g \<and>
     table g = (table (ghost P))(r_obj_id req \<mapsto> (new_obj req)\<lparr>md := 0\<lparr>m_freq := f\<rparr>\<rparr>)"
  using insert_with_ok [OF assms(1,2,3,4), of "\<lambda>m. m\<lparr>m_freq := f\<rparr>"] assms(5,6)
  by (auto simp: addtoghost_def)

lemma swap_candidates_ok:
  assumes "merlin_ok P" "table (filter P) i = Some x"
  shows "\<exists>P' y. swap_candidates stale P x = Inr P' \<and> merlin_ok P' \<and> (hot_exact P \<longrightarrow> hot_exact P') \<and>
     fixed P' = fixed P \<and> core P' = core P \<and> guard_freq P' = guard_freq P \<and>
     table (filter P') = (table (filter P))(i := None) \<and>
     table (staging P) i = None \<and> table (staging P') = (table (staging P))(i \<mapsto> y) \<and>
     obj_size y = obj_size x \<and> q_list (staging P') = i # q_list (staging P) \<and>
     dom (table (ghost P')) = insert i (dom (table (ghost P))) \<and>
     occ (ghost P') = occ (ghost P) + obj_size x"
proof -
  let ?Q = "P\<lparr>compareguard := compareguard P + 1\<rparr>" and ?r = "copy_cache_obj_to_request (req_staging P) x"
  note okP = merlin_ok_queues [OF assms(1)]
  note cp = copied_size [OF okP(1) assms(2), of "req_staging P"]
  note dj = merlin_ok_disjoint [OF assms(1), of i]
  have f: "0 \<le> frq x" "frq x \<le> MAXFREQ" "obj_id x = i"
    using sub_ok_obj [OF okP(1) assms(2)] by auto
  have "merlin_ok ?Q"
    using assms(1) by (auto simp: merlin_ok_def disjoint_queues_def)
  then obtain C where C: "note_in_sketch ?Q i = Inr (?Q\<lparr>sketch := C\<rparr>)" "cbf_wf C"
    using note_in_sketch_ok by blast
  let ?y = "(new_obj ?r)\<lparr>md := 0\<lparr>m_freq := 0, m_inghost := True\<rparr>\<rparr>"
  obtain s where s: "insert_with (staging P) ?r (\<lambda>m. m\<lparr>m_freq := 0, m_inghost := True\<rparr>) = Inr s" "sub_ok s"
      "table s = (table (staging P))(i \<mapsto> ?y)" "q_list s = i # q_list (staging P)"
    using insert_with_ok [OF okP(2), of ?r "\<lambda>m. m\<lparr>m_freq := 0, m_inghost := True\<rparr>"] cp dj(1) assms(2)
    by (auto simp: MAXFREQ_def)
  let ?R = "?Q\<lparr>sketch := C, req_staging := ?r, staging := s\<rparr>"
  obtain hs where hs: "hot_new ?R = Inr (?R\<lparr>hotdistribution := hs\<rparr>)" "hot_shift (hotdistribution P) hs (-1) 0"
    using hot_new_ok [of ?R] okP(5) by auto
  let ?T = "?R\<lparr>hotdistribution := hs\<rparr>"
  obtain g where g: "addtoghost ?T ?r (frq x) = Inr (?T\<lparr>ghost := g\<rparr>)" "sub_ok g"
      "table g = (table (ghost P))(i \<mapsto> (new_obj ?r)\<lparr>md := 0\<lparr>m_freq := frq x\<rparr>\<rparr>)"
    using addtoghost_eq [of ?T ?r "frq x"] okP(4) cp dj(3) assms(2) f by auto
  obtain fl where fl: "FIFO_remove (filter P) i = Inr (True, fl)" "sub_ok fl"
      "table fl = (table (filter P))(i := None)" "cache_size fl = cache_size (filter P)"
    using FIFO_remove_ok [OF okP(1) assms(2)] by blast
  let ?P = "?T\<lparr>ghost := g, filter := fl,
     n_byte_move_to_core := n_byte_move_to_core P + size_after_free stale fl i\<rparr>"
  have e: "swap_candidates stale P x = Inr ?P"
    using C(1) s(1) hs(1) g(1) fl(1) f(3) by (simp add: swap_candidates_def Let_def)
  have "merlin_ok ?P"
    using assms C(2) s(2,3) g(2,3) fl(2,3) hot_shift_length [OF hs(2)]
    by (auto simp: merlin_ok_def disjoint_queues_def)
  moreover have "hot_exact P \<longrightarrow> hot_exact ?P"
    using table_insert_sum [OF okP(2) _ s(3)] table_insert_sum [OF okP(4) _ g(3)] dj assms(2)
      table_remove_sum [OF okP(1) assms(2) fl(3)] hs(2)
    by (simp add: hot_exact_def hot_total_def hot_shift_def) (simp add: ind_def)
  moreover have "occ g = occ (ghost P) + obj_size x"
    using occ_insert [OF okP(4) g(2) _ g(3)] dj(3) assms(2) cp(3) by simp
  ultimately show ?thesis
    using e s(3,4) g(3) fl(3,4) dj(1) assms(2) cp(3)
    by (intro exI [of _ ?P] exI [of _ ?y]) (auto simp: fixed_def)
qed

lemma compare_ok:
  assumes "merlin_ok P"
  shows "(\<exists>r. compare stale P = Inr (r, P) \<and> r \<noteq> 1) \<or>
     (\<exists>P' i x y. compare stale P = Inr (1, P') \<and> merlin_ok P' \<and> (hot_exact P \<longrightarrow> hot_exact P') \<and>
       fixed P' = fixed P \<and> core P' = core P \<and> guard_freq P' = guard_freq P \<and>
       victim (filter P) = Some i \<and> table (filter P) i = Some x \<and>
       table (filter P') = (table (filter P))(i := None) \<and>
       table (staging P) i = None \<and> table (staging P') = (table (staging P))(i \<mapsto> y) \<and>
       obj_size y = obj_size x \<and> q_list (staging P') = i # q_list (staging P) \<and>
       q_list (staging P) \<noteq> [] \<and> dom (table (ghost P')) = insert i (dom (table (ghost P))) \<and>
       occ (ghost P') = occ (ghost P) + obj_size x)"
proof (cases "victim (filter P) = None \<or> victim (staging P) = None")
  case True
  then show ?thesis by (simp add: compare_def)
next
  case False
  note ok = merlin_ok_queues [OF assms]
  have d: "dom (table (filter P)) \<noteq> {}" "dom (table (staging P)) \<noteq> {}"
    using False victim_none [OF ok(1)] victim_none [OF ok(2)] by auto
  obtain q i x where x: "q_list (filter P) = q @ [i]" "victim (filter P) = Some i"
      "deref (filter P) (victim (filter P)) = Inr x" "table (filter P) i = Some x"
    by (rule victim_ok [OF ok(1) d(1)])
  obtain q' j y where y: "q_list (staging P) = q' @ [j]" "deref (staging P) (victim (staging P)) = Inr y"
    by (rule victim_ok [OF ok(2) d(2)])
  let ?fv = "sint (cbf_est (sketch P) (obj_id x))" and ?sv = "sint (cbf_est (sketch P) (obj_id y))"
  have e: "compare stale P =
      (if frq y > 0 \<or> ?fv > epoch_update P then Inr (0, P)
       else if ?fv > ?sv then bindE (swap_candidates stale P x) (\<lambda>P. Inr (1, P)) else Inr (2, P))"
    using False unfolding compare_def x(3) y(2) minimalIncrementCBF_estimate_eq [OF ok(6)] by auto
  show ?thesis
  proof (cases "\<not> (frq y > 0 \<or> ?fv > epoch_update P) \<and> ?fv > ?sv")
    case True
    then have "compare stale P = bindE (swap_candidates stale P x) (\<lambda>P. Inr (1, P))"
      unfolding e by simp
    moreover obtain P' y where
      "swap_candidates stale P x = Inr P'" "merlin_ok P'" "hot_exact P \<longrightarrow> hot_exact P'"
      "fixed P' = fixed P" "core P' = core P" "guard_freq P' = guard_freq P"
      "table (filter P') = (table (filter P))(i := None)" "table (staging P) i = None"
      "table (staging P') = (table (staging P))(i \<mapsto> y)" "obj_size y = obj_size x"
      "q_list (staging P') = i # q_list (staging P)" "dom (table (ghost P')) = insert i (dom (table (ghost P)))"
      "occ (ghost P') = occ (ghost P) + obj_size x"
      using swap_candidates_ok [OF assms x(4), of stale] by blast
    ultimately show ?thesis
      using x(2,4) y(1) by (intro disjI2 exI [of _ P'] exI [of _ i] exI [of _ x] exI [of _ y]) simp
  qed (use e in auto)
qed

section \<open>Rounds of \<open>adjust_filter\<close>\<close>

lemma merlin_ok_upd:
  "merlin_ok (P\<lparr>req_local := r\<rparr>) = merlin_ok P" "hot_exact (P\<lparr>req_local := r\<rparr>) = hot_exact P"
  "merlin_ok (P\<lparr>filter2core := n\<rparr>) = merlin_ok P" "hot_exact (P\<lparr>filter2core := n\<rparr>) = hot_exact P"
  "merlin_ok (P\<lparr>filter2staging := n\<rparr>) = merlin_ok P" "hot_exact (P\<lparr>filter2staging := n\<rparr>) = hot_exact P"
  "merlin_ok (P\<lparr>filter2ghost := n\<rparr>) = merlin_ok P" "hot_exact (P\<lparr>filter2ghost := n\<rparr>) = hot_exact P"
  "fixed (P\<lparr>req_local := r\<rparr>) = fixed P" "fixed (P\<lparr>filter2core := n\<rparr>) = fixed P"
  "fixed (P\<lparr>filter2staging := n\<rparr>) = fixed P" "fixed (P\<lparr>filter2ghost := n\<rparr>) = fixed P"
  by (simp_all add: merlin_ok_def hot_exact_def hot_total_def disjoint_queues_def fixed_def)

text \<open>
  \<open>filter_moved P ev P' i x y\<close>: the effect of one round. The filter victim \<open>i\<close> has left the filter; if \<open>ev\<close>,
  it was dropped or has replaced the staging victim, otherwise it is in core.
\<close>

definition filter_moved ::
  "merlin_params \<Rightarrow> bool \<Rightarrow> merlin_params \<Rightarrow> obj_id \<Rightarrow> merlin_md cache_obj \<Rightarrow> merlin_md cache_obj \<Rightarrow> bool" where
  "filter_moved P ev P' i x y \<longleftrightarrow> merlin_ok P' \<and> (hot_exact P \<longrightarrow> hot_exact P') \<and> fixed P' = fixed P \<and>
     guard_freq P' = guard_freq P \<and>
     table (filter P) i = Some x \<and> table (filter P') = (table (filter P))(i := None) \<and>
     dom (table (ghost P')) \<subseteq> insert i (dom (table (ghost P))) \<and> obj_size y = obj_size x \<and>
     occ (ghost P') \<le> occ (ghost P) + (if ev then obj_size x else 0) \<and>
     (if ev then core P' = core P \<and>
        (table (staging P') = table (staging P) \<or>
         (\<exists>j z. table (staging P) i = None \<and> i \<noteq> j \<and> table (staging P) j = Some z \<and>
            table (staging P') = (table (staging P))(i \<mapsto> y, j := None)))
      else staging P' = staging P \<and> table (core P) i = None \<and> table (core P') = (table (core P))(i \<mapsto> y))"

lemma filter_round_hot:
  assumes "merlin_ok P" "deref (filter P) (victim (filter P)) = Inr x" "table (filter P) i = Some x"
    "guard_freq P \<le> frq x"
  shows "\<exists>P' y. filter_round stale P = Inr (False, P') \<and> filter_moved P False P' i x y"
proof -
  note ok = merlin_ok_queues [OF assms(1)]
  let ?r = "copy_cache_obj_to_request (req_local P) x"
  note cp = copied_size [OF ok(1) assms(3), of "req_local P"]
  have n: "table (core P) i = None"
    by (rule merlin_ok_disjoint(2) [OF assms(1,3)])
  have f: "0 \<le> frq x" "frq x \<le> MAXFREQ" "obj_id x = i"
    using sub_ok_obj [OF ok(1) assms(3)] by auto
  obtain fl where fl: "FIFO_remove (filter P) i = Inr (True, fl)" "sub_ok fl"
      "table fl = (table (filter P))(i := None)" "cache_size fl = cache_size (filter P)"
    using FIFO_remove_ok [OF ok(1) assms(3)] by blast
  let ?y = "(new_obj ?r)\<lparr>md := 0\<lparr>m_freq := 0\<rparr>\<rparr>"
  obtain c where c: "insert_with (core P) ?r (\<lambda>m. m\<lparr>m_freq := 0\<rparr>) = Inr c" "sub_ok c"
      "table c = (table (core P))(i \<mapsto> ?y)"
    using insert_with_ok [OF ok(3), of ?r "\<lambda>m. m\<lparr>m_freq := 0\<rparr>"] cp n by (auto simp: MAXFREQ_def)
  obtain hs where hs: "decreasepop (hotdistribution P) (frq x) 0 = Inr hs" "hot_shift (hotdistribution P) hs (frq x) 0"
    using decreasepop_ok [of 0 "frq x" "hotdistribution P"] f ok(5) by (auto simp: MAXFREQ_def)
  obtain C v where C: "minimalIncrementCBF_add (sketch P) i = Inr (v, C)" "cbf_wf C"
    using minimalIncrementCBF_add_eq [OF ok(6), of i] by blast
  let ?P = "P\<lparr>req_local := ?r, filter2core := filter2core P + 1, core := c, hotdistribution := hs,
      sketch := C, filter := fl\<rparr>"
  have "filter_round stale P = Inr (False, ?P)"
    using assms(2,4) c(1) hs(1) C(1) fl(1) cp(4) f(3) by (simp add: filter_round_def note_in_sketch_def Let_def)
  moreover have "merlin_ok ?P"
    using assms(1,3) c(2,3) C(2) fl(2,3) hot_shift_length [OF hs(2)]
    by (auto simp: merlin_ok_def disjoint_queues_def)
  moreover have "hot_exact P \<longrightarrow> hot_exact ?P"
    using table_insert_sum [OF ok(3) n c(3)] table_remove_sum [OF ok(1) assms(3) fl(3)] hs(2)
    by (simp add: hot_exact_def hot_total_def hot_shift_def)
  ultimately show ?thesis
    using assms(3) fl(3,4) c(3) n cp(3)
    by (intro exI [of _ ?P] exI [of _ ?y]) (simp add: filter_moved_def fixed_def subset_insertI)
qed

lemma filter_round_ghost:
  assumes "merlin_ok P" "deref (filter P) (victim (filter P)) = Inr x" "table (filter P) i = Some x"
    "frq x < guard_freq P"
    "compare stale (P\<lparr>req_local := copy_cache_obj_to_request (req_local P) x\<rparr>) =
       Inr (r, P\<lparr>req_local := copy_cache_obj_to_request (req_local P) x\<rparr>)" "r \<noteq> 1"
  shows "\<exists>P'. filter_round stale P = Inr (True, P') \<and> filter_moved P True P' i x x"
proof -
  note ok = merlin_ok_queues [OF assms(1)]
  let ?r = "copy_cache_obj_to_request (req_local P) x"
  note cp = copied_size [OF ok(1) assms(3), of "req_local P"]
  have n: "table (ghost P) i = None"
    by (rule merlin_ok_disjoint(3) [OF assms(1,3)])
  have f: "0 \<le> frq x" "frq x \<le> MAXFREQ" "obj_id x = i"
    using sub_ok_obj [OF ok(1) assms(3)] by auto
  obtain fl where fl: "FIFO_remove (filter P) i = Inr (True, fl)" "sub_ok fl"
      "table fl = (table (filter P))(i := None)" "cache_size fl = cache_size (filter P)"
    using FIFO_remove_ok [OF ok(1) assms(3)] by blast
  let ?R = "P\<lparr>req_local := ?r, filter2ghost := filter2ghost P + 1\<rparr>"
  obtain g where g: "addtoghost ?R ?r (frq x) = Inr (?R\<lparr>ghost := g\<rparr>)" "sub_ok g"
      "table g = (table (ghost P))(i \<mapsto> (new_obj ?r)\<lparr>md := 0\<lparr>m_freq := frq x\<rparr>\<rparr>)"
    using addtoghost_eq [of ?R ?r "frq x"] ok(4) cp n f by auto
  obtain C v where C: "minimalIncrementCBF_add (sketch P) i = Inr (v, C)" "cbf_wf C"
    using minimalIncrementCBF_add_eq [OF ok(6), of i] by blast
  let ?P = "?R\<lparr>ghost := g, sketch := C, filter := fl\<rparr>"
  have "filter_round stale P = Inr (True, ?P)"
    using assms(2,4-6) g(1) C(1) fl(1) cp(4) f(3) by (simp add: filter_round_def note_in_sketch_def Let_def)
  moreover have "merlin_ok ?P"
    using assms(1) g(2,3) C(2) fl(2,3) by (auto simp: merlin_ok_def disjoint_queues_def)
  moreover have "hot_exact P \<longrightarrow> hot_exact ?P"
    using table_insert_sum [OF ok(4) n g(3)] table_remove_sum [OF ok(1) assms(3) fl(3)]
    by (simp add: hot_exact_def hot_total_def)
  moreover have "occ g = occ (ghost P) + obj_size x"
    using occ_insert [OF ok(4) g(2) n g(3)] cp(3) by simp
  ultimately show ?thesis
    using assms(3) fl(3,4) g(3) by (intro exI [of _ ?P]) (simp add: filter_moved_def fixed_def)
qed

text \<open>After a won comparison the staging victim is evicted; it is not the object just staged.\<close>

lemma evict_loser_ok:
  assumes "merlin_ok R" "q_list (staging R) = i # q" "q \<noteq> []"
  shows "\<exists>P' j z. evict_staging R = Inr P' \<and> merlin_ok P' \<and> (hot_exact R \<longrightarrow> hot_exact P') \<and> fixed P' = fixed R \<and>
     filter P' = filter R \<and> core P' = core R \<and> ghost P' = ghost R \<and> guard_freq P' = guard_freq R \<and>
     i \<noteq> j \<and> j \<in> set q \<and> table (staging R) j = Some z \<and> table (staging P') = (table (staging R))(j := None)"
proof -
  obtain q' j where j: "q = q' @ [j]"
    using assms(3) rev_exhaust by blast
  have "distinct (q_list (staging R))"
    using merlin_ok_queues(2) [OF assms(1)] cache_wf_distinct by (auto simp: sub_ok_def FIFO_inv_def)
  then have "i \<noteq> j"
    using assms(2) j by auto
  then show ?thesis
    using evict_staging_ok [OF assms(1), of "i # q'" j] assms(2) j by auto
qed

lemma filter_round_ok:
  assumes "merlin_ok P" "dom (table (filter P)) \<noteq> {}"
  shows "\<exists>ev P' i x y. filter_round stale P = Inr (ev, P') \<and> filter_moved P ev P' i x y"
proof -
  note ok = merlin_ok_queues [OF assms(1)]
  obtain q i x where v: "q_list (filter P) = q @ [i]" "victim (filter P) = Some i"
      "deref (filter P) (victim (filter P)) = Inr x" "table (filter P) i = Some x" "obj_id x = i"
    by (rule victim_ok [OF ok(1) assms(2)])
  let ?Q = "P\<lparr>req_local := copy_cache_obj_to_request (req_local P) x\<rparr>"
  show ?thesis
  proof (cases "guard_freq P \<le> frq x")
    case True
    then show ?thesis using filter_round_hot [OF assms(1) v(3,4)] by blast
  next
    case cold: False
    have "merlin_ok ?Q"
      using assms(1) by (simp add: merlin_ok_upd)
    from compare_ok [OF this, of stale] show ?thesis
    proof (elim disjE exE conjE)
      fix r assume r: "compare stale ?Q = Inr (r, ?Q)" "r \<noteq> 1"
      have "frq x < guard_freq P"
        using cold by simp
      from filter_round_ghost [OF assms(1) v(3,4) this r]
      show ?thesis by (elim exE) (rule exI)+
    next
      fix R i' x' y assume R: "compare stale ?Q = Inr (1, R)" "merlin_ok R" "hot_exact ?Q \<longrightarrow> hot_exact R"
        "fixed R = fixed ?Q" "core R = core ?Q" "guard_freq R = guard_freq ?Q"
        "victim (filter ?Q) = Some i'" "table (filter ?Q) i' = Some x'"
        "table (filter R) = (table (filter ?Q))(i' := None)" "table (staging ?Q) i' = None"
        "table (staging R) = (table (staging ?Q))(i' \<mapsto> y)" "obj_size y = obj_size x'"
        "q_list (staging R) = i' # q_list (staging ?Q)" "q_list (staging ?Q) \<noteq> []"
        "dom (table (ghost R)) = insert i' (dom (table (ghost ?Q)))"
        "occ (ghost R) = occ (ghost ?Q) + obj_size x'"
      have i': "i' = i" "x' = x"
        using R(7,8) v(2,4) by auto
      obtain P' j z where P': "evict_staging (R\<lparr>filter2staging := filter2staging R + 1\<rparr>) = Inr P'" "merlin_ok P'"
          "hot_exact R \<longrightarrow> hot_exact P'" "fixed P' = fixed R" "filter P' = filter R" "core P' = core R"
          "ghost P' = ghost R" "guard_freq P' = guard_freq R" "i \<noteq> j" "table (staging R) j = Some z"
          "table (staging P') = (table (staging R))(j := None)"
        using evict_loser_ok [of "R\<lparr>filter2staging := filter2staging R + 1\<rparr>" i "q_list (staging P)"] R(2,13,14) i'
        by (auto simp: merlin_ok_upd)
      have "filter_round stale P = Inr (True, P')"
        using v(3,5) cold R(1) P'(1) by (simp add: filter_round_def Let_def)
      moreover have "filter_moved P True P' i x y"
        unfolding filter_moved_def if_True
        using P'(2-9) R(3-6,8-12,15,16) P'(10,11) v(4) unfolding i'
        by (simp add: merlin_ok_upd) (metis fun_upd_apply)
      ultimately show ?thesis by blast
    qed
  qed
qed

end
