(* ===== verification/Merlin_Loops.thy ===== *)
theory Merlin_Loops
  imports Merlin_Moves
begin

text \<open>
  The loops of the Merlin cache. Each of them ends, keeps the invariant and the exactness of the
  histogram, and moves no byte into or out of the cache beyond what it says.
\<close>

section \<open>Totals over the three real queues\<close>

definition real_sum :: "(merlin_md cache_obj \<Rightarrow> int) \<Rightarrow> merlin_params \<Rightarrow> int" where
  "real_sum g P = wsum g (table (filter P)) + wsum g (table (staging P)) + wsum g (table (core P))"

lemma occupied_real_sum: "merlin_ok P \<Longrightarrow> merlin_get_occupied_byte P = real_sum obj_size P"
  by (simp add: merlin_get_occupied_byte_def real_sum_def sub_ok_occ merlin_ok_queues)

lemma n_obj_real_sum: "merlin_ok P \<Longrightarrow> merlin_get_n_obj P = real_sum (\<lambda>_. 1) P"
  by (simp add: merlin_get_n_obj_def real_sum_def sub_ok_n merlin_ok_queues)

text \<open>The frequencies still to be spent in staging and core: what \<open>adjust_staging\<close> uses up.\<close>

definition spare_freq :: "merlin_params \<Rightarrow> int" where
  "spare_freq P = wsum frq (table (staging P)) + wsum frq (table (core P))"

lemma spare_freq_nonneg: "merlin_ok P \<Longrightarrow> 0 \<le> spare_freq P"
proof -
  assume "merlin_ok P"
  then have "0 \<le> wsum frq (table (staging P))" "0 \<le> wsum frq (table (core P))"
    using sub_ok_obj merlin_ok_queues by (blast intro: wsum_nonneg)+
  then show ?thesis by (simp add: spare_freq_def)
qed

text \<open>
  \<open>shuffled P P'\<close>: objects were moved between staging and core only, ghosts at most dropped.
\<close>

definition kept :: "merlin_params \<Rightarrow> merlin_params \<Rightarrow> bool" where
  "kept P P' \<longleftrightarrow> merlin_ok P' \<and> (hot_exact P \<longrightarrow> hot_exact P') \<and> fixed P' = fixed P \<and> guard_freq P' = guard_freq P"

definition shuffled :: "merlin_params \<Rightarrow> merlin_params \<Rightarrow> bool" where
  "shuffled P P' \<longleftrightarrow> kept P P' \<and> filter P' = filter P \<and> merlin_keys P' = merlin_keys P \<and>
     real_sum obj_size P' = real_sum obj_size P \<and> real_sum (\<lambda>_. 1) P' = real_sum (\<lambda>_. 1) P \<and>
     spare_freq P' \<le> spare_freq P \<and> dom (table (ghost P')) \<subseteq> dom (table (ghost P)) \<and>
     occ (ghost P') \<le> occ (ghost P)"

lemma kept_refl: "merlin_ok P \<Longrightarrow> kept P P"
  by (simp add: kept_def)

lemma kept_trans: "kept P Q \<Longrightarrow> kept Q R \<Longrightarrow> kept P R"
  by (simp add: kept_def)

lemma shuffled_refl: "merlin_ok P \<Longrightarrow> shuffled P P"
  by (simp add: shuffled_def kept_refl)

lemma shuffled_trans: "shuffled P Q \<Longrightarrow> shuffled Q R \<Longrightarrow> shuffled P R"
  unfolding shuffled_def by (metis (no_types, lifting) kept_trans order_trans)

lemma shuffled_ok: "shuffled P Q \<Longrightarrow> merlin_ok Q"
  by (simp add: shuffled_def kept_def)

lemma kept_limits:
  assumes "kept P P'"
  shows "filter_limit P' = filter_limit P" "staging_limit P' = staging_limit P" "core_limit P' = core_limit P"
    "ghost_limit P' = ghost_limit P" "cache_size (filter P') = cache_size (filter P)"
    "hit_on_ghost P' = hit_on_ghost P" "move_to_core P' = move_to_core P" "ghost_freq P' = ghost_freq P"
  using assms by (auto simp: kept_def fixed_def)

lemma core_to_staging_shuffled:
  assumes "merlin_ok P" "dom (table (core P)) \<noteq> {}"
  shows "\<exists>P'. core_to_staging P = Inr P' \<and> shuffled P P' \<and> ghost P' = ghost P \<and>
     card (dom (table (core P'))) < card (dom (table (core P))) \<and> spare_freq P' = spare_freq P"
proof -
  note ok = merlin_ok_queues [OF assms(1)]
  obtain P' i x y where s: "core_to_staging P = Inr P'" "merlin_ok P'" "hot_exact P \<longrightarrow> hot_exact P'"
      "fixed P' = fixed P" "filter P' = filter P" "ghost P' = ghost P" "guard_freq P' = guard_freq P"
      "table (core P) i = Some x" "table (core P') = (table (core P))(i := None)"
      "table (staging P) i = None" "table (staging P') = (table (staging P))(i \<mapsto> y)"
      "obj_size y = obj_size x" "frq y = frq x"
    using core_to_staging_ok [OF assms] by blast
  note sums = table_remove_sum [OF ok(3) s(8,9)] table_insert_sum [OF ok(2) s(10,11)]
  have "card (dom (table (core P'))) < card (dom (table (core P)))"
    using card_Diff1_less [OF sub_ok_finite [OF ok(3)], of i] s(8,9) by (simp add: domI)
  moreover have "merlin_keys P' = merlin_keys P"
    using s(5,8,9,11) by (auto simp: merlin_keys_def)
  ultimately show ?thesis
    using s sums by (auto simp: shuffled_def kept_def real_sum_def spare_freq_def)
qed

lemma staging_to_core_shuffled:
  assumes "merlin_ok P" "table (staging P) i = Some x" "0 < frq x"
  shows "\<exists>P'. staging_to_core P x = Inr P' \<and> shuffled P P' \<and> spare_freq P' = spare_freq P - 1 \<and>
     card (dom (table (staging P'))) < card (dom (table (staging P)))"
proof -
  note ok = merlin_ok_queues [OF assms(1)]
  obtain P' y where s: "staging_to_core P x = Inr P'" "merlin_ok P'" "hot_exact P \<longrightarrow> hot_exact P'"
     "fixed P' = fixed P" "filter P' = filter P" "guard_freq P' = guard_freq P"
     "table (core P) i = None" "table (core P') = (table (core P))(i \<mapsto> y)"
     "table (staging P') = (table (staging P))(i := None)" "obj_size y = obj_size x"
     "frq y = frq x - 1" "dom (table (ghost P')) \<subseteq> dom (table (ghost P))" "occ (ghost P') \<le> occ (ghost P)"
    using staging_to_core_ok [OF assms] by blast
  note sums = table_insert_sum [OF ok(3) s(7,8)] table_remove_sum [OF ok(2) assms(2) s(9)]
  have "card (dom (table (staging P'))) < card (dom (table (staging P)))"
    using card_Diff1_less [OF sub_ok_finite [OF ok(2)], of i] s(9) assms(2) by (simp add: domI)
  moreover have "merlin_keys P' = merlin_keys P"
    using s(5,8,9) assms(2) by (auto simp: merlin_keys_def)
  ultimately show ?thesis
    using s sums by (auto simp: shuffled_def kept_def real_sum_def spare_freq_def)
qed

section \<open>\<open>adjust_core\<close>, \<open>adjust_staging\<close> and the loop around them\<close>

lemma over_limit_nonempty: "sub_ok c \<Longrightarrow> 0 \<le> l \<Longrightarrow> l < to_u64 (occ c) \<Longrightarrow> dom (table c) \<noteq> {}"
  using sub_ok_occ_zero [of c] by (auto simp: to_u64_def)

lemma adjust_core_ok:
  assumes "merlin_ok P" "0 \<le> core_limit P"
  shows "\<exists>P'. adjust_core P = Some (Inr P') \<and> shuffled P P' \<and> ghost P' = ghost P \<and>
     to_u64 (occ (core P')) \<le> core_limit P' \<and> spare_freq P' = spare_freq P"
  using assms
proof (induction "card (dom (table (core P)))" arbitrary: P rule: less_induct)
  case less
  show ?case
  proof (cases "core_limit P < to_u64 (occ (core P))")
    case True
    obtain Q where q: "core_to_staging P = Inr Q" "shuffled P Q" "ghost Q = ghost P"
        "card (dom (table (core Q))) < card (dom (table (core P)))" "spare_freq Q = spare_freq P"
      using core_to_staging_shuffled [OF less.prems(1) over_limit_nonempty]
        merlin_ok_queues(3) [OF less.prems(1)] less.prems True by blast
    have "adjust_core P = adjust_core Q"
      using True q(1) by (subst adjust_core.simps) simp
    moreover have "core_limit Q = core_limit P"
      using q(2) kept_limits(3) by (simp add: shuffled_def)
    ultimately show ?thesis
      using less.hyps [OF q(4) shuffled_ok [OF q(2)]] less.prems(2) q(2,3,5) shuffled_trans by fastforce
  next
    case False
    then show ?thesis
      using less.prems by (subst (1) adjust_core.simps) (auto simp: shuffled_refl)
  qed
qed

lemma adjust_staging_ok:
  assumes "merlin_ok P"
  shows "\<exists>r P'. adjust_staging P = Some (Inr (r, P')) \<and> shuffled P P' \<and>
     (r \<noteq> 0 \<longrightarrow> dom (table (staging P')) \<noteq> {}) \<and>
     (r = 0 \<longrightarrow> dom (table (staging P)) \<noteq> {} \<longrightarrow> spare_freq P' < spare_freq P)"
  using assms
proof (induction "card (dom (table (staging P)))" arbitrary: P rule: less_induct)
  case less
  note ok = merlin_ok_queues [OF less.prems]
  show ?case
  proof (cases "dom (table (staging P)) = {}")
    case True
    then have "\<not> 0 < occ (staging P)"
      using sub_ok_occ_zero [OF ok(2)] by simp
    then show ?thesis
      using True less.prems by (subst (1) adjust_staging.simps) (auto simp: shuffled_refl)
  next
    case False
    then have o: "0 < occ (staging P)"
      using sub_ok_occ_zero [OF ok(2)] sub_ok_occ_nonneg [OF ok(2)] by linarith
    obtain q i x where v: "q_list (staging P) = q @ [i]" "victim (staging P) = Some i"
        "deref (staging P) (victim (staging P)) = Inr x" "table (staging P) i = Some x"
      by (rule victim_ok [OF ok(2) False])
    show ?thesis
    proof (cases "frq x = 0")
      case True
      then show ?thesis
        using False o v(3) less.prems by (subst (1) adjust_staging.simps) (auto simp: shuffled_refl)
    next
      case hot: False
      then have "0 < frq x"
        using sub_ok_obj [OF ok(2) v(4)] by simp
      then obtain Q where q: "staging_to_core P x = Inr Q" "shuffled P Q" "spare_freq Q = spare_freq P - 1"
          "card (dom (table (staging Q))) < card (dom (table (staging P)))"
        using staging_to_core_shuffled [OF less.prems v(4)] by blast
      have "adjust_staging P = adjust_staging Q"
        using o v(3) hot q(1) by (subst adjust_staging.simps) simp
      moreover obtain r R where "adjust_staging Q = Some (Inr (r, R))" "shuffled Q R"
          "r \<noteq> 0 \<longrightarrow> dom (table (staging R)) \<noteq> {}"
        using less.hyps [OF q(4) shuffled_ok [OF q(2)]] by blast
      moreover have "spare_freq R < spare_freq P"
        using \<open>shuffled Q R\<close> q(3) by (simp add: shuffled_def)
      ultimately show ?thesis
        using shuffled_trans [OF q(2)] by auto
    qed
  qed
qed

text \<open>
  The loop \<open>while (ret == 0)\<close> ends when staging and core together exceed the core limit: then staging
  is not empty after \<open>adjust_core\<close>, so every further round spends some frequency.
\<close>

lemma settle_staging_ok:
  assumes "merlin_ok P" "0 \<le> core_limit P" "core_limit P < occ (staging P) + occ (core P)"
    "merlin_get_occupied_byte P < 2 ^ 63"
  shows "\<exists>P'. settle_staging P = Some (Inr P') \<and> shuffled P P' \<and> dom (table (staging P')) \<noteq> {}"
  using assms
proof (induction "nat (spare_freq P)" arbitrary: P rule: less_induct)
  case less
  obtain Q where q: "adjust_core P = Some (Inr Q)" "shuffled P Q" "to_u64 (occ (core Q)) \<le> core_limit Q"
      "spare_freq Q = spare_freq P"
    using adjust_core_ok [OF less.prems(1,2)] by blast
  obtain r R where r: "adjust_staging Q = Some (Inr (r, R))" "shuffled Q R"
      "r \<noteq> 0 \<longrightarrow> dom (table (staging R)) \<noteq> {}"
      "r = 0 \<longrightarrow> dom (table (staging Q)) \<noteq> {} \<longrightarrow> spare_freq R < spare_freq Q"
    using adjust_staging_ok [OF shuffled_ok [OF q(2)]] by blast
  have sc: "merlin_get_occupied_byte S = merlin_get_occupied_byte P \<and>
      occ (staging S) + occ (core S) = occ (staging P) + occ (core P) \<and> core_limit S = core_limit P"
    if "shuffled P S" for S
    using that shuffled_ok [OF that] less.prems(1) occupied_real_sum [of P] occupied_real_sum [of S]
      kept_limits(3) [of P S] by (simp add: shuffled_def merlin_get_occupied_byte_def)
  note okQ = merlin_ok_queues [OF shuffled_ok [OF q(2)]]
  have "0 \<le> occ (filter Q)" "0 \<le> occ (staging Q)" "0 \<le> occ (core Q)"
    using okQ by (auto intro: sub_ok_occ_nonneg)
  then have "to_u64 (occ (core Q)) = occ (core Q)"
    using sc [OF q(2)] less.prems(4) by (simp add: to_u64_def merlin_get_occupied_byte_def)
  then have "0 < occ (staging Q)"
    using q(3) sc [OF q(2)] less.prems(3) by linarith
  then have n: "dom (table (staging Q)) \<noteq> {}"
    using sub_ok_occ_zero [OF okQ(2)] by auto
  have pr: "shuffled P R"
    by (rule shuffled_trans [OF q(2) r(2)])
  show ?case
  proof (cases "r = 0")
    case True
    have "settle_staging P = settle_staging R"
      using q(1) r(1) True by (subst settle_staging.simps) simp
    moreover have "nat (spare_freq R) < nat (spare_freq P)"
      using r(4) True n q(4) spare_freq_nonneg [OF shuffled_ok [OF pr]] by simp
    ultimately show ?thesis
      using less.hyps [of R] sc [OF pr] shuffled_ok [OF pr] less.prems shuffled_trans [OF pr] by force
  next
    case False
    then show ?thesis
      using q(1) r(1,3) pr by (subst (1) settle_staging.simps) auto
  qed
qed

section \<open>\<open>adjust_filter\<close>, \<open>adjust_ghost\<close> and the threshold\<close>

text \<open>
  \<open>adjust_filter\<close> either evicts one object, or moves the whole filter to core.
\<close>

definition real_n :: "merlin_params \<Rightarrow> int" where
  "real_n P = real_sum (\<lambda>_. 1) P"

definition shrunk :: "merlin_params \<Rightarrow> merlin_params \<Rightarrow> bool" where
  "shrunk P P' \<longleftrightarrow> kept P P' \<and> merlin_keys P' \<subseteq> merlin_keys P \<and>
     real_sum obj_size P' \<le> real_sum obj_size P \<and> occ (filter P') \<le> occ (filter P) \<and>
     real_n P' \<le> real_n P \<and>
     dom (table (ghost P')) \<subseteq> dom (table (ghost P)) \<union> merlin_keys P \<and>
     occ (ghost P') < occ (ghost P) + 2 ^ 32"

lemma filter_moved_kept: "filter_moved P ev P' i x y \<Longrightarrow> kept P P'"
  by (simp add: filter_moved_def kept_def)

lemma filter_moved_sums:
  assumes "merlin_ok P" "filter_moved P ev P' i x y"
  shows "wsum g (table (filter P')) = wsum g (table (filter P)) - g x"
    "\<not> ev \<Longrightarrow> wsum g (table (core P')) = wsum g (table (core P)) + g y"
    "0 < obj_size x" "obj_size x < 2 ^ 32" "obj_size y = obj_size x"
proof -
  note ok = merlin_ok_queues [OF assms(1)]
  have m: "table (filter P) i = Some x" "table (filter P') = (table (filter P))(i := None)" "obj_size y = obj_size x"
    using assms(2) by (simp_all add: filter_moved_def)
  show "wsum g (table (filter P')) = wsum g (table (filter P)) - g x"
    by (rule table_remove_sum [OF ok(1) m(1,2)])
  show "0 < obj_size x" "obj_size x < 2 ^ 32" "obj_size y = obj_size x"
    using sub_ok_obj [OF ok(1) m(1)] m(3) by auto
  show "wsum g (table (core P')) = wsum g (table (core P)) + g y" if "\<not> ev"
    by (rule table_insert_sum [OF ok(3), where i = i]) (use assms(2) that in \<open>simp_all add: filter_moved_def\<close>)
qed

text \<open>A round that evicts: one object fewer, and no more bytes than before.\<close>

lemma filter_moved_evict:
  assumes "merlin_ok P" "filter_moved P True P' i x y"
  shows "shrunk P P'" "real_n P' = real_n P - 1"
proof -
  note ok = merlin_ok_queues [OF assms(1)] and s = filter_moved_sums [OF assms]
  have m: "kept P P'" "table (filter P) i = Some x" "table (filter P') = (table (filter P))(i := None)"
      "core P' = core P" "dom (table (ghost P')) \<subseteq> insert i (dom (table (ghost P)))"
      "occ (ghost P') \<le> occ (ghost P) + obj_size x"
      "merlin_ok P'"
    using assms(2) by (simp_all add: filter_moved_def kept_def)
  consider "table (staging P') = table (staging P)"
    | j z where "table (staging P) i = None" "i \<noteq> j" "table (staging P) j = Some z"
        "table (staging P') = (table (staging P))(i \<mapsto> y, j := None)"
    using assms(2) by (auto simp: filter_moved_def)
  then have st: "wsum obj_size (table (staging P')) \<le> wsum obj_size (table (staging P)) + obj_size x \<and>
      wsum (\<lambda>_. 1) (table (staging P')) = wsum (\<lambda>_. 1) (table (staging P)) \<and>
      dom (table (staging P')) \<subseteq> insert i (dom (table (staging P)))"
  proof cases
    case 1
    then show ?thesis using s(3) by auto
  next
    case (2 j z)
    have f: "finite (dom ((table (staging P))(i \<mapsto> y)))"
      using sub_ok_finite [OF ok(2)] by simp
    have "wsum h (table (staging P')) = wsum h (table (staging P)) + h y - h z" for h
      using wsum_remove [OF f, of j z h] 2 wsum_insert [OF sub_ok_finite [OF ok(2)], of i h y] by simp
    moreover have "0 < obj_size z"
      using sub_ok_obj [OF ok(2) 2(3)] by simp
    ultimately show ?thesis
      using 2 s(5) by auto
  qed
  have "occ (filter P') = occ (filter P) - obj_size x"
    using s(1) [of obj_size] ok(1) merlin_ok_queues(1) [OF m(7)] by (simp add: sub_ok_occ)
  then show "shrunk P P'"
    using m s(1) [of obj_size] s(1) [of "\<lambda>_. 1"] s(3,4) st
    by (auto simp: shrunk_def real_sum_def real_n_def merlin_keys_def)
  show "real_n P' = real_n P - 1"
    using m(4) s(1) [of "\<lambda>_. 1"] st by (simp add: real_n_def real_sum_def)
qed

text \<open>A round that promotes: the object is in core, the same bytes and objects are cached.\<close>

lemma filter_moved_promote:
  assumes "merlin_ok P" "filter_moved P False P' i x y"
  shows "kept P P'" "merlin_keys P' = merlin_keys P" "real_sum obj_size P' = real_sum obj_size P"
    "real_n P' = real_n P" "occ (filter P') \<le> occ (filter P)" "occ (ghost P') \<le> occ (ghost P)"
    "card (dom (table (filter P'))) < card (dom (table (filter P)))"
    "dom (table (ghost P')) \<subseteq> dom (table (ghost P)) \<union> merlin_keys P"
proof -
  note ok = merlin_ok_queues [OF assms(1)] and s = filter_moved_sums [OF assms]
  have m: "table (filter P) i = Some x" "table (filter P') = (table (filter P))(i := None)"
      "staging P' = staging P" "table (core P') = (table (core P))(i \<mapsto> y)"
      "dom (table (ghost P')) \<subseteq> insert i (dom (table (ghost P)))" "occ (ghost P') \<le> occ (ghost P)" "merlin_ok P'"
    using assms(2) by (simp_all add: filter_moved_def)
  show "kept P P'"
    by (rule filter_moved_kept [OF assms(2)])
  show "merlin_keys P' = merlin_keys P"
    using m(1-4) by (auto simp: merlin_keys_def)
  show "real_sum obj_size P' = real_sum obj_size P"
    using s(1) [of obj_size] s(2) [of obj_size] s(5) m(3) by (simp add: real_sum_def)
  show "real_n P' = real_n P"
    using s(1) [of "\<lambda>_. 1"] s(2) [of "\<lambda>_. 1"] m(3) by (simp add: real_n_def real_sum_def)
  show "occ (filter P') \<le> occ (filter P)"
    using s(1) [of obj_size] s(3) ok(1) merlin_ok_queues(1) [OF m(7)] by (simp add: sub_ok_occ)
  show "occ (ghost P') \<le> occ (ghost P)"
    by (rule m(6))
  show "card (dom (table (filter P'))) < card (dom (table (filter P)))"
    using card_Diff1_less [OF sub_ok_finite [OF ok(1)], of i] m(1,2) by (simp add: domI)
  show "dom (table (ghost P')) \<subseteq> dom (table (ghost P)) \<union> merlin_keys P"
    using m(1,5) by (auto simp: merlin_keys_def)
qed

lemma adjust_filter_ok:
  assumes "merlin_ok P"
  shows "\<exists>ev P'. adjust_filter stale P = Some (Inr (ev, P')) \<and> shrunk P P' \<and>
     (if ev then real_n P' = real_n P - 1 else dom (table (filter P')) = {})"
  using assms
proof (induction "card (dom (table (filter P)))" arbitrary: P rule: less_induct)
  case less
  note ok = merlin_ok_queues [OF less.prems]
  have refl: "shrunk P P"
    using less.prems by (simp add: shrunk_def kept_refl)
  show ?case
  proof (cases "dom (table (filter P)) = {}")
    case True
    then have "\<not> 0 < occ (filter P)"
      using sub_ok_occ_zero [OF ok(1)] by simp
    then show ?thesis
      using True refl by (subst (1) adjust_filter.simps) auto
  next
    case False
    then have o: "0 < occ (filter P)"
      using sub_ok_occ_zero [OF ok(1)] sub_ok_occ_nonneg [OF ok(1)] by linarith
    obtain ev Q i x y where q: "filter_round stale P = Inr (ev, Q)" "filter_moved P ev Q i x y"
      using filter_round_ok [OF less.prems False] by blast
    show ?thesis
    proof (cases ev)
      case True
      then have "adjust_filter stale P = Some (Inr (True, Q))"
        using o q(1) by (subst adjust_filter.simps) simp
      then show ?thesis
        using filter_moved_evict [OF less.prems] q(2) True by auto
    next
      case ev: False
      have "filter_moved P False Q i x y"
        using q(2) ev by simp
      note pr = filter_moved_promote [OF less.prems this]
      have "adjust_filter stale P = adjust_filter stale Q"
        using o q(1) ev by (subst adjust_filter.simps) simp
      moreover obtain ev' R where r: "adjust_filter stale Q = Some (Inr (ev', R))" "shrunk Q R"
          "if ev' then real_n R = real_n Q - 1 else dom (table (filter R)) = {}"
        using less.hyps [OF pr(7)] pr(1) by (auto simp: kept_def)
      moreover have "dom (table (ghost R)) \<subseteq> dom (table (ghost Q)) \<union> merlin_keys Q"
        using r(2) by (simp add: shrunk_def)
      then have "dom (table (ghost R)) \<subseteq> dom (table (ghost P)) \<union> merlin_keys P"
        using pr(2,8) by blast
      then have "shrunk P R"
        using r(2) pr kept_trans [OF pr(1)] by (auto simp: shrunk_def)
      ultimately show ?thesis
        using pr(4) by auto
    qed
  qed
qed

lemma adjust_ghost_ok:
  assumes "merlin_ok P" "0 \<le> ghost_limit P"
  shows "\<exists>P'. adjust_ghost P = Some (Inr P') \<and> kept P P' \<and> filter P' = filter P \<and> staging P' = staging P \<and>
     core P' = core P \<and> to_u64 (occ (ghost P')) \<le> ghost_limit P \<and>
     occ (ghost P') \<le> occ (ghost P) \<and> dom (table (ghost P')) \<subseteq> dom (table (ghost P))"
  using assms
proof (induction "card (dom (table (ghost P)))" arbitrary: P rule: less_induct)
  case less
  note ok = merlin_ok_queues [OF less.prems(1)]
  show ?case
  proof (cases "to_u64 (occ (ghost P)) > ghost_limit P")
    case True
    obtain Q i x where q: "drop_ghost P = Inr Q" "merlin_ok Q" "hot_exact P \<longrightarrow> hot_exact Q"
        "fixed Q = fixed P" "filter Q = filter P" "staging Q = staging P" "core Q = core P"
        "guard_freq Q = guard_freq P" "table (ghost P) i = Some x" "table (ghost Q) = (table (ghost P))(i := None)"
      using drop_ghost_ok [OF less.prems(1) over_limit_nonempty [OF ok(4) less.prems(2) True]] by blast
    have k: "kept P Q"
      using q by (simp add: kept_def)
    have "card (dom (table (ghost Q))) < card (dom (table (ghost P)))"
      using card_Diff1_less [OF sub_ok_finite [OF ok(4)], of i] q(9,10) by (simp add: domI)
    from less.hyps [OF this q(2)] obtain R where r: "adjust_ghost Q = Some (Inr R)" "kept Q R" "filter R = filter Q"
        "staging R = staging Q" "core R = core Q" "to_u64 (occ (ghost R)) \<le> ghost_limit Q"
        "occ (ghost R) \<le> occ (ghost Q)" "dom (table (ghost R)) \<subseteq> dom (table (ghost Q))"
      using less.prems(2) kept_limits(4) [OF k] by auto
    have "adjust_ghost P = adjust_ghost Q"
      using True q(1) by (subst adjust_ghost.simps) simp
    moreover have "occ (ghost Q) \<le> occ (ghost P)"
      by (rule occ_remove_le [OF ok(4) merlin_ok_queues(4) [OF q(2)] q(10)])
    moreover have "dom (table (ghost R)) \<subseteq> dom (table (ghost P))"
      using r(8) q(10) by auto
    ultimately show ?thesis
      using r q kept_trans [OF k r(2)] kept_limits(4) [OF k] by auto
  next
    case False
    then show ?thesis
      using less.prems by (subst (1) adjust_ghost.simps) (auto simp: kept_refl)
  qed
qed

declare guard_up.simps [simp del] guard_down.simps [simp del]

lemma guard_up_spec:
  "0 \<le> g \<Longrightarrow> (guard_up hs t g = Inl OutOfBounds \<and> (\<forall>k. g \<le> k \<and> k < int (length hs) \<longrightarrow> t < hs ! nat k)) \<or>
     (\<exists>g'. guard_up hs t g = Inr g' \<and> g \<le> g' \<and> g' < int (length hs) \<and> hs ! nat g' \<le> t \<and>
        (\<forall>k. g \<le> k \<and> k < g' \<longrightarrow> t < hs ! nat k))"
proof (induction hs t g rule: guard_up.induct)
  case (1 hs t g)
  show ?case
  proof (cases "g < int (length hs)")
    case True
    then have v: "hot_get hs g = Inr (hs ! nat g)"
      using 1(2) by (simp add: hot_get_def)
    show ?thesis
    proof (cases "t < hs ! nat g")
      case True
      have e: "guard_up hs t g = guard_up hs t (g + 1)"
        using v True by (subst guard_up.simps) simp
      have s: "t < hs ! nat k" if "g \<le> k" "g + 1 \<le> k \<longrightarrow> t < hs ! nat k" for k
        using that True by (cases "k = g") auto
      have "0 \<le> g + 1"
        using 1(2) by simp
      from 1(1) [OF v True this] show ?thesis
        unfolding e
      proof (elim disjE conjE exE, goal_cases)
        case 1
        then show ?case using s by auto
      next
        case (2 g')
        then show ?case using s by (intro disjI2 exI [of _ g']) auto
      qed
    next
      case False
      then have "guard_up hs t g = Inr g"
        using v by (subst guard_up.simps) simp
      then show ?thesis using False \<open>g < int (length hs)\<close> by auto
    qed
  next
    case False
    then have "guard_up hs t g = Inl OutOfBounds"
      using 1(2) by (subst guard_up.simps) (simp add: hot_get_def nat_less_iff)
    then show ?thesis using False by auto
  qed
qed

lemma guard_down_spec:
  "1 \<le> g \<Longrightarrow> g < int (length hs) \<Longrightarrow> hs ! nat g \<le> t \<Longrightarrow>
   \<exists>g'. guard_down hs t g = Inr g' \<and> 1 \<le> g' \<and> g' \<le> g \<and> hs ! nat g' \<le> t \<and>
     (g' = 1 \<or> t \<le> hs ! nat (g' - 1))"
proof (induction hs t g rule: guard_down.induct)
  case (1 hs t g)
  show ?case
  proof (cases "g > 1")
    case True
    then have v: "hot_get hs (g - 1) = Inr (hs ! nat (g - 1))"
      using 1(3) by (simp add: hot_get_def)
    show ?thesis
    proof (cases "hs ! nat (g - 1) < t")
      case lower: True
      have "guard_down hs t g = guard_down hs t (g - 1)"
        using v True lower by (subst guard_down.simps) simp
      then show ?thesis
        using 1(1) [OF True v lower] 1(2,3) True lower by auto
    next
      case False
      then have "guard_down hs t g = Inr g"
        using v True by (subst guard_down.simps) simp
      then show ?thesis using False 1(2,4) by auto
    qed
  next
    case False
    then have "guard_down hs t g = Inr g"
      by (subst guard_down.simps) simp
    then show ?thesis using False 1(2,4) by auto
  qed
qed

text \<open>
  The threshold found is the frequency at which the histogram falls to the size of core; when it never
  does, the upward loop reads past the end of the vector.
\<close>

lemma merlin_adjustguard_spec:
  assumes "merlin_ok P"
  shows "(merlin_adjustguard P = Inl OutOfBounds \<and>
       (\<forall>k. guard_freq P \<le> k \<and> k \<le> MAXFREQ \<longrightarrow> n_objs (core P) < hotdistribution P ! nat k)) \<or>
     (\<exists>g. merlin_adjustguard P = Inr (P\<lparr>guard_freq := g\<rparr>) \<and> 1 \<le> g \<and> g \<le> MAXFREQ \<and>
        (\<exists>k. guard_freq P \<le> k \<and> k \<le> MAXFREQ \<and> hotdistribution P ! nat k \<le> n_objs (core P)) \<and>
        hotdistribution P ! nat g \<le> n_objs (core P) \<and>
        (g = 1 \<or> n_objs (core P) \<le> hotdistribution P ! nat (g - 1)))"
proof -
  let ?hs = "hotdistribution P" and ?t = "n_objs (core P)" and ?g = "guard_freq P"
  have g: "1 \<le> ?g" "?g \<le> 7" "length ?hs = 8"
    using assms by (auto simp: merlin_ok_def MAXFREQ_def)
  then have v: "hot_get ?hs ?g = Inr (?hs ! nat ?g)"
    by (simp add: hot_get_def)
  show ?thesis
  proof (cases "?hs ! nat ?g > ?t")
    case True
    then have e: "merlin_adjustguard P = bindE (guard_up ?hs ?t ?g) (\<lambda>g. Inr (P\<lparr>guard_freq := g\<rparr>))"
      using v by (simp add: merlin_adjustguard_def Let_def)
    have "0 \<le> ?g" and l: "int (length ?hs) = MAXFREQ + 1"
      using g by (simp_all add: MAXFREQ_def)
    from guard_up_spec [OF this(1), of ?hs ?t] show ?thesis
      unfolding e l
    proof (elim disjE conjE exE, goal_cases)
      case 1
      then show ?case by simp
    next
      case (2 g')
      have "?g < g'"
        using 2(2,4) True by (cases "g' = ?g") simp_all
      then have "?t < ?hs ! nat (g' - 1)"
        using 2(5) by simp
      then show ?case
        using 2(1-4) g(1) by (intro disjI2 exI [of _ g']) auto
    qed
  next
    case False
    then have "merlin_adjustguard P = bindE (guard_down ?hs ?t ?g) (\<lambda>g. Inr (P\<lparr>guard_freq := g\<rparr>))"
      using v by (simp add: merlin_adjustguard_def Let_def)
    moreover obtain g' where "guard_down ?hs ?t ?g = Inr g'" "1 \<le> g'" "g' \<le> ?g" "?hs ! nat g' \<le> ?t"
        "g' = 1 \<or> ?t \<le> ?hs ! nat (g' - 1)"
      using guard_down_spec [of ?g ?hs ?t] g False by (simp only: not_less) fastforce
    ultimately show ?thesis
      using g(2) False by (intro disjI2 exI [of _ g']) (auto simp: MAXFREQ_def)
  qed
qed

end
