(* ===== verification/Merlin_Cache.thy ===== *)
theory Merlin_Cache
  imports Merlin_Loops
begin

text \<open>
  The operations of the Merlin cache as a whole, and the proof that it is an eviction algorithm in
  the sense of \<open>Cache_Base\<close>: the only error an eviction can end with is the out-of-bounds read of
  \<open>merlin_adjustguard\<close>.
\<close>

section \<open>Eviction\<close>

lemma shrunk_refl: "merlin_ok P \<Longrightarrow> shrunk P P"
  by (simp add: shrunk_def kept_refl)

lemma shuffled_shrunk:
  assumes "shuffled P Q" "shrunk Q R"
  shows "shrunk P R" "real_n Q = real_n P"
proof -
  have s: "kept P Q" "filter Q = filter P" "merlin_keys Q = merlin_keys P" "real_sum obj_size Q = real_sum obj_size P"
      "real_n Q = real_n P" "dom (table (ghost Q)) \<subseteq> dom (table (ghost P))" "occ (ghost Q) \<le> occ (ghost P)"
    using assms(1) by (auto simp: shuffled_def real_n_def)
  have "dom (table (ghost R)) \<subseteq> dom (table (ghost Q)) \<union> merlin_keys Q"
    using assms(2) by (simp add: shrunk_def)
  then have "dom (table (ghost R)) \<subseteq> dom (table (ghost P)) \<union> merlin_keys P"
    using s(3,6) by blast
  then show "shrunk P R"
    using assms(2) s kept_trans [OF s(1)] by (simp add: shrunk_def)
  show "real_n Q = real_n P"
    by (rule s(5))
qed

text \<open>The end of an eviction that found room in the filter: one staging object leaves.\<close>

lemma evict_staging_shrunk:
  assumes "merlin_ok P" "dom (table (staging P)) \<noteq> {}"
  shows "\<exists>P'. evict_staging P = Inr P' \<and> shrunk P P' \<and> real_n P' = real_n P - 1"
proof -
  note ok = merlin_ok_queues [OF assms(1)]
  obtain q i where q: "q_list (staging P) = q @ [i]"
    by (rule victim_ok [OF ok(2) assms(2)])
  obtain P' x where e: "evict_staging P = Inr P'" "merlin_ok P'" "hot_exact P \<longrightarrow> hot_exact P'"
     "fixed P' = fixed P" "filter P' = filter P" "core P' = core P" "ghost P' = ghost P"
     "guard_freq P' = guard_freq P" "table (staging P) i = Some x"
     "table (staging P') = (table (staging P))(i := None)"
    using evict_staging_ok [OF assms(1) q] by blast
  note s = table_remove_sum [OF ok(2) e(9,10)]
  have "0 < obj_size x"
    using sub_ok_obj [OF ok(2) e(9)] by simp
  then show ?thesis
    using e s [of obj_size] s [of "\<lambda>_. 1"]
    by (auto simp: shrunk_def kept_def real_sum_def real_n_def merlin_keys_def)
qed

lemma compare_evict_ok:
  assumes "merlin_ok P" "dom (table (staging P)) \<noteq> {}"
  shows "\<exists>P'. bindE (compare stale P) (\<lambda>(_, P). evict_staging P) = Inr P' \<and> shrunk P P' \<and>
     real_n P' = real_n P - 1"
  using compare_ok [OF assms(1), of stale]
proof (elim disjE exE conjE)
  fix r assume "compare stale P = Inr (r, P)"
  then show ?thesis
    using evict_staging_shrunk [OF assms] by simp
next
  fix R i x y assume R: "compare stale P = Inr (1, R)" "merlin_ok R" "hot_exact P \<longrightarrow> hot_exact R"
    "fixed R = fixed P" "core R = core P" "guard_freq R = guard_freq P"
    "table (filter P) i = Some x" "table (filter R) = (table (filter P))(i := None)"
    "table (staging P) i = None" "table (staging R) = (table (staging P))(i \<mapsto> y)" "obj_size y = obj_size x"
    "q_list (staging R) = i # q_list (staging P)" "q_list (staging P) \<noteq> []"
    "dom (table (ghost R)) = insert i (dom (table (ghost P)))" "occ (ghost R) = occ (ghost P) + obj_size x"
  obtain P' j z where P': "evict_staging R = Inr P'" "merlin_ok P'" "hot_exact R \<longrightarrow> hot_exact P'"
     "fixed P' = fixed R" "filter P' = filter R" "core P' = core R" "ghost P' = ghost R"
     "guard_freq P' = guard_freq R" "i \<noteq> j" "table (staging R) j = Some z"
     "table (staging P') = (table (staging R))(j := None)"
    using evict_loser_ok [OF R(2,12,13)] by blast
  have "filter_moved P True P' i x y"
    unfolding filter_moved_def if_True
    using R(3-11,14,15) P'(2-11) by simp (metis fun_upd_apply)
  from filter_moved_evict [OF assms(1) this] show ?thesis
    using R(1) P'(1) by simp
qed

lemma count_eviction_simps [simp]:
  "filter (count_eviction P) = filter P" "staging (count_eviction P) = staging P"
  "core (count_eviction P) = core P" "ghost (count_eviction P) = ghost P"
  "hotdistribution (count_eviction P) = hotdistribution P" "guard_freq (count_eviction P) = guard_freq P"
  "fixed (count_eviction P) = fixed P"
  by (simp_all add: count_eviction_def Let_def fixed_def)

lemma count_eviction_kept:
  assumes "merlin_ok P"
  shows "kept P (count_eviction P)"
proof -
  have "cbf_wf (sketch (count_eviction P))"
    using merlin_ok_queues(6) [OF assms]
    by (simp add: count_eviction_def Let_def minimalIncrementCBF_decay_def cbf_wf_def)
  moreover have "hit_on_ghost (count_eviction P) = hit_on_ghost P" "ghost_freq (count_eviction P) = ghost_freq P"
    by (simp_all add: count_eviction_def Let_def)
  ultimately show ?thesis
    using assms by (simp add: kept_def merlin_ok_def disjoint_queues_def hot_exact_def hot_total_def)
qed

text \<open>The configuration of a cache of \<open>S\<close> bytes.\<close>

definition limits_ok :: "merlin_params \<Rightarrow> int \<Rightarrow> bool" where
  "limits_ok P S \<longleftrightarrow> 0 \<le> filter_limit P \<and> 0 \<le> staging_limit P \<and> 0 \<le> core_limit P \<and> 0 \<le> ghost_limit P \<and>
     filter_limit P + staging_limit P + core_limit P = S \<and> S < 2 ^ 62 \<and> ghost_limit P < 2 ^ 62 \<and>
     cache_size (filter P) = filter_limit P"

definition merlin_work :: "merlin_params \<Rightarrow> request \<Rightarrow> nat" where
  "merlin_work P req =
     nat (2 * real_n P + (if filter_limit P < occ (filter P) + r_obj_size req then 1 else 0))"

text \<open>What an eviction does.\<close>

definition evicted :: "merlin_params \<Rightarrow> request \<Rightarrow> merlin_params \<Rightarrow> bool" where
  "evicted P req P' \<longleftrightarrow> merlin_ok P' \<and> (hot_exact P \<longrightarrow> hot_exact P') \<and> fixed P' = fixed P \<and>
     merlin_keys P' \<subseteq> merlin_keys P \<and> merlin_get_occupied_byte P' \<le> merlin_get_occupied_byte P \<and>
     occ (ghost P') \<le> ghost_limit P \<and> dom (table (ghost P')) \<subseteq> dom (table (ghost P)) \<union> merlin_keys P \<and>
     merlin_work P' req < merlin_work P req"

lemma real_n_nonneg: "merlin_ok P \<Longrightarrow> 0 \<le> real_n P"
  by (simp add: real_n_def real_sum_def wsum_nonneg)

text \<open>The last step of an eviction: the ghost queue is cut back to its limit.\<close>

lemma finish_eviction:
  assumes "merlin_ok P" "shrunk Q R" "occ (ghost Q) \<le> ghost_limit Q" "0 \<le> ghost_limit Q" "ghost_limit Q < 2 ^ 62"
    "hot_exact P \<longrightarrow> hot_exact Q" "fixed Q = fixed P" "filter Q = filter P" "staging Q = staging P"
    "core Q = core P" "ghost Q = ghost P" "merlin_ok Q"
    "merlin_work R req < merlin_work P req"
  shows "\<exists>P'. adjust_ghost R = Some (Inr P') \<and> evicted P req P'"
proof -
  have R: "kept Q R" "merlin_keys R \<subseteq> merlin_keys Q" "real_sum obj_size R \<le> real_sum obj_size Q"
      "dom (table (ghost R)) \<subseteq> dom (table (ghost Q)) \<union> merlin_keys Q" "occ (ghost R) < occ (ghost Q) + 2 ^ 32"
    using assms(2) by (auto simp: shrunk_def)
  have l: "ghost_limit R = ghost_limit Q" "ghost_limit Q = ghost_limit P"
    using kept_limits(4) [OF R(1)] assms(7) by (auto simp: fixed_def)
  have okR: "merlin_ok R"
    using R(1) by (simp add: kept_def)
  obtain P' where g: "adjust_ghost R = Some (Inr P')" "kept R P'" "filter P' = filter R" "staging P' = staging R"
      "core P' = core R" "to_u64 (occ (ghost P')) \<le> ghost_limit R" "occ (ghost P') \<le> occ (ghost R)"
      "dom (table (ghost P')) \<subseteq> dom (table (ghost R))"
    using adjust_ghost_ok [OF okR] assms(4) l by auto
  have ok': "merlin_ok P'"
    using g(2) by (simp add: kept_def)
  have "0 \<le> occ (ghost P')"
    using ok' by (simp add: merlin_ok_queues sub_ok_occ_nonneg)
  then have "to_u64 (occ (ghost P')) = occ (ghost P')"
    using g(7) R(5) assms(3,5) by (simp add: to_u64_def)
  moreover have "merlin_keys Q = merlin_keys P" "merlin_keys P' = merlin_keys R"
      "real_sum obj_size P' = real_sum obj_size R" "real_sum obj_size Q = real_sum obj_size P"
      "real_n P' = real_n R"
    using assms(8-10) g(3-5) by (simp_all add: merlin_keys_def real_sum_def real_n_def)
  moreover have "merlin_work P' req = merlin_work R req"
    using calculation(6) g(3) kept_limits(1) [OF g(2)] by (simp add: merlin_work_def)
  ultimately show ?thesis
    using g R assms(1,6,7,11-13) l ok' occupied_real_sum [of P] occupied_real_sum [of P']
    unfolding evicted_def kept_def by (intro exI [of _ P']) (auto simp del: fixed_def)
qed

lemma shrunk_work_evict:
  assumes "merlin_ok Q" "shrunk Q R" "real_n R = real_n Q - 1"
  shows "merlin_work R req < merlin_work Q req"
proof -
  have "filter_limit R = filter_limit Q" "occ (filter R) \<le> occ (filter Q)" "0 \<le> real_n R"
    using assms(2) kept_limits(1) by (auto simp: shrunk_def kept_def real_n_nonneg)
  then show ?thesis
    using assms(3) by (auto simp: merlin_work_def)
qed

lemma shrunk_work_promote:
  assumes "merlin_ok Q" "shrunk Q R" "dom (table (filter R)) = {}" "r_obj_size req \<le> filter_limit Q"
    "filter_limit Q < occ (filter Q) + r_obj_size req"
  shows "merlin_work R req < merlin_work Q req"
proof -
  have R: "merlin_ok R" "filter_limit R = filter_limit Q" "real_n R \<le> real_n Q"
    using assms(2) kept_limits(1) by (auto simp: shrunk_def kept_def)
  have "occ (filter R) = 0"
    using sub_ok_occ_zero [OF merlin_ok_queues(1) [OF R(1)]] assms(3) by simp
  then show ?thesis
    using R assms(4,5) real_n_nonneg [OF R(1)] by (simp add: merlin_work_def)
qed

lemma merlin_evict_run:
  assumes "merlin_ok P" "limits_ok P S" "0 < r_obj_size req" "r_obj_size req \<le> filter_limit P"
    "merlin_get_occupied_byte P \<le> S" "occ (ghost P) \<le> ghost_limit P"
    "S < merlin_get_occupied_byte P + r_obj_size req" "merlin_adjustguard (count_eviction P) = Inr Q"
  shows "\<exists>P'. merlin_evict stale P req = Some (Inr P') \<and> evicted P req P'"
proof -
  note Inr = assms(8)
  have c: "merlin_ok (count_eviction P)" "hot_exact P \<longrightarrow> hot_exact (count_eviction P)"
    using count_eviction_kept [OF assms(1)] by (auto simp: kept_def)
  obtain g where Q: "Q = (count_eviction P)\<lparr>guard_freq := g\<rparr>" "1 \<le> g" "g \<le> MAXFREQ"
    using merlin_adjustguard_spec [OF c(1)] Inr by auto
  have q: "merlin_ok Q" "hot_exact P \<longrightarrow> hot_exact Q" "fixed Q = fixed P" "filter Q = filter P"
      "staging Q = staging P" "core Q = core P" "ghost Q = ghost P"
    using c Q by (auto simp: merlin_ok_def disjoint_queues_def hot_exact_def hot_total_def fixed_def
        count_eviction_def Let_def)
  have l: "filter_limit Q = filter_limit P" "core_limit Q = core_limit P" "ghost_limit Q = ghost_limit P"
    using q(3) by (auto simp: fixed_def)
  have w: "merlin_work Q req = merlin_work P req"
    using q(4-6) l(1) by (simp add: merlin_work_def real_n_def real_sum_def)
  have gl: "0 \<le> ghost_limit Q" "ghost_limit Q < 2 ^ 62" "occ (ghost Q) \<le> ghost_limit Q"
    using assms(2,6) l q(7) by (auto simp: limits_ok_def)
  have nn: "0 \<le> occ (filter P)" "0 \<le> occ (staging P)" "0 \<le> occ (core P)"
    using merlin_ok_queues [OF assms(1)] by (auto intro: sub_ok_occ_nonneg)
  have fits: "to_u64 (occ (filter Q) + r_obj_size req) = occ (filter P) + r_obj_size req"
    using nn assms(2-5) q(4) by (simp add: to_u64_def limits_ok_def merlin_get_occupied_byte_def)
  have fin: ?thesis if "merlin_evict stale P req = adjust_ghost R" "shrunk Q R"
      "merlin_work R req < merlin_work Q req" for R
    using finish_eviction [OF assms(1) that(2) gl(3,1,2) q(2-7,1)] that w by auto
  show ?thesis
  proof (cases "to_u64 (occ (filter Q) + r_obj_size req) > filter_limit Q")
    case True
    obtain ev R where R: "adjust_filter stale Q = Some (Inr (ev, R))" "shrunk Q R"
        "if ev then real_n R = real_n Q - 1 else dom (table (filter R)) = {}"
      using adjust_filter_ok [OF q(1)] by blast
    have "merlin_work R req < merlin_work Q req"
      using shrunk_work_evict [OF q(1) R(2)] shrunk_work_promote [OF q(1) R(2)] R(3) True fits l(1) q(4) assms(4)
      by (cases ev) simp_all
    then show ?thesis
      using fin [OF _ R(2)] R(1) True Inr by (simp add: merlin_evict_def)
  next
    case False
    have "core_limit Q < occ (staging Q) + occ (core Q)"
      using False fits assms(2,7) l q(5,6) by (simp add: limits_ok_def merlin_get_occupied_byte_def)
    moreover have "merlin_get_occupied_byte Q < 2 ^ 63" "0 \<le> core_limit Q"
      using assms(2,5) l q(4-6) by (auto simp: limits_ok_def merlin_get_occupied_byte_def)
    ultimately obtain T where T: "settle_staging Q = Some (Inr T)" "shuffled Q T" "dom (table (staging T)) \<noteq> {}"
      using settle_staging_ok [OF q(1)] by blast
    obtain R where R: "bindE (compare stale T) (\<lambda>(_, P). evict_staging P) = Inr R" "shrunk T R"
        "real_n R = real_n T - 1"
      using compare_evict_ok [OF shuffled_ok [OF T(2)] T(3), of stale] by (elim exE conjE)
    have "shrunk Q R" "real_n R = real_n Q - 1"
      using shuffled_shrunk [OF T(2) R(2)] R(3) by auto
    then show ?thesis
      using fin [OF _ _ shrunk_work_evict [OF q(1)]] T(1) R(1) False Inr by (simp add: merlin_evict_def)
  qed
qed

text \<open>
  An eviction fails only in \<open>merlin_adjustguard\<close>, and exactly when every entry of the histogram from
  the present threshold on exceeds the number of objects in core.
\<close>

definition guard_overflow :: "merlin_params \<Rightarrow> bool" where
  "guard_overflow P \<longleftrightarrow> (\<forall>k. guard_freq P \<le> k \<and> k \<le> MAXFREQ \<longrightarrow> n_objs (core P) < hotdistribution P ! nat k)"

lemma merlin_evict_ok:
  assumes "merlin_ok P" "limits_ok P S" "0 < r_obj_size req" "r_obj_size req \<le> filter_limit P"
    "merlin_get_occupied_byte P \<le> S" "occ (ghost P) \<le> ghost_limit P"
    "S < merlin_get_occupied_byte P + r_obj_size req"
  shows "if guard_overflow P then merlin_evict stale P req = Some (Inl OutOfBounds)
     else (\<exists>P'. merlin_evict stale P req = Some (Inr P') \<and> evicted P req P')"
proof -
  have "merlin_ok (count_eviction P)"
    using count_eviction_kept [OF assms(1)] by (simp add: kept_def)
  from merlin_adjustguard_spec [OF this] consider
      "merlin_adjustguard (count_eviction P) = Inl OutOfBounds" "guard_overflow P"
    | Q where "merlin_adjustguard (count_eviction P) = Inr Q" "\<not> guard_overflow P"
    unfolding guard_overflow_def count_eviction_simps by (metis not_less)
  then show ?thesis
  proof cases
    case 1
    then show ?thesis by (simp add: merlin_evict_def)
  next
    case (2 Q)
    then show ?thesis using merlin_evict_run [OF assms 2(1)] by simp
  qed
qed

section \<open>Lookup\<close>

text \<open>
  \<open>touched c c'\<close>: the queue holds the same objects with the same sizes. A lookup touches at most one
  of the queues and enters the new frequency in the histogram.
\<close>

definition touched :: "merlin_md FIFO_cache \<Rightarrow> merlin_md FIFO_cache \<Rightarrow> bool" where
  "touched c c' \<longleftrightarrow> sub_ok c' \<and> dom (table c') = dom (table c) \<and> occ c' = occ c \<and> cache_size c' = cache_size c"

lemma touched_refl: "sub_ok c \<Longrightarrow> touched c c"
  by (simp add: touched_def)

lemma table_update_occ:
  assumes "sub_ok c" "sub_ok c'" "table c i = Some x" "table c' = (table c)(i \<mapsto> y)" "obj_size y = obj_size x"
    "cache_size c' = cache_size c"
  shows "touched c c'"
  using assms table_update_sum [OF assms(1,3,4), of obj_size] by (auto simp: touched_def sub_ok_occ)

text \<open>The block that each hit executes, after the lookup and a possible write of a flag.\<close>

lemma hit_block_ok:
  assumes "sub_ok c" "table c i = Some x" "md y = md x \<or> md y = (md x)\<lparr>m_staginghit := True\<rparr>"
    "obj_size y = obj_size x" "sub_ok c1"
    "table c1 = (table c)(i \<mapsto> y)" "cache_size c1 = cache_size c" "length hs = 8"
  shows "\<exists>c' hs'. bump_freq c1 (Some i) hs = Inr (c', hs') \<and> touched c c' \<and> length hs' = 8 \<and>
     (\<forall>k < 8. hs' ! k - hs ! k = wsum (\<lambda>x. ind k (frq x)) (table c') - wsum (\<lambda>x. ind k (frq x)) (table c))"
proof -
  have y: "table c1 i = Some y" "frq y = frq x"
    using assms(3,6) by auto
  obtain c' hs' z where b: "bump_freq c1 (Some i) hs = Inr (c', hs')" "sub_ok c'" "table c' = (table c1)(i \<mapsto> z)"
      "obj_size z = obj_size y" "hot_shift hs hs' (frq y) (frq z)" "cache_size c' = cache_size c1"
    using bump_freq_ok [OF assms(5) y(1) assms(8)] by blast
  have t: "table c' = (table c)(i \<mapsto> z)"
    using b(3) assms(6) by simp
  have "touched c c'"
    by (rule table_update_occ [OF assms(1) b(2) assms(2) t]) (use b assms in auto)
  then show ?thesis
    using b(1,5) y(2) table_update_sum [OF assms(1,2) t] assms(8)
    by (intro exI [of _ c'] exI [of _ hs']) (simp add: hot_shift_def)
qed

text \<open>What a lookup does to the whole state.\<close>

definition looked_up :: "merlin_params \<Rightarrow> merlin_params \<Rightarrow> bool" where
  "looked_up P P' \<longleftrightarrow> merlin_ok P' \<and> (hot_exact P \<longrightarrow> hot_exact P') \<and> guard_freq P' = guard_freq P \<and>
     filter_limit P' = filter_limit P \<and> staging_limit P' = staging_limit P \<and>
     core_limit P' = core_limit P \<and> ghost_limit P' = ghost_limit P \<and>
     touched (filter P) (filter P') \<and> touched (staging P) (staging P') \<and>
     touched (core P) (core P') \<and> touched (ghost P) (ghost P')"

lemma looked_upI:
  assumes "merlin_ok P" "touched (filter P) f" "touched (staging P) s" "touched (core P) c" "touched (ghost P) g"
    "length hs = 8"
    "\<And>k. k < 8 \<Longrightarrow> hs ! k - hotdistribution P ! k =
       wsum (\<lambda>x. ind k (frq x)) (table f) - wsum (\<lambda>x. ind k (frq x)) (table (filter P)) +
       (wsum (\<lambda>x. ind k (frq x)) (table s) - wsum (\<lambda>x. ind k (frq x)) (table (staging P))) +
       (wsum (\<lambda>x. ind k (frq x)) (table c) - wsum (\<lambda>x. ind k (frq x)) (table (core P))) +
       (wsum (\<lambda>x. ind k (frq x)) (table g) - wsum (\<lambda>x. ind k (frq x)) (table (ghost P)))"
    "filter P' = f" "staging P' = s" "core P' = c" "ghost P' = g" "hotdistribution P' = hs"
    "guard_freq P' = guard_freq P" "sketch P' = sketch P"
    "filter_limit P' = filter_limit P" "staging_limit P' = staging_limit P" "core_limit P' = core_limit P"
    "ghost_limit P' = ghost_limit P" "hit_on_ghost P' \<longrightarrow> 0 \<le> ghost_freq P' \<and> ghost_freq P' \<le> MAXFREQ"
  shows "looked_up P P'"
proof -
  have d: "dom (table f) = dom (table (filter P))" "dom (table s) = dom (table (staging P))"
      "dom (table c) = dom (table (core P))" "dom (table g) = dom (table (ghost P))"
    using assms(2-5) by (auto simp: touched_def)
  have "disjoint_queues P'"
    using assms(1,8-11) d unfolding merlin_ok_def disjoint_queues_def domIff [symmetric] by (metis domIff)
  then have "merlin_ok P'"
    using assms(1-6,8-14,19) by (auto simp: merlin_ok_def touched_def)
  moreover have "hot_exact P \<longrightarrow> hot_exact P'"
    using assms(6,7,8-12) merlin_ok_queues(5) [OF assms(1)]
    by (auto simp: hot_exact_def hot_total_def)
  ultimately show ?thesis
    using assms by (simp add: looked_up_def)
qed

lemma find_filter_ok:
  assumes "merlin_ok P" "table (filter P) (r_obj_id req) = Some x"
  shows "\<exists>P'. merlin_find P req True = Inr (Some (r_obj_id req), P') \<and> looked_up P P'"
proof -
  note ok = merlin_ok_queues [OF assms(1)]
  obtain c1 y where f: "FIFO_find (filter P) req True = (Some (r_obj_id req), c1)" "sub_ok c1"
      "table c1 = (table (filter P))(r_obj_id req \<mapsto> y)" "md y = md x" "obj_size y = obj_size x"
      "cache_size c1 = cache_size (filter P)"
    using FIFO_find_hit [OF ok(1) assms(2)] by blast
  obtain c' hs where b: "bump_freq c1 (Some (r_obj_id req)) (hotdistribution P) = Inr (c', hs)"
      "touched (filter P) c'" "length hs = 8"
      "\<forall>k < 8. hs ! k - hotdistribution P ! k =
         wsum (\<lambda>x. ind k (frq x)) (table c') - wsum (\<lambda>x. ind k (frq x)) (table (filter P))"
    using hit_block_ok [OF ok(1) assms(2) _ f(5,2,3,6) ok(5)] f(4) by blast
  let ?P = "P\<lparr>timer := timer P + 1, filter_hitnum := filter_hitnum P + 1, filter := c', hotdistribution := hs, seq_miss := 0\<rparr>"
  have "merlin_find P req True = Inr (Some (r_obj_id req), ?P)"
    using f(1) b(1) by (simp add: merlin_find_def Let_def)
  moreover have "looked_up P ?P"
    by (rule looked_upI [OF assms(1) b(2) touched_refl [OF ok(2)] touched_refl [OF ok(3)] touched_refl [OF ok(4)] b(3)])
      (use b(4) assms(1) in \<open>simp_all add: merlin_ok_def\<close>)
  ultimately show ?thesis by blast
qed

lemma find_staging_ok:
  assumes "merlin_ok P" "table (filter P) (r_obj_id req) = None" "table (staging P) (r_obj_id req) = Some x"
  shows "\<exists>P'. merlin_find P req True = Inr (Some (r_obj_id req), P') \<and> looked_up P P'"
proof -
  note ok = merlin_ok_queues [OF assms(1)]
  obtain c0 y where f: "FIFO_find (staging P) req True = (Some (r_obj_id req), c0)" "sub_ok c0"
      "table c0 = (table (staging P))(r_obj_id req \<mapsto> y)" "md y = md x" "obj_size y = obj_size x"
      "cache_size c0 = cache_size (staging P)"
    using FIFO_find_hit [OF ok(2) assms(3)] by blast
  let ?z = "y\<lparr>md := (md y)\<lparr>m_staginghit := True\<rparr>\<rparr>"
  have fr: "0 \<le> frq x" "frq x \<le> MAXFREQ"
    using sub_ok_obj [OF ok(2) assms(3)] by auto
  obtain c1 where s: "set_md c0 (Some (r_obj_id req)) (\<lambda>m. m\<lparr>m_staginghit := True\<rparr>) = Inr c1" "sub_ok c1"
      "table c1 = (table (staging P))(r_obj_id req \<mapsto> ?z)" "cache_size c1 = cache_size (staging P)"
    using set_md_ok [OF f(2), of "r_obj_id req" y "\<lambda>m. m\<lparr>m_staginghit := True\<rparr>"] f(3,4,6) fr by auto
  obtain c' hs where b: "bump_freq c1 (Some (r_obj_id req)) (hotdistribution P) = Inr (c', hs)"
      "touched (staging P) c'" "length hs = 8"
      "\<forall>k < 8. hs ! k - hotdistribution P ! k =
         wsum (\<lambda>x. ind k (frq x)) (table c') - wsum (\<lambda>x. ind k (frq x)) (table (staging P))"
    using hit_block_ok [OF ok(2) assms(3) _ _ s(2,3,4) ok(5)] f(4,5) by auto
  let ?P = "P\<lparr>timer := timer P + 1, staging_hitnum := staging_hitnum P + 1, staging := c', hotdistribution := hs, seq_miss := 0\<rparr>"
  have "merlin_find P req True = Inr (Some (r_obj_id req), ?P)"
    using f(1) s(1) b(1) assms(2) by (simp add: merlin_find_def Let_def FIFO_find_miss)
  moreover have "looked_up P ?P"
    by (rule looked_upI [OF assms(1) touched_refl [OF ok(1)] b(2) touched_refl [OF ok(3)] touched_refl [OF ok(4)] b(3)])
      (use b(4) assms(1) in \<open>simp_all add: merlin_ok_def\<close>)
  ultimately show ?thesis by blast
qed

lemma find_core_ok:
  assumes "merlin_ok P" "table (filter P) (r_obj_id req) = None" "table (staging P) (r_obj_id req) = None"
    "table (core P) (r_obj_id req) = Some x"
  shows "\<exists>P'. merlin_find P req True = Inr (Some (r_obj_id req), P') \<and> looked_up P P'"
proof -
  note ok = merlin_ok_queues [OF assms(1)]
  obtain c1 y where f: "FIFO_find (core P) req True = (Some (r_obj_id req), c1)" "sub_ok c1"
      "table c1 = (table (core P))(r_obj_id req \<mapsto> y)" "md y = md x" "obj_size y = obj_size x"
      "cache_size c1 = cache_size (core P)"
    using FIFO_find_hit [OF ok(3) assms(4)] by blast
  obtain c' hs where b: "bump_freq c1 (Some (r_obj_id req)) (hotdistribution P) = Inr (c', hs)"
      "touched (core P) c'" "length hs = 8"
      "\<forall>k < 8. hs ! k - hotdistribution P ! k =
         wsum (\<lambda>x. ind k (frq x)) (table c') - wsum (\<lambda>x. ind k (frq x)) (table (core P))"
    using hit_block_ok [OF ok(3) assms(4) _ f(5,2,3,6) ok(5)] f(4) by blast
  let ?P = "P\<lparr>timer := timer P + 1, core_hitnum := core_hitnum P + 1, core := c', hotdistribution := hs, seq_miss := 0\<rparr>"
  have "merlin_find P req True = Inr (Some (r_obj_id req), ?P)"
    using f(1) b(1) assms(2,3) by (simp add: merlin_find_def Let_def FIFO_find_miss)
  moreover have "looked_up P ?P"
    by (rule looked_upI [OF assms(1) touched_refl [OF ok(1)] touched_refl [OF ok(2)] b(2) touched_refl [OF ok(4)] b(3)])
      (use b(4) assms(1) in \<open>simp_all add: merlin_ok_def\<close>)
  ultimately show ?thesis by blast
qed

text \<open>A miss: the flags then say whether the ghost queue knows the object.\<close>

lemma find_miss_ok:
  assumes "merlin_ok P" "r_obj_id req \<notin> merlin_keys P"
  shows "\<exists>P'. merlin_find P req True = Inr (None, P') \<and> looked_up P P' \<and>
     (case table (ghost P') (r_obj_id req) of
        None \<Rightarrow> hit_on_ghost P' = hit_on_ghost P \<and> move_to_core P' = move_to_core P \<and> ghost_freq P' = ghost_freq P
      | Some x \<Rightarrow> hit_on_ghost P' \<and> ghost_freq P' = frq x \<and>
                  (move_to_core P' \<longleftrightarrow> move_to_core P \<or> guard_freq P \<le> frq x))"
proof -
  note ok = merlin_ok_queues [OF assms(1)]
  have n: "table (filter P) (r_obj_id req) = None" "table (staging P) (r_obj_id req) = None"
      "table (core P) (r_obj_id req) = None"
    using assms(2) by (auto simp: merlin_keys_def)
  let ?T = "P\<lparr>timer := timer P + 1\<rparr>"
  have e: "merlin_find P req True = bindE (find_in_ghost ?T req) (\<lambda>P. Inr (None, P\<lparr>seq_miss := seq_miss P + 1\<rparr>))"
    using n by (simp add: merlin_find_def Let_def FIFO_find_miss)
  show ?thesis
  proof (cases "table (ghost P) (r_obj_id req)")
    case None
    then have "merlin_find P req True = Inr (None, ?T\<lparr>seq_miss := seq_miss P + 1\<rparr>)"
      using e by (simp add: find_in_ghost_def FIFO_find_miss)
    moreover have "looked_up P (?T\<lparr>seq_miss := seq_miss P + 1\<rparr>)"
      by (rule looked_upI [OF assms(1) touched_refl [OF ok(1)] touched_refl [OF ok(2)] touched_refl [OF ok(3)]
            touched_refl [OF ok(4)] ok(5)])
        (use assms(1) in \<open>simp_all add: merlin_ok_def\<close>)
    ultimately show ?thesis
      using None by auto
  next
    case (Some x)
    have g: "FIFO_find (ghost P) req False = (Some (r_obj_id req), ghost P)"
      using Some by (simp add: FIFO_find_False domIff)
    obtain c' hs where b: "bump_freq (ghost P) (Some (r_obj_id req)) (hotdistribution P) = Inr (c', hs)"
        "touched (ghost P) c'" "length hs = 8"
        "\<forall>k < 8. hs ! k - hotdistribution P ! k =
           wsum (\<lambda>x. ind k (frq x)) (table c') - wsum (\<lambda>x. ind k (frq x)) (table (ghost P))"
      using hit_block_ok [OF ok(4) Some _ _ ok(4) _ _ ok(5), of x] Some by (auto simp: fun_upd_idem)
    obtain y where y: "table c' (r_obj_id req) = Some y"
      using b(2) Some by (auto simp: touched_def)
    have fr: "0 \<le> frq y" "frq y \<le> MAXFREQ"
      using b(2) y sub_ok_obj [of c'] by (auto simp: touched_def)
    let ?P = "?T\<lparr>ghost_hitnum := ghost_hitnum P + 1, ghost := c', hotdistribution := hs,
       hit_on_ghost := True, ghost_freq := frq y, move_to_core := (move_to_core P \<or> guard_freq P \<le> frq y),
       seq_miss := seq_miss P + 1\<rparr>"
    have "merlin_find P req True = Inr (None, ?P)"
      using e g b(1) y by (cases "guard_freq P \<le> frq y") (simp_all add: find_in_ghost_def deref_def Let_def)
    moreover have "looked_up P ?P"
      by (rule looked_upI [OF assms(1) touched_refl [OF ok(1)] touched_refl [OF ok(2)] touched_refl [OF ok(3)] b(2,3)])
        (use b(4) assms(1) fr in \<open>simp_all add: merlin_ok_def\<close>)
    ultimately show ?thesis
      using y by auto
  qed
qed

section \<open>Insertion\<close>

definition placed :: "merlin_params \<Rightarrow> request \<Rightarrow> merlin_params \<Rightarrow> bool" where
  "placed P req P' \<longleftrightarrow> merlin_ok P' \<and> merlin_keys P' = insert (r_obj_id req) (merlin_keys P) \<and>
     real_sum obj_size P' = real_sum obj_size P + r_obj_size req \<and> guard_freq P' = guard_freq P \<and>
     filter_limit P' = filter_limit P \<and> staging_limit P' = staging_limit P \<and>
     core_limit P' = core_limit P \<and> ghost_limit P' = ghost_limit P \<and>
     cache_size (filter P') = cache_size (filter P) \<and> occ (ghost P') \<le> occ (ghost P)"

text \<open>A new object enters one of the queues with frequency 0.\<close>

lemma new_entry_ok:
  assumes "sub_ok c" "table c (r_obj_id req) = None" "0 < r_obj_size req" "r_obj_size req < 2 ^ 32"
    "0 \<le> m_freq (f 0)" "m_freq (f 0) \<le> MAXFREQ"
  shows "\<exists>c'. insert_with c req f = Inr c' \<and> sub_ok c' \<and> dom (table c') = insert (r_obj_id req) (dom (table c)) \<and>
     wsum obj_size (table c') = wsum obj_size (table c) + r_obj_size req \<and>
     (\<forall>k. wsum (\<lambda>x. ind k (frq x)) (table c') = wsum (\<lambda>x. ind k (frq x)) (table c) + ind k (m_freq (f 0))) \<and>
     cache_size c' = cache_size c"
proof -
  obtain c' where c: "insert_with c req f = Inr c'" "sub_ok c'"
      "table c' = (table c)(r_obj_id req \<mapsto> (new_obj req)\<lparr>md := f 0\<rparr>)" "cache_size c' = cache_size c"
    using insert_with_ok [where f = f, OF assms] by blast
  have "obj_size (new_obj req) = r_obj_size req"
    using assms(3,4) by (simp add: new_obj_def to_u32_id create_cache_obj_from_request_def copy_request_to_cache_obj_def)
  then show ?thesis
    using c table_insert_sum [OF assms(1,2) c(3)] by auto
qed

lemma hot_new_exact:
  assumes "length (hotdistribution P) = 8"
  shows "\<exists>hs. hot_new P = Inr (P\<lparr>hotdistribution := hs\<rparr>) \<and> length hs = 8 \<and>
     (\<forall>k < 8. hs ! k = hotdistribution P ! k + ind k 0)"
  using hot_new_ok [OF assms] assms by (auto simp: hot_shift_def ind_def)

lemma merlin_insert_warm:
  assumes "merlin_ok P" "r_obj_id req \<notin> merlin_keys P" "0 < r_obj_size req" "r_obj_size req < 2 ^ 32"
    "occ (staging P) = 0" "occ (filter P) = 0"
  shows "\<exists>P'. merlin_insert P req = Inr (Some (r_obj_id req), P') \<and> placed P req P' \<and> (hot_exact P \<longrightarrow> hot_exact P')"
proof -
  note ok = merlin_ok_queues [OF assms(1)]
  have n: "table (filter P) (r_obj_id req) = None" "table (staging P) (r_obj_id req) = None"
      "table (core P) (r_obj_id req) = None"
    using assms(2) by (auto simp: merlin_keys_def)
  let ?f = "\<lambda>m :: merlin_md. m\<lparr>m_freq := 0\<rparr>"
  obtain c where c: "insert_with (core P) req ?f = Inr c" "sub_ok c"
      "dom (table c) = insert (r_obj_id req) (dom (table (core P)))"
      "wsum obj_size (table c) = wsum obj_size (table (core P)) + r_obj_size req"
      "\<forall>k. wsum (\<lambda>x. ind k (frq x)) (table c) = wsum (\<lambda>x. ind k (frq x)) (table (core P)) + ind k 0"
    using new_entry_ok [OF ok(3) n(3) assms(3,4), of ?f] by (auto simp: MAXFREQ_def)
  let ?Q = "P\<lparr>core := c, n_byte_admit_to_core := n_byte_admit_to_core P + stored_size req\<rparr>"
  obtain hs where hs: "hot_new ?Q = Inr (?Q\<lparr>hotdistribution := hs\<rparr>)" "length hs = 8"
      "\<forall>k < 8. hs ! k = hotdistribution P ! k + ind k 0"
    using hot_new_exact [of ?Q] ok(5) by auto
  let ?P = "?Q\<lparr>hotdistribution := hs\<rparr>"
  have "merlin_insert P req = Inr (Some (r_obj_id req), ?P)"
    using assms(5,6) c(1) hs(1) by (simp add: merlin_insert_def)
  moreover have "table c i = None \<longleftrightarrow> i \<noteq> r_obj_id req \<and> table (core P) i = None" for i
    using c(3) by (metis domIff insert_iff)
  then have "disjoint_queues ?P"
    using assms(1) n by (auto simp: merlin_ok_def disjoint_queues_def)
  then have "merlin_ok ?P"
    using assms(1) c(2) hs(2) by (simp add: merlin_ok_def)
  moreover have "hot_exact P \<longrightarrow> hot_exact ?P"
    using c(5) hs(2,3) ok(5) by (simp add: hot_exact_def hot_total_def)
  ultimately show ?thesis
    using c(3,4) by (intro exI [of _ ?P]) (auto simp: placed_def merlin_keys_def real_sum_def)
qed

lemma merlin_insert_filter:
  assumes "merlin_ok P" "r_obj_id req \<notin> merlin_keys P" "0 < r_obj_size req" "r_obj_size req < 2 ^ 32"
    "\<not> (occ (staging P) = 0 \<and> occ (filter P) = 0)" "\<not> hit_on_ghost P" "table (ghost P) (r_obj_id req) = None"
  shows "\<exists>P'. merlin_insert P req = Inr (Some (r_obj_id req), P') \<and> placed P req P' \<and> (hot_exact P \<longrightarrow> hot_exact P')"
proof -
  note ok = merlin_ok_queues [OF assms(1)]
  have n: "table (filter P) (r_obj_id req) = None" "table (staging P) (r_obj_id req) = None"
      "table (core P) (r_obj_id req) = None"
    using assms(2) by (auto simp: merlin_keys_def)
  let ?f = "\<lambda>m :: merlin_md. m\<lparr>m_freq := 0\<rparr>"
  obtain c where c: "insert_with (filter P) req ?f = Inr c" "sub_ok c"
      "dom (table c) = insert (r_obj_id req) (dom (table (filter P)))"
      "wsum obj_size (table c) = wsum obj_size (table (filter P)) + r_obj_size req"
      "\<forall>k. wsum (\<lambda>x. ind k (frq x)) (table c) = wsum (\<lambda>x. ind k (frq x)) (table (filter P)) + ind k 0"
      "cache_size c = cache_size (filter P)"
    using new_entry_ok [OF ok(1) n(1) assms(3,4), of ?f] by (auto simp: MAXFREQ_def)
  let ?Q = "P\<lparr>filter := c\<rparr>"
  obtain hs where hs: "hot_new ?Q = Inr (?Q\<lparr>hotdistribution := hs\<rparr>)" "length hs = 8"
      "\<forall>k < 8. hs ! k = hotdistribution P ! k + ind k 0"
    using hot_new_exact [of ?Q] ok(5) by auto
  let ?P = "?Q\<lparr>hotdistribution := hs\<rparr>"
  have "merlin_insert P req = Inr (Some (r_obj_id req), ?P)"
    using assms(5,6) c(1) hs(1) by (auto simp: merlin_insert_def)
  moreover have "table c i = None \<longleftrightarrow> i \<noteq> r_obj_id req \<and> table (filter P) i = None" for i
    using c(3) by (metis domIff insert_iff)
  then have "disjoint_queues ?P"
    using assms(1,7) n by (auto simp: merlin_ok_def disjoint_queues_def)
  then have "merlin_ok ?P"
    using assms(1) c(2) hs(2) by (simp add: merlin_ok_def)
  moreover have "hot_exact P \<longrightarrow> hot_exact ?P"
    using c(5) hs(2,3) ok(5) by (simp add: hot_exact_def hot_total_def)
  ultimately show ?thesis
    using c(3,4,6) by (intro exI [of _ ?P]) (auto simp: placed_def merlin_keys_def real_sum_def)
qed

lemma merlin_insert_staging:
  assumes "merlin_ok P" "r_obj_id req \<notin> merlin_keys P" "0 < r_obj_size req" "r_obj_size req < 2 ^ 32"
    "\<not> (occ (staging P) = 0 \<and> occ (filter P) = 0)" "hit_on_ghost P" "\<not> move_to_core P"
  shows "\<exists>P'. merlin_insert P req = Inr (Some (r_obj_id req), P') \<and> placed P req P' \<and> (hot_exact P \<longrightarrow> hot_exact P')"
proof -
  note ok = merlin_ok_queues [OF assms(1)]
  have n: "table (filter P) (r_obj_id req) = None" "table (staging P) (r_obj_id req) = None"
      "table (core P) (r_obj_id req) = None"
    using assms(2) by (auto simp: merlin_keys_def)
  let ?f = "\<lambda>m :: merlin_md. m\<lparr>m_freq := 0, m_inghost := True\<rparr>"
  let ?T = "P\<lparr>hit_on_ghost := False, ghost2staging := ghost2staging P + 1\<rparr>"
  have "merlin_ok ?T"
    using assms(1) by (simp add: merlin_ok_def disjoint_queues_def)
  then obtain C where C: "note_in_sketch ?T (r_obj_id req) = Inr (?T\<lparr>sketch := C\<rparr>)" "cbf_wf C"
    using note_in_sketch_ok by blast
  obtain c where c: "insert_with (staging P) req ?f = Inr c" "sub_ok c"
      "dom (table c) = insert (r_obj_id req) (dom (table (staging P)))"
      "wsum obj_size (table c) = wsum obj_size (table (staging P)) + r_obj_size req"
      "\<forall>k. wsum (\<lambda>x. ind k (frq x)) (table c) = wsum (\<lambda>x. ind k (frq x)) (table (staging P)) + ind k 0"
    using new_entry_ok [OF ok(2) n(2) assms(3,4), of ?f] by (auto simp: MAXFREQ_def)
  let ?Q = "?T\<lparr>sketch := C, staging := c, n_byte_admit_to_core := n_byte_admit_to_core P + stored_size req\<rparr>"
  obtain hs where hs: "hot_new ?Q = Inr (?Q\<lparr>hotdistribution := hs\<rparr>)" "length hs = 8"
      "\<forall>k < 8. hs ! k = hotdistribution P ! k + ind k 0"
    using hot_new_exact [of ?Q] ok(5) by auto
  let ?P = "?Q\<lparr>hotdistribution := hs\<rparr>"
  have "merlin_insert P req = Inr (Some (r_obj_id req), ?P)"
    using assms(5-7) C(1) c(1) hs(1) by (auto simp: merlin_insert_def Let_def)
  moreover have "table c i = None \<longleftrightarrow> i \<noteq> r_obj_id req \<and> table (staging P) i = None" for i
    using c(3) by (metis domIff insert_iff)
  then have "disjoint_queues ?P"
    using assms(1) n by (auto simp: merlin_ok_def disjoint_queues_def)
  then have "merlin_ok ?P"
    using assms(1) c(2) hs(2) C(2) by (simp add: merlin_ok_def)
  moreover have "hot_exact P \<longrightarrow> hot_exact ?P"
    using c(5) hs(2,3) ok(5) by (simp add: hot_exact_def hot_total_def)
  ultimately show ?thesis
    using c(3,4) by (intro exI [of _ ?P]) (auto simp: placed_def merlin_keys_def real_sum_def)
qed

text \<open>
  An object the ghost queue promotes goes to core with the remembered frequency, and its ghost entry
  is dropped without touching the histogram: the histogram stays exact only if the entry is still there.
\<close>

lemma merlin_insert_core:
  assumes "merlin_ok P" "r_obj_id req \<notin> merlin_keys P" "0 < r_obj_size req" "r_obj_size req < 2 ^ 32"
    "\<not> (occ (staging P) = 0 \<and> occ (filter P) = 0)" "hit_on_ghost P" "move_to_core P"
  shows "\<exists>P'. merlin_insert P req = Inr (Some (r_obj_id req), P') \<and> placed P req P' \<and>
     hotdistribution P' = hotdistribution P \<and>
     (\<forall>k. hot_total P' k = hot_total P k + ind k (ghost_freq P) -
        (case table (ghost P) (r_obj_id req) of None \<Rightarrow> 0 | Some x \<Rightarrow> ind k (frq x)))"
proof -
  note ok = merlin_ok_queues [OF assms(1)]
  have n: "table (filter P) (r_obj_id req) = None" "table (staging P) (r_obj_id req) = None"
      "table (core P) (r_obj_id req) = None"
    using assms(2) by (auto simp: merlin_keys_def)
  have gf: "0 \<le> ghost_freq P" "ghost_freq P \<le> MAXFREQ"
    using assms(1,6) by (auto simp: merlin_ok_def)
  let ?f = "\<lambda>m :: merlin_md. m\<lparr>m_freq := ghost_freq P\<rparr>"
  obtain c where c: "insert_with (core P) req ?f = Inr c" "sub_ok c"
      "dom (table c) = insert (r_obj_id req) (dom (table (core P)))"
      "wsum obj_size (table c) = wsum obj_size (table (core P)) + r_obj_size req"
      "\<forall>k. wsum (\<lambda>x. ind k (frq x)) (table c) = wsum (\<lambda>x. ind k (frq x)) (table (core P)) + ind k (ghost_freq P)"
    using new_entry_ok [OF ok(3) n(3) assms(3,4), of ?f] gf by auto
  obtain b g where g: "FIFO_remove (ghost P) (r_obj_id req) = Inr (b, g)" "sub_ok g"
      "table g = (table (ghost P))(r_obj_id req := None)"
    using FIFO_remove_ok [OF ok(4), of "r_obj_id req"] FIFO_remove_none [of "ghost P" "r_obj_id req"] ok(4)
    by (cases "table (ghost P) (r_obj_id req)") (auto simp: fun_upd_idem)
  have gs: "wsum h (table g) = wsum h (table (ghost P)) -
      (case table (ghost P) (r_obj_id req) of None \<Rightarrow> 0 | Some x \<Rightarrow> h x)" for h
    using table_remove_sum [OF ok(4) _ g(3), of _ h] g(3)
    by (cases "table (ghost P) (r_obj_id req)") (simp_all add: fun_upd_idem)
  let ?P = "P\<lparr>hit_on_ghost := False, ghost2core := ghost2core P + 1, move_to_core := False, core := c, ghost := g\<rparr>"
  have "merlin_insert P req = Inr (Some (r_obj_id req), ?P)"
    using assms(5-7) c(1) g(1) by (auto simp: merlin_insert_def Let_def)
  moreover have "table c i = None \<longleftrightarrow> i \<noteq> r_obj_id req \<and> table (core P) i = None" for i
    using c(3) by (metis domIff insert_iff)
  then have "disjoint_queues ?P"
    using assms(1) n g(3) by (auto simp: merlin_ok_def disjoint_queues_def)
  then have "merlin_ok ?P"
    using assms(1) c(2) g(2) by (simp add: merlin_ok_def)
  moreover have "occ g \<le> occ (ghost P)"
    by (rule occ_remove_le [OF ok(4) g(2,3)])
  ultimately show ?thesis
    using c(3-5) gs by (intro exI [of _ ?P]) (auto simp: placed_def merlin_keys_def real_sum_def hot_total_def)
qed

text \<open>All the cases together.\<close>

lemma merlin_insert_ok:
  assumes "merlin_ok P" "r_obj_id req \<notin> merlin_keys P" "0 < r_obj_size req" "r_obj_size req < 2 ^ 32"
    "table (ghost P) (r_obj_id req) \<noteq> None \<longrightarrow> hit_on_ghost P"
  shows "\<exists>P'. merlin_insert P req = Inr (Some (r_obj_id req), P') \<and> placed P req P' \<and>
     ((hit_on_ghost P \<and> move_to_core P \<longrightarrow>
         (\<exists>x. table (ghost P) (r_obj_id req) = Some x \<and> frq x = ghost_freq P)) \<longrightarrow>
      hot_exact P \<longrightarrow> hot_exact P')"
proof (cases "occ (staging P) = 0 \<and> occ (filter P) = 0")
  case True
  then show ?thesis using merlin_insert_warm [OF assms(1-4)] by blast
next
  case warm: False
  consider "\<not> hit_on_ghost P" | "hit_on_ghost P" "\<not> move_to_core P" | "hit_on_ghost P" "move_to_core P"
    by blast
  then show ?thesis
  proof cases
    case 1
    then show ?thesis using merlin_insert_filter [OF assms(1-4) warm] assms(5) by blast
  next
    case 2
    then show ?thesis using merlin_insert_staging [OF assms(1-4) warm] by blast
  next
    case 3
    obtain P' where p: "merlin_insert P req = Inr (Some (r_obj_id req), P')" "placed P req P'"
        "hotdistribution P' = hotdistribution P"
        "\<And>k. hot_total P' k = hot_total P k + ind k (ghost_freq P) -
          (case table (ghost P) (r_obj_id req) of None \<Rightarrow> 0 | Some x \<Rightarrow> ind k (frq x))"
      using merlin_insert_core [OF assms(1-4) warm 3] by blast
    have "hot_exact P \<longrightarrow> hot_exact P'" if "table (ghost P) (r_obj_id req) = Some x" "frq x = ghost_freq P" for x
      using that p(3,4) by (simp add: hot_exact_def)
    then show ?thesis using p(1,2) 3 by blast
  qed
qed

section \<open>Merlin as an eviction algorithm\<close>

definition merlin_inv :: "merlin_cache \<Rightarrow> bool" where
  "merlin_inv c \<longleftrightarrow> (let P = eviction_params c in merlin_ok P \<and> limits_ok P (cache_size c) \<and> obj_md_size c = 0 \<and>
     merlin_get_occupied_byte P \<le> cache_size c \<and> occ (ghost P) \<le> ghost_limit P)"

definition merlin_req_ok :: "request \<Rightarrow> bool" where
  "merlin_req_ok req \<longleftrightarrow> 0 < r_obj_size req \<and> r_obj_size req < 2 ^ 32"

definition cached :: "merlin_cache \<Rightarrow> obj_id set" where
  "cached c = merlin_keys (eviction_params c)"

definition ghost_noted :: "merlin_cache \<Rightarrow> request \<Rightarrow> bool" where
  "ghost_noted c req \<longleftrightarrow> (table (ghost (eviction_params c)) (r_obj_id req) \<noteq> None \<longrightarrow> hit_on_ghost (eviction_params c))"

lemma looked_up_cached:
  assumes "merlin_inv c" "looked_up (eviction_params c) P"
  shows "merlin_inv (c\<lparr>eviction_params := P\<rparr>)" "merlin_keys P = cached c"
    "merlin_get_occupied_byte P = merlin_get_occupied_byte (eviction_params c)"
    "cache_size (filter P) = cache_size (filter (eviction_params c))"
  using assms
  by (auto simp: merlin_inv_def Let_def looked_up_def touched_def limits_ok_def cached_def merlin_keys_def
      merlin_get_occupied_byte_def)

lemma merlin_find_law:
  assumes "merlin_inv c"
  shows "\<exists>P. merlin_find (eviction_params c) req True =
       Inr (if r_obj_id req \<in> cached c then Some (r_obj_id req) else None, P) \<and>
     looked_up (eviction_params c) P \<and> (r_obj_id req \<notin> cached c \<longrightarrow> ghost_noted (c\<lparr>eviction_params := P\<rparr>) req)"
proof -
  let ?P = "eviction_params c"
  have ok: "merlin_ok ?P"
    using assms by (simp add: merlin_inv_def Let_def)
  show ?thesis
  proof (cases "r_obj_id req \<in> cached c")
    case True
    then obtain P' where "merlin_find ?P req True = Inr (Some (r_obj_id req), P')" "looked_up ?P P'"
      using find_filter_ok [OF ok, of req] find_staging_ok [OF ok, of req] find_core_ok [OF ok, of req]
      by (cases "table (filter ?P) (r_obj_id req)"; cases "table (staging ?P) (r_obj_id req)")
        (auto simp: cached_def merlin_keys_def)
    with True show ?thesis by auto
  next
    case False
    then show ?thesis
      using find_miss_ok [OF ok, of req] by (auto simp: cached_def ghost_noted_def split: option.splits)
  qed
qed

lemma merlin_evict_law:
  assumes "merlin_inv c" "merlin_req_ok req" "ghost_noted c req" "r_obj_size req \<le> filter_limit (eviction_params c)"
    "r_obj_id req \<notin> cached c"
    "cache_size c < merlin_get_occupied_byte (eviction_params c) + r_obj_size req"
  shows "if guard_overflow (eviction_params c)
     then merlin_evict stale (eviction_params c) req = Some (Inl OutOfBounds)
     else (\<exists>P. merlin_evict stale (eviction_params c) req = Some (Inr P) \<and> evicted (eviction_params c) req P \<and>
       merlin_inv (c\<lparr>eviction_params := P\<rparr>) \<and> ghost_noted (c\<lparr>eviction_params := P\<rparr>) req)"
proof -
  let ?P = "eviction_params c"
  have i: "merlin_ok ?P" "limits_ok ?P (cache_size c)" "obj_md_size c = 0"
      "merlin_get_occupied_byte ?P \<le> cache_size c" "occ (ghost ?P) \<le> ghost_limit ?P"
    using assms(1) by (simp_all add: merlin_inv_def Let_def)
  have r: "0 < r_obj_size req"
    using assms(2) by (simp add: merlin_req_ok_def)
  have "merlin_inv (c\<lparr>eviction_params := P\<rparr>) \<and> ghost_noted (c\<lparr>eviction_params := P\<rparr>) req" if e: "evicted ?P req P" for P
  proof -
    have f: "fixed P = fixed ?P" "dom (table (ghost P)) \<subseteq> dom (table (ghost ?P)) \<union> merlin_keys ?P"
      using e by (auto simp: evicted_def)
    then have "limits_ok P (cache_size c)" "hit_on_ghost P = hit_on_ghost ?P" "ghost_limit P = ghost_limit ?P"
      using i(2) by (auto simp: limits_ok_def fixed_def)
    then show ?thesis
      using e i(3,4) f(2) assms(3,5)
      by (auto simp: merlin_inv_def Let_def evicted_def ghost_noted_def cached_def)
  qed
  then show ?thesis
    using merlin_evict_ok [OF i(1,2) r assms(4) i(4,5) assms(6), of stale] by (auto split: if_splits)
qed

lemma merlin_insert_law:
  assumes "merlin_inv c" "merlin_req_ok req" "ghost_noted c req" "r_obj_id req \<notin> cached c"
    "merlin_get_occupied_byte (eviction_params c) + r_obj_size req \<le> cache_size c"
  shows "\<exists>P. merlin_insert (eviction_params c) req = Inr (Some (r_obj_id req), P) \<and>
     merlin_inv (c\<lparr>eviction_params := P\<rparr>) \<and> merlin_keys P = insert (r_obj_id req) (cached c) \<and>
     merlin_get_occupied_byte P \<le> cache_size c"
proof -
  let ?P = "eviction_params c"
  have i: "merlin_ok ?P" "limits_ok ?P (cache_size c)" "obj_md_size c = 0" "occ (ghost ?P) \<le> ghost_limit ?P"
    using assms(1) by (simp_all add: merlin_inv_def Let_def)
  obtain P where p: "merlin_insert ?P req = Inr (Some (r_obj_id req), P)" "placed ?P req P"
    using merlin_insert_ok [OF i(1), of req] assms(2-4)
    by (auto simp: merlin_req_ok_def ghost_noted_def cached_def)
  have "merlin_ok P" "real_sum obj_size P = real_sum obj_size ?P + r_obj_size req"
    using p(2) by (auto simp: placed_def)
  then have "merlin_get_occupied_byte P \<le> cache_size c"
    using assms(5) i(1) by (simp add: occupied_real_sum)
  then show ?thesis
    using p i by (auto simp: merlin_inv_def Let_def placed_def limits_ok_def cached_def)
qed

interpretation merlin: eviction_algorithm
  "merlin_ops stale" merlin_inv cached "\<lambda>_. merlin_req_ok" "\<lambda>c. merlin_work (eviction_params c)"
  "\<lambda>c. merlin_can_insert (eviction_params c)" ghost_noted
  "\<lambda>c req. ghost_noted c req \<and> r_obj_size req \<le> filter_limit (eviction_params c)" "{OutOfBounds}" for stale
proof (unfold_locales, goal_cases)
  case (8 c req)
  then show ?case
    using merlin_find_law [OF 8, of req] looked_up_cached [OF 8]
    by (auto simp: merlin_ops_def on_params_def cached_def merlin_can_insert_def)
next
  case (9 c req)
  then show ?case
    by (auto simp: merlin_ops_def merlin_can_insert_def merlin_inv_def Let_def limits_ok_def)
next
  case (10 c req)
  then show ?case
    by (auto simp: merlin_can_insert_def merlin_inv_def Let_def limits_ok_def)
next
  case (11 c req)
  then have "obj_md_size c = 0"
    by (simp add: merlin_inv_def Let_def)
  then show ?case
    using merlin_evict_law [of c req stale] 11
    by (auto simp: merlin_ops_def evicted_def cached_def fixed_def split: if_splits)
next
  case (12 c req)
  then have "obj_md_size c = 0"
    by (simp add: merlin_inv_def Let_def)
  then show ?case
    using merlin_insert_law [of c req] 12
    by (auto simp: merlin_ops_def on_params_def cached_def)
next
  case (13 c)
  then show ?case
    using merlin_ok_queues [of "eviction_params c"]
    by (simp add: merlin_ops_def merlin_inv_def Let_def merlin_get_occupied_byte_def cached_def merlin_keys_def
        sub_ok_occ wsum_empty)
qed (simp_all add: merlin_inv_def Let_def cached_def merlin_ops_def merlin_req_ok_def)

end
