(* ===== verification/Merlin_Props.thy ===== *)
theory Merlin_Props
  imports Merlin_Cache
begin

text \<open>
  The properties of the Merlin cache: how it serves requests, what its operations do to the queues and
  to the frequency histogram, and the runs on which it goes wrong.
\<close>

section \<open>Initial states\<close>

lemma sub_ok_init [simp]: "sub_ok (FIFO_init p)"
proof -
  have "table (FIFO_init p :: merlin_md FIFO_cache) = Map.empty"
    by (simp add: FIFO_init_def cache_struct_init_def)
  then show ?thesis
    using FIFO_inv_init [of p, where 'a = merlin_md] by (simp add: sub_ok_def) (simp add: FIFO_init_def)
qed

lemma FIFO_init_simps [simp]:
  "table (FIFO_init p) = Map.empty" "q_list (FIFO_init p) = []" "occupied_byte (FIFO_init p) = 0"
  "n_obj (FIFO_init p) = 0" "cache_size (FIFO_init p) = to_i64 (cp_cache_size p)"
  "obj_md_size (FIFO_init p) = 0"
  by (simp_all add: FIFO_init_def cache_struct_init_def)

lemma wsum_Map_empty [simp]: "wsum g Map.empty = 0"
  by (simp add: wsum_def)

lemma to_i64_small: "0 \<le> x \<Longrightarrow> x < 2 ^ 62 \<Longrightarrow> to_i64 x = x"
  by (simp add: to_i64_def)

definition init_params_ok :: "common_cache_params \<Rightarrow> int \<Rightarrow> int \<Rightarrow> int \<Rightarrow> nat \<Rightarrow> nat \<Rightarrow> bool" where
  "init_params_ok ccp fb sb gb nh nc \<longleftrightarrow>
     max 1 fb + max 1 sb \<le> cp_cache_size ccp \<and> cp_cache_size ccp < 2 ^ 62 \<and> 0 \<le> gb \<and> gb < 2 ^ 62 \<and>
     0 < nc \<and> nc < 2 ^ 31 \<and> nh < 2 ^ 30"

lemma merlin_init_inv:
  assumes "init_params_ok ccp fb sb gb nh nc"
  shows "merlin_inv (merlin_init ccp fb sb gb eu nh nc j)"
    "hot_exact (eviction_params (merlin_init ccp fb sb gb eu nh nc j))"
    "cached (merlin_init ccp fb sb gb eu nh nc j) = {}"
proof -
  let ?P = "eviction_params (merlin_init ccp fb sb gb eu nh nc j)"
  have s: "0 \<le> cp_cache_size ccp - max 1 fb - max 1 sb" "cp_cache_size ccp < 2 ^ 62" "0 \<le> gb" "gb < 2 ^ 62"
      "max 1 fb < 2 ^ 62" "0 \<le> cp_cache_size ccp"
    using assms by (auto simp: init_params_ok_def)
  then have c: "to_u64 (cp_cache_size ccp - max 1 fb - max 1 sb) = cp_cache_size ccp - max 1 fb - max 1 sb"
    by (simp add: to_u64_def)
  have "merlin_ok ?P"
    using assms by (auto simp: merlin_init_def Let_def cache_struct_init_def merlin_ok_def disjoint_queues_def
        MAXFREQ_def minimalIncrementCBF_init_def cbf_wf_def init_params_ok_def)
  moreover have "limits_ok ?P (cp_cache_size ccp)"
    using s c by (auto simp: merlin_init_def Let_def cache_struct_init_def limits_ok_def to_i64_small)
  ultimately show "merlin_inv (merlin_init ccp fb sb gb eu nh nc j)"
    using s by (simp add: merlin_inv_def Let_def merlin_init_def cache_struct_init_def to_i64_small
        merlin_get_occupied_byte_def cache_get_occupied_byte_default_def)
  show "hot_exact ?P"
    by (simp add: hot_exact_def hot_total_def merlin_init_def Let_def cache_struct_init_def)
  show "cached (merlin_init ccp fb sb gb eu nh nc j) = {}"
    by (simp add: cached_def merlin_keys_def merlin_init_def Let_def cache_struct_init_def)
qed

definition example_merlin :: merlin_cache where
  "example_merlin = merlin_init (default_common_cache_params\<lparr>cp_cache_size := 10\<rparr>) 2 2 5 3 2 4 0"

lemma example_merlin_inv: "merlin_inv example_merlin" "hot_exact (eviction_params example_merlin)"
    "cached example_merlin = {}"
  unfolding example_merlin_def
  by (rule merlin_init_inv, simp add: init_params_ok_def default_common_cache_params_def)+

text \<open>A full cache of three bytes with one object in each real queue, for the examples below.\<close>

definition example_queue :: "obj_id \<Rightarrow> int \<Rightarrow> merlin_md FIFO_cache" where
  "example_queue i f =
     \<lparr>table = [i \<mapsto> (new_obj (example_req i 1))\<lparr>md := 0\<lparr>m_freq := f\<rparr>\<rparr>], n_obj = 1, occupied_byte = 1, n_req = 0,
      cache_size = 1, default_ttl = 0, obj_md_size = 0, admissioner = None, to_evict_candidate_gen_vtime = -1,
      eviction_params = \<lparr>queue = [i]\<rparr>\<rparr>"

definition example_state :: "int \<Rightarrow> int list \<Rightarrow> merlin_params" where
  "example_state f hs =
     (eviction_params (merlin_init (default_common_cache_params\<lparr>cp_cache_size := 3\<rparr>) 1 1 5 3 2 4 0))
       \<lparr>filter := example_queue 3 f, staging := example_queue 2 f, core := example_queue 1 f, hotdistribution := hs\<rparr>"

definition example_params :: merlin_params where
  "example_params = example_state 0 [3, 0, 0, 0, 0, 0, 0, 0]"

definition example_full :: "merlin_params \<Rightarrow> merlin_cache" where
  "example_full P =
     (merlin_init (default_common_cache_params\<lparr>cp_cache_size := 3\<rparr>) 1 1 5 3 2 4 0)\<lparr>eviction_params := P\<rparr>"

lemma zero_md [simp]: "m_freq 0 = 0" "m_inghost 0 = False" "m_staginghit 0 = False"
  by (simp_all add: zero_merlin_md_ext_def)

lemma example_queue_ok: "0 \<le> f \<Longrightarrow> f \<le> 7 \<Longrightarrow> sub_ok (example_queue i f)"
  by (simp add: example_queue_def sub_ok_def FIFO_inv_def cache_wf_def obj_in_range_def obj_ok_def obj_bytes_def
      MAXFREQ_def new_obj_def to_u32_def)

lemma example_queue_simps [simp]:
  "table (example_queue i f) = [i \<mapsto> (new_obj (example_req i 1))\<lparr>md := 0\<lparr>m_freq := f\<rparr>\<rparr>]" "occ (example_queue i f) = 1"
  "n_objs (example_queue i f) = 1" "cache_size (example_queue i f) = 1"
  by (simp_all add: example_queue_def cache_get_occupied_byte_default_def cache_get_n_obj_default_def)

lemma example_state_simps [simp]:
  "filter (example_state f hs) = example_queue 3 f" "staging (example_state f hs) = example_queue 2 f"
  "core (example_state f hs) = example_queue 1 f" "table (ghost (example_state f hs)) = Map.empty"
  "occ (ghost (example_state f hs)) = 0" "hotdistribution (example_state f hs) = hs"
  "guard_freq (example_state f hs) = 2" "filter_limit (example_state f hs) = 1"
  "hit_on_ghost (example_state f hs) = False"
  by (simp_all add: example_state_def merlin_init_def Let_def cache_struct_init_def cache_get_occupied_byte_default_def)

lemma example_state_ok:
  assumes "0 \<le> f" "f \<le> 7" "length hs = 8"
  shows "merlin_ok (example_state f hs)" "merlin_inv (example_full (example_state f hs))"
proof -
  have "cbf_wf (sketch (example_state f hs))" "sub_ok (ghost (example_state f hs))"
    by (simp_all add: example_state_def merlin_init_def Let_def cache_struct_init_def minimalIncrementCBF_init_def cbf_wf_def)
  then show ok: "merlin_ok (example_state f hs)"
    using assms by (simp add: merlin_ok_def example_queue_ok disjoint_queues_def MAXFREQ_def)
  then show "merlin_inv (example_full (example_state f hs))"
    by (simp add: merlin_inv_def example_full_def merlin_get_occupied_byte_def limits_ok_def)
      (simp add: example_state_def merlin_init_def Let_def cache_struct_init_def to_i64_def to_u64_def)
qed

lemma example_params_ok: "merlin_ok example_params"
  by (simp add: example_params_def example_state_ok)

lemma example_state_exact:
  assumes "length hs = 8" "\<And>k. k < 8 \<Longrightarrow> hs ! k = 3 * ind k f"
  shows "hot_exact (example_state f hs)"
proof -
  have "wsum g [i \<mapsto> x] = g x" for g i and x :: "merlin_md cache_obj"
    by (simp add: wsum_def)
  then show ?thesis
    using assms by (simp add: hot_exact_def hot_total_def)
qed

lemma filter_example_params: "filter_limit example_params = 1"
  by (simp add: example_params_def)

lemma example_params_exact: "hot_exact example_params"
  unfolding example_params_def
  by (rule example_state_exact) (auto simp: ind_def nth_Cons split: nat.splits)

lemma example_keys: "merlin_keys example_params = {1, 2, 3}" "merlin_get_occupied_byte example_params = 3"
  by (auto simp: example_params_def merlin_keys_def merlin_get_occupied_byte_def)

section \<open>Serving requests\<close>

lemma merlin_ops_occupied:
  "op_get_occupied_byte (merlin_ops stale) c = merlin_get_occupied_byte (eviction_params c)"
  by (simp add: merlin_ops_def)

text \<open>For the runs below: the operations of the table, and what a request executes during the warm-up.\<close>

lemma merlin_ops_sel:
  "op_find (merlin_ops stale) = (\<lambda>c req u. on_params c (Some (merlin_find (eviction_params c) req u)))"
  "op_can_insert (merlin_ops stale) = (\<lambda>c req. Some (Inr (merlin_can_insert (eviction_params c) req, c)))"
  "op_insert (merlin_ops stale) = (\<lambda>c req. on_params c (Some (merlin_insert (eviction_params c) req)))"
  "op_evict (merlin_ops stale) = (\<lambda>c req. bindO (merlin_evict stale (eviction_params c) req) (\<lambda>P.
     Some (Inr (c\<lparr>eviction_params := P\<rparr>))))"
  "op_get_occupied_byte (merlin_ops stale) = (\<lambda>c. merlin_get_occupied_byte (eviction_params c))"
  by (simp_all add: merlin_ops_def)

lemmas merlin_run = merlin_get_def cache_get_base_def merlin_ops_sel on_params_def merlin_init_def
    cache_struct_init_def Let_def merlin_find_def FIFO_find_miss find_in_ghost_def merlin_can_insert_def
     merlin_get_occupied_byte_def cache_get_occupied_byte_default_def to_i64_def to_u64_def to_u32_def
    merlin_insert_def insert_with_def FIFO_insert_eq set_md_def upd_obj_def hot_new_def hot_add_def MAXFREQ_def



text \<open>
  C2: an eviction. Exactly when every entry of \<open>hotdistribution\<close> from the threshold on exceeds the
  number of core objects, it reads past the end of the vector. Otherwise it returns; the queues stay
  well formed and disjoint, no byte is added to the cache, no object enters it, the ghost queue is
  within its limit, an exact histogram stays exact, and the measure decreases by which the calling
  loop ends.
\<close>

theorem merlin_evict_correct:
  assumes "merlin_inv c" "P = eviction_params c" "0 < r_obj_size req" "r_obj_size req \<le> filter_limit P"
    "cache_size c < merlin_get_occupied_byte P + r_obj_size req"
  shows "if guard_overflow P then merlin_evict stale P req = Some (Inl OutOfBounds)
     else \<exists>P'. merlin_evict stale P req = Some (Inr P') \<and> merlin_ok P' \<and> (hot_exact P \<longrightarrow> hot_exact P') \<and>
       merlin_keys P' \<subseteq> merlin_keys P \<and> merlin_get_occupied_byte P' \<le> merlin_get_occupied_byte P \<and>
       occ (ghost P') \<le> ghost_limit P \<and> merlin_work P' req < merlin_work P req"
proof -
  have "merlin_ok P" "limits_ok P (cache_size c)" "merlin_get_occupied_byte P \<le> cache_size c"
      "occ (ghost P) \<le> ghost_limit P"
    using assms(1,2) by (simp_all add: merlin_inv_def Let_def)
  from merlin_evict_ok [OF this(1,2) assms(3,4) this(3,4) assms(5), of stale] show ?thesis
    by (simp add: evicted_def split: if_splits) blast
qed

theorem merlin_evict_correct_witness:
  "\<exists>P'. merlin_evict (\<lambda>_. 0) example_params (example_req 4 1) = Some (Inr P') \<and> merlin_ok P' \<and> hot_exact P' \<and>
     merlin_get_occupied_byte P' \<le> 3"
proof -
  have "merlin_inv (example_full example_params)" "cache_size (example_full example_params) = 3"
      "eviction_params (example_full example_params) = example_params" "\<not> guard_overflow example_params"
    using example_state_ok(2) [of 0 "[3, 0, 0, 0, 0, 0, 0, 0]"]
    by (auto simp: example_full_def example_params_def merlin_init_def Let_def cache_struct_init_def to_i64_def
        guard_overflow_def MAXFREQ_def intro: exI [of _ 2])
  then show ?thesis
    using merlin_evict_correct [of "example_full example_params" example_params "example_req 4 1" "\<lambda>_. 0"] example_params_exact
      filter_example_params by (auto simp: example_keys)
qed

text \<open>
  C3: a lookup reports exactly the objects of filter, staging and core; it moves nothing, and it keeps
  the histogram exact. After a miss \<open>hit_on_ghost\<close> is set if the ghost queue knows the object, and
  \<open>ghost_freq\<close> is then the frequency of its ghost.
\<close>

theorem merlin_find_correct:
  assumes "merlin_ok P"
  shows "\<exists>P'. merlin_find P req True = Inr (if r_obj_id req \<in> merlin_keys P then Some (r_obj_id req) else None, P') \<and>
     merlin_ok P' \<and> (hot_exact P \<longrightarrow> hot_exact P') \<and> merlin_keys P' = merlin_keys P \<and>
     merlin_get_occupied_byte P' = merlin_get_occupied_byte P \<and>
     (r_obj_id req \<notin> merlin_keys P \<longrightarrow> (\<forall>x. table (ghost P') (r_obj_id req) = Some x \<longrightarrow>
        hit_on_ghost P' \<and> ghost_freq P' = frq x))"
proof -
  have l: "merlin_ok Q \<and> (hot_exact P \<longrightarrow> hot_exact Q) \<and> merlin_keys Q = merlin_keys P \<and>
      merlin_get_occupied_byte Q = merlin_get_occupied_byte P" if "looked_up P Q" for Q
    using that by (auto simp: looked_up_def touched_def merlin_keys_def merlin_get_occupied_byte_def)
  show ?thesis
  proof (cases "r_obj_id req \<in> merlin_keys P")
    case True
    then obtain P' where "merlin_find P req True = Inr (Some (r_obj_id req), P')" "looked_up P P'"
      using find_filter_ok [OF assms, of req] find_staging_ok [OF assms, of req] find_core_ok [OF assms, of req]
      by (cases "table (filter P) (r_obj_id req)"; cases "table (staging P) (r_obj_id req)")
        (auto simp: merlin_keys_def)
    with True l show ?thesis by auto
  next
    case False
    then obtain P' where "merlin_find P req True = Inr (None, P')" "looked_up P P'"
        "case table (ghost P') (r_obj_id req) of
           None \<Rightarrow> hit_on_ghost P' = hit_on_ghost P \<and> move_to_core P' = move_to_core P \<and> ghost_freq P' = ghost_freq P
         | Some x \<Rightarrow> hit_on_ghost P' \<and> ghost_freq P' = frq x \<and> (move_to_core P' \<longleftrightarrow> move_to_core P \<or> guard_freq P \<le> frq x)"
      using find_miss_ok [OF assms] by blast
    with False l show ?thesis by auto
  qed
qed

theorem merlin_find_correct_witness:
  "\<exists>P'. merlin_find example_params (example_req 3 1) True = Inr (Some 3, P') \<and> merlin_ok P' \<and> hot_exact P'"
  using merlin_find_correct [OF example_params_ok, of "example_req 3 1"] example_params_exact
  by (auto simp: example_keys)


text \<open>
  C4: an insertion of an object that is not cached puts it into exactly one of the real queues and adds
  its size. It keeps an exact histogram exact, provided that a promotion from the ghost queue still
  finds the ghost whose frequency it was announced with.
\<close>

theorem merlin_insert_correct:
  assumes "merlin_ok P" "r_obj_id req \<notin> merlin_keys P" "merlin_req_ok req"
    "table (ghost P) (r_obj_id req) \<noteq> None \<longrightarrow> hit_on_ghost P"
  shows "\<exists>P'. merlin_insert P req = Inr (Some (r_obj_id req), P') \<and> merlin_ok P' \<and>
     merlin_keys P' = insert (r_obj_id req) (merlin_keys P) \<and>
     merlin_get_occupied_byte P' = merlin_get_occupied_byte P + r_obj_size req \<and>
     ((hit_on_ghost P \<and> move_to_core P \<longrightarrow>
         (\<exists>x. table (ghost P) (r_obj_id req) = Some x \<and> frq x = ghost_freq P)) \<longrightarrow>
      hot_exact P \<longrightarrow> hot_exact P')"
proof -
  have "0 < r_obj_size req" "r_obj_size req < 2 ^ 32"
    using assms(3) by (simp_all add: merlin_req_ok_def)
  from merlin_insert_ok [OF assms(1,2) this assms(4)] obtain P' where
    p: "merlin_insert P req = Inr (Some (r_obj_id req), P')" "placed P req P'"
      "(hit_on_ghost P \<and> move_to_core P \<longrightarrow>
         (\<exists>x. table (ghost P) (r_obj_id req) = Some x \<and> frq x = ghost_freq P)) \<longrightarrow> hot_exact P \<longrightarrow> hot_exact P'"
    by blast
  then show ?thesis
    using assms(1) by (intro exI [of _ P']) (auto simp: placed_def occupied_real_sum)
qed

theorem merlin_insert_correct_witness:
  "\<exists>P'. merlin_insert example_params (example_req 4 1) = Inr (Some 4, P') \<and> merlin_ok P' \<and> hot_exact P' \<and>
     merlin_keys P' = {1, 2, 3, 4}"
  using merlin_insert_correct [OF example_params_ok, of "example_req 4 1"] example_params_exact
  by (auto simp: example_keys merlin_req_ok_def) (auto simp: example_params_def)


text \<open>
  C35: the promotion flags are not tied to the object they were set for. If they are still set when
  another object, without a ghost, is inserted after the warm-up, the histogram is wrong from then on:
  the object is cached and not counted.
\<close>

theorem merlin_stale_flags:
  assumes "merlin_ok P" "hot_exact P" "r_obj_id req \<notin> merlin_keys P" "merlin_req_ok req"
    "hit_on_ghost P" "move_to_core P" "table (ghost P) (r_obj_id req) = None" "occ (staging P) \<noteq> 0"
  shows "\<exists>P'. merlin_insert P req = Inr (Some (r_obj_id req), P') \<and> r_obj_id req \<in> merlin_keys P' \<and> \<not> hot_exact P'"
proof -
  have r: "0 < r_obj_size req" "r_obj_size req < 2 ^ 32" and w: "\<not> (occ (staging P) = 0 \<and> occ (filter P) = 0)"
    using assms(4,8) by (simp_all add: merlin_req_ok_def)
  obtain P' where p: "merlin_insert P req = Inr (Some (r_obj_id req), P')" "placed P req P'"
      "hotdistribution P' = hotdistribution P" "\<forall>k. hot_total P' k = hot_total P k + ind k (ghost_freq P)"
    using merlin_insert_core [OF assms(1,3) r w assms(5,6)] assms(7) by auto
  have "length (hotdistribution P) = 8" "0 \<le> ghost_freq P"
    using assms(1,5) by (simp_all add: merlin_ok_def)
  then have "hotdistribution P' ! 0 \<noteq> hot_total P' 0"
    using p(3,4) assms(2) by (simp add: hot_exact_def ind_def)
  then have "\<not> hot_exact P'"
    using p(3) \<open>length (hotdistribution P) = 8\<close> by (auto simp: hot_exact_def intro: exI [of _ 0])
  with p(1,2) show ?thesis by (auto simp: placed_def)
qed

theorem merlin_stale_flags_witness:
  "\<exists>P'. merlin_insert (example_params\<lparr>hit_on_ghost := True, move_to_core := True, ghost_freq := 3\<rparr>) (example_req 4 1) =
     Inr (Some 4, P') \<and> 4 \<in> merlin_keys P' \<and> \<not> hot_exact P'"
proof -
  let ?P = "example_params\<lparr>hit_on_ghost := True, move_to_core := True, ghost_freq := 3\<rparr>"
  have "merlin_ok ?P" "hot_exact ?P" "merlin_keys ?P = {1, 2, 3}"
    using example_params_ok example_params_exact example_keys
    by (auto simp: merlin_ok_def disjoint_queues_def hot_exact_def hot_total_def merlin_keys_def MAXFREQ_def)
  then show ?thesis
    using merlin_stale_flags [of ?P "example_req 4 1"] by (simp add: merlin_req_ok_def example_params_def)
qed





section \<open>Removal\<close>

lemma hot_broken:
  assumes "hot_exact P" "length (hotdistribution P) = 8" "hotdistribution P' = hotdistribution P"
    "hot_total P' 0 \<noteq> hot_total P 0"
  shows "\<not> hot_exact P'"
  using assms unfolding hot_exact_def by (metis zero_less_numeral)

lemma remove_ghost_ok:
  assumes "merlin_ok P" "i \<notin> merlin_keys P"
  shows "\<exists>P'. merlin_remove P i = Inr (table (ghost P) i \<noteq> None, P') \<and> merlin_ok P' \<and>
     merlin_keys P' = merlin_keys P \<and> hotdistribution P' = hotdistribution P"
proof -
  have n: "table (filter P) i = None" "table (staging P) i = None" "table (core P) i = None"
    using assms(2) by (auto simp: merlin_keys_def)
  show ?thesis
  proof (cases "table (ghost P) i")
    case None
    then show ?thesis
      using assms n by (auto simp: merlin_remove_def FIFO_remove_none Let_def intro!: exI [of _ P])
  next
    case (Some x)
    obtain g where "FIFO_remove (ghost P) i = Inr (True, g)" "sub_ok g" "table g = (table (ghost P))(i := None)"
      using FIFO_remove_ok [OF merlin_ok_queues(4) [OF assms(1)] Some] by blast
    then show ?thesis
      using assms n Some
      by (auto simp: merlin_remove_def FIFO_remove_none Let_def merlin_ok_def disjoint_queues_def merlin_keys_def)
  qed
qed

lemma remove_real_ok:
  assumes "merlin_ok P" "i \<in> merlin_keys P"
  shows "\<exists>P'. merlin_remove P i = Inr (True, P') \<and> merlin_ok P' \<and> merlin_keys P' = merlin_keys P - {i} \<and>
     hotdistribution P' = hotdistribution P \<and> hot_total P' 0 < hot_total P 0"
proof -
  note ok = merlin_ok_queues [OF assms(1)] and dj = merlin_ok_disjoint [OF assms(1), of i]
  have f: "ind 0 (frq x) = 1" if "table c i = Some x" "sub_ok c" for c x
    using sub_ok_obj [OF that(2,1)] by (simp add: ind_def)
  consider x where "table (filter P) i = Some x"
    | x where "table (filter P) i = None" "table (staging P) i = Some x"
    | x where "table (filter P) i = None" "table (staging P) i = None" "table (core P) i = Some x"
    using assms(2) by (cases "table (filter P) i"; cases "table (staging P) i") (auto simp: merlin_keys_def)
  then show ?thesis
  proof cases
    case (1 x)
    obtain c where c: "FIFO_remove (filter P) i = Inr (True, c)" "sub_ok c" "table c = (table (filter P))(i := None)"
      using FIFO_remove_ok [OF ok(1) 1] by blast
    then show ?thesis
      using assms(1) dj 1 table_remove_sum [OF ok(1) 1 c(3), of "\<lambda>x. ind 0 (frq x)"] f [OF 1 ok(1)]
      by (intro exI [of _ "P\<lparr>filter := c\<rparr>"])
        (auto simp: merlin_remove_def Let_def merlin_ok_def disjoint_queues_def merlin_keys_def hot_total_def)
  next
    case (2 x)
    obtain c where c: "FIFO_remove (staging P) i = Inr (True, c)" "sub_ok c" "table c = (table (staging P))(i := None)"
      using FIFO_remove_ok [OF ok(2) 2(2)] by blast
    then show ?thesis
      using assms(1) dj 2 table_remove_sum [OF ok(2) 2(2) c(3), of "\<lambda>x. ind 0 (frq x)"] f [OF 2(2) ok(2)]
      by (intro exI [of _ "P\<lparr>staging := c\<rparr>"])
        (auto simp: merlin_remove_def FIFO_remove_none Let_def merlin_ok_def disjoint_queues_def merlin_keys_def hot_total_def)
  next
    case (3 x)
    obtain c where c: "FIFO_remove (core P) i = Inr (True, c)" "sub_ok c" "table c = (table (core P))(i := None)"
      using FIFO_remove_ok [OF ok(3) 3(3)] by blast
    then show ?thesis
      using assms(1) dj 3 table_remove_sum [OF ok(3) 3(3) c(3), of "\<lambda>x. ind 0 (frq x)"] f [OF 3(3) ok(3)]
      by (intro exI [of _ "P\<lparr>core := c\<rparr>"])
        (auto simp: merlin_remove_def FIFO_remove_none Let_def merlin_ok_def disjoint_queues_def merlin_keys_def hot_total_def)
  qed
qed

text \<open>
  C6: \<open>merlin_remove\<close> takes the object out of the cache, reports whether one of the four queues held
  it, and keeps the queues well formed; but it leaves \<open>hotdistribution\<close> as it was, so after the
  removal of a cached object the histogram is no longer exact.
\<close>

theorem merlin_remove_correct:
  assumes "merlin_ok P"
  shows "\<exists>P'. merlin_remove P i = Inr (i \<in> merlin_keys P \<or> table (ghost P) i \<noteq> None, P') \<and> merlin_ok P' \<and>
     merlin_keys P' = merlin_keys P - {i} \<and> (i \<in> merlin_keys P \<and> hot_exact P \<longrightarrow> \<not> hot_exact P')"
proof (cases "i \<in> merlin_keys P")
  case True
  then show ?thesis
    using remove_real_ok [OF assms True] hot_broken [of P] merlin_ok_queues(5) [OF assms] by fastforce
next
  case False
  then show ?thesis
    using remove_ghost_ok [OF assms False] by auto
qed

theorem merlin_remove_correct_witness:
  "\<exists>P'. merlin_remove example_params 2 = Inr (True, P') \<and> merlin_keys P' = {1, 3} \<and> \<not> hot_exact P'"
  using merlin_remove_correct [OF example_params_ok, of 2] example_params_exact by (auto simp: example_keys)

section \<open>A run that does not end\<close>

lemma settle_staging_stuck:
  assumes "adjust_core P = Some (Inr P)" "adjust_staging P = Some (Inr (0, P))"
  shows "settle_staging P = None"
proof -
  have "Q \<noteq> P" if "settle_staging Q = Some r" for Q r
  proof (rule settle_staging.raw_induct [OF _ that])
    fix f x y
    assume IH: "\<And>x y. f x = Some y \<Longrightarrow> x \<noteq> P"
      and step: "(case adjust_core x of None \<Rightarrow> None | Some (Inl e) \<Rightarrow> Some (Inl e)
        | Some (Inr P') \<Rightarrow> (case adjust_staging P' of None \<Rightarrow> None | Some (Inl e) \<Rightarrow> Some (Inl e)
           | Some (Inr (ret, P'')) \<Rightarrow> if ret = 0 then f P'' else Some (Inr P''))) = Some y"
    show "x \<noteq> P"
    proof
      assume "x = P"
      then have "f P = Some y"
        using step assms by simp
      then show False using IH by blast
    qed
  qed
  then show ?thesis by (cases "settle_staging P") auto
qed

lemma merlin_evict_stuck:
  assumes "merlin_adjustguard (count_eviction P) = Inr Q" "to_u64 (occ (filter Q) + r_obj_size req) \<le> filter_limit Q"
    "occ (staging Q) = 0" "to_u64 (occ (core Q)) \<le> core_limit Q"
  shows "merlin_evict stale P req = None"
proof -
  have "adjust_core Q = Some (Inr Q)" "adjust_staging Q = Some (Inr (0, Q))"
    using assms(3,4) by (subst adjust_core.simps adjust_staging.simps, simp)+
  then show ?thesis
    using assms(1,2) settle_staging_stuck [of Q] by (simp add: merlin_evict_def)
qed

lemma evict_until_fits_stuck:
  "op_get_occupied_byte ops c + r_obj_size req + obj_md_size c > cache_size c \<Longrightarrow> op_evict ops c req = None \<Longrightarrow>
   evict_until_fits ops req c = None"
  by (subst evict_until_fits.simps) simp


end
