(* ===== verification/Splay.thy ===== *)
theory Splay
  imports Sim_Prelude
begin

text \<open>
  The splay tree of \<open>dataStructure/splay.c\<close> and \<open>splay.h\<close>, which counts in \<open>value\<close> the nodes below each node. The
  tree is a value; \<open>splay\<close> cuts it top down into two open spines, kept here as lists of nodes whose
  hole is the right (left) child, and puts them together again. Keys are timestamps, so the difference
  \<open>key_cmp\<close> takes does not overflow and they are integers here.
\<close>

section \<open>Model\<close>

datatype sTree = TNULL | TNode (tleft: sTree) (tkey: int) (tvalue: int) (tright: sTree)

definition node_value :: "sTree \<Rightarrow> int" where
  "node_value x = (case x of TNULL \<Rightarrow> 0 | TNode l k v r \<Rightarrow> v)"

definition key_cmp :: "int \<Rightarrow> int \<Rightarrow> int" where
  "key_cmp i j = i - j"

text \<open>
  The nodes linked below \<open>N.right\<close> (left subtree, key, value) and below \<open>N.left\<close> (key, value, right subtree),
  the last linked one first.
\<close>

type_synonym lframe = "sTree \<times> int \<times> int"
type_synonym rframe = "int \<times> int \<times> sTree"

text \<open>The loop of \<open>splay\<close>; \<open>l\<close>, \<open>k\<close>, \<open>v\<close>, \<open>r\<close> are the fields of \<open>t\<close>, which is never null there.\<close>

function splay_loop ::
  "int \<Rightarrow> sTree \<Rightarrow> int \<Rightarrow> int \<Rightarrow> sTree \<Rightarrow> lframe list \<Rightarrow> rframe list \<Rightarrow> int \<Rightarrow> int \<Rightarrow>
   (sTree \<times> int \<times> int \<times> sTree) \<times> lframe list \<times> rframe list \<times> int \<times> int" where
  "splay_loop i l k v r L R l_size r_size =
     (if key_cmp i k < 0 then
        (case l of TNULL \<Rightarrow> ((l, k, v, r), L, R, l_size, r_size)
         | TNode ll lk lv lr \<Rightarrow>
           if key_cmp i lk < 0 then
             let t = TNode lr k (node_value lr + node_value r + 1) r in
             case ll of TNULL \<Rightarrow> ((ll, lk, lv, t), L, R, l_size, r_size)
             | TNode a b c d \<Rightarrow> splay_loop i a b c d L ((lk, lv, t) # R) l_size (r_size + (1 + node_value t))
           else splay_loop i ll lk lv lr L ((k, v, r) # R) l_size (r_size + (1 + node_value r)))
      else if key_cmp i k > 0 then
        (case r of TNULL \<Rightarrow> ((l, k, v, r), L, R, l_size, r_size)
         | TNode rl rk rv rr \<Rightarrow>
           if key_cmp i rk > 0 then
             let t = TNode l k (node_value l + node_value rl + 1) rl in
             case rr of TNULL \<Rightarrow> ((t, rk, rv, rr), L, R, l_size, r_size)
             | TNode a b c d \<Rightarrow> splay_loop i a b c d ((t, rk, rv) # L) R (l_size + (1 + node_value t)) r_size
           else splay_loop i rl rk rv rr ((l, k, v) # L) R (l_size + (1 + node_value l)) r_size)
      else ((l, k, v, r), L, R, l_size, r_size))"
  by pat_completeness auto
termination
  by (relation "measure (\<lambda>(i, l, k, v, r, _). size l + size r)") auto

declare splay_loop.simps [simp del]

text \<open>The loops that correct the sizes on the two spines, from the top, and the assembly.\<close>

fun resize_left :: "lframe list \<Rightarrow> int \<Rightarrow> lframe list" where
  "resize_left [] s = []"
| "resize_left ((l, k, v) # fs) s = (l, k, s) # resize_left fs (s - (1 + node_value l))"

fun resize_right :: "rframe list \<Rightarrow> int \<Rightarrow> rframe list" where
  "resize_right [] s = []"
| "resize_right ((k, v, r) # fs) s = (k, s, r) # resize_right fs (s - (1 + node_value r))"

fun join_left :: "lframe list \<Rightarrow> sTree \<Rightarrow> sTree" where
  "join_left [] t = t"
| "join_left ((l, k, v) # fs) t = TNode l k v (join_left fs t)"

fun join_right :: "rframe list \<Rightarrow> sTree \<Rightarrow> sTree" where
  "join_right [] t = t"
| "join_right ((k, v, r) # fs) t = TNode (join_right fs t) k v r"

definition splay :: "int \<Rightarrow> sTree \<Rightarrow> sTree" where
  "splay i t =
     (case t of TNULL \<Rightarrow> TNULL
      | TNode l k v r \<Rightarrow>
        let ((l, k, v, r), L, R, l_size, r_size) = splay_loop i l k v r [] [] 0 0;
            l_size = l_size + node_value l;
            r_size = r_size + node_value r
        in TNode (join_left (resize_left (rev L) l_size) l) k (l_size + r_size + 1)
                 (join_right (resize_right (rev R) r_size) r))"

text \<open>The variant without sizes.\<close>

function sedgewick_loop ::
  "int \<Rightarrow> sTree \<Rightarrow> int \<Rightarrow> int \<Rightarrow> sTree \<Rightarrow> lframe list \<Rightarrow> rframe list \<Rightarrow>
   (sTree \<times> int \<times> int \<times> sTree) \<times> lframe list \<times> rframe list" where
  "sedgewick_loop i l k v r L R =
     (if i < k then
        let (l, k, v, r) =
          (case l of TNULL \<Rightarrow> (l, k, v, r)
           | TNode ll lk lv lr \<Rightarrow> if i < lk then (ll, lk, lv, TNode lr k v r) else (l, k, v, r)) in
        case l of TNULL \<Rightarrow> ((l, k, v, r), L, R)
        | TNode a b c d \<Rightarrow> sedgewick_loop i a b c d L ((k, v, r) # R)
      else if i > k then
        let (l, k, v, r) =
          (case r of TNULL \<Rightarrow> (l, k, v, r)
           | TNode rl rk rv rr \<Rightarrow> if i > rk then (TNode l k v rl, rk, rv, rr) else (l, k, v, r)) in
        case r of TNULL \<Rightarrow> ((l, k, v, r), L, R)
        | TNode a b c d \<Rightarrow> sedgewick_loop i a b c d ((l, k, v) # L) R
      else ((l, k, v, r), L, R))"
  by pat_completeness auto
termination
  by (relation "measure (\<lambda>(i, l, k, v, r, _). size l + size r)") (auto split: sTree.splits if_splits)

declare sedgewick_loop.simps [simp del]

definition sedgewickized_splay :: "int \<Rightarrow> sTree \<Rightarrow> sTree" where
  "sedgewickized_splay i t =
     (case t of TNULL \<Rightarrow> TNULL
      | TNode l k v r \<Rightarrow>
        let ((l, k, v, r), L, R) = sedgewick_loop i l k v r [] []
        in TNode (join_left (rev L) l) k v (join_right (rev R) r))"

text \<open>\<open>insert\<close> of the source. The allocation does not fail.\<close>

definition insert_key :: "int \<Rightarrow> sTree \<Rightarrow> sTree result" where
  "insert_key i t =
     (if t = TNULL then Inr (TNode TNULL i 1 TNULL)
      else
        case splay i t of TNULL \<Rightarrow> Inl NullDeref
        | TNode l k v r \<Rightarrow>
          if key_cmp i k < 0 then
            let t = TNode TNULL k (1 + node_value r) r
            in Inr (TNode l i (1 + node_value l + node_value t) t)
          else if key_cmp i k > 0 then
            let t = TNode l k (1 + node_value l) TNULL
            in Inr (TNode t i (1 + node_value t + node_value r) r)
          else if v = 1 + node_value l + node_value r then Inr (TNode l k v r) else Inl AssertFail)"

definition splay_delete :: "int \<Rightarrow> sTree \<Rightarrow> sTree result" where
  "splay_delete i t =
     (if t = TNULL then Inr TNULL
      else
        let root_value = node_value t in
        case splay i t of TNULL \<Rightarrow> Inl NullDeref
        | TNode l k v r \<Rightarrow>
          if key_cmp i k = 0 then
            (if l = TNULL then
               (case r of TNULL \<Rightarrow> Inr TNULL | TNode a b c d \<Rightarrow> Inr (TNode a b (root_value - 1) d))
             else
               case splay i l of TNULL \<Rightarrow> Inl NullDeref
               | TNode a b c d \<Rightarrow> Inr (TNode a b (root_value - 1) r))
          else Inr (TNode l k v r))"

fun check_sTree :: "sTree \<Rightarrow> unit result" where
  "check_sTree TNULL = Inr ()"
| "check_sTree (TNode l k v r) =
     (if v = node_value l + node_value r + 1
      then bindE (check_sTree l) (\<lambda>_. check_sTree r) else Inl AssertFail)"

section \<open>Contents and sizes\<close>

fun keys :: "sTree \<Rightarrow> int list" where
  "keys TNULL = []"
| "keys (TNode l k v r) = keys l @ k # keys r"

fun sized :: "sTree \<Rightarrow> bool" where
  "sized TNULL = True"
| "sized (TNode l k v r) \<longleftrightarrow> sized l \<and> sized r \<and> v = int (length (keys l @ k # keys r))"

abbreviation ordered :: "sTree \<Rightarrow> bool" where
  "ordered t \<equiv> sorted_wrt (<) (keys t)"

lemma node_value_simps [simp]: "node_value TNULL = 0" "node_value (TNode l k v r) = v"
  by (simp_all add: node_value_def)

lemma sized_node_value: "sized t \<Longrightarrow> node_value t = int (length (keys t))"
  by (cases t) auto

lemma check_sTree_sized: "check_sTree t = Inr () \<longleftrightarrow> sized t"
  by (induction t) (auto simp: sized_node_value elim!: bindE_Inr_elim)

fun lkeys :: "lframe list \<Rightarrow> int list" where
  "lkeys [] = []"
| "lkeys ((l, k, v) # fs) = lkeys fs @ keys l @ [k]"

fun rkeys :: "rframe list \<Rightarrow> int list" where
  "rkeys [] = []"
| "rkeys ((k, v, r) # fs) = (k # keys r) @ rkeys fs"

text \<open>The loop case by case, and the induction that goes with it.\<close>

lemma splay_loop_eqs:
  "i = k \<Longrightarrow> splay_loop i l k v r L R ls rs = ((l, k, v, r), L, R, ls, rs)"
  "i < k \<Longrightarrow> splay_loop i TNULL k v r L R ls rs = ((TNULL, k, v, r), L, R, ls, rs)"
  "i < k \<Longrightarrow> i < lk \<Longrightarrow> splay_loop i (TNode TNULL lk lv lr) k v r L R ls rs =
     ((TNULL, lk, lv, TNode lr k (node_value lr + node_value r + 1) r), L, R, ls, rs)"
  "i < k \<Longrightarrow> i < lk \<Longrightarrow> splay_loop i (TNode (TNode a b c d) lk lv lr) k v r L R ls rs =
     splay_loop i a b c d L ((lk, lv, TNode lr k (node_value lr + node_value r + 1) r) # R) ls
       (rs + (1 + (node_value lr + node_value r + 1)))"
  "i < k \<Longrightarrow> lk \<le> i \<Longrightarrow> splay_loop i (TNode ll lk lv lr) k v r L R ls rs =
     splay_loop i ll lk lv lr L ((k, v, r) # R) ls (rs + (1 + node_value r))"
  "k < i \<Longrightarrow> splay_loop i l k v TNULL L R ls rs = ((l, k, v, TNULL), L, R, ls, rs)"
  "k < i \<Longrightarrow> rk < i \<Longrightarrow> splay_loop i l k v (TNode rl rk rv TNULL) L R ls rs =
     ((TNode l k (node_value l + node_value rl + 1) rl, rk, rv, TNULL), L, R, ls, rs)"
  "k < i \<Longrightarrow> rk < i \<Longrightarrow> splay_loop i l k v (TNode rl rk rv (TNode a b c d)) L R ls rs =
     splay_loop i a b c d ((TNode l k (node_value l + node_value rl + 1) rl, rk, rv) # L) R
       (ls + (1 + (node_value l + node_value rl + 1))) rs"
  "k < i \<Longrightarrow> i \<le> rk \<Longrightarrow> splay_loop i l k v (TNode rl rk rv rr) L R ls rs =
     splay_loop i rl rk rv rr ((l, k, v) # L) R (ls + (1 + node_value l)) rs"
  by (subst splay_loop.simps, simp add: key_cmp_def Let_def)+

lemma splay_induct [case_names found left_end zig_end zig left right_end zag_end zag right]:
  assumes "\<And>i l v r. P i l i v r"
    and "\<And>i k v r. i < k \<Longrightarrow> P i TNULL k v r"
    and "\<And>i lk lv lr k v r. i < k \<Longrightarrow> i < lk \<Longrightarrow> P i (TNode TNULL lk lv lr) k v r"
    and "\<And>i a b c d lk lv lr k v r. i < k \<Longrightarrow> i < lk \<Longrightarrow> P i a b c d \<Longrightarrow> P i (TNode (TNode a b c d) lk lv lr) k v r"
    and "\<And>i ll lk lv lr k v r. i < k \<Longrightarrow> lk \<le> i \<Longrightarrow> P i ll lk lv lr \<Longrightarrow> P i (TNode ll lk lv lr) k v r"
    and "\<And>i l k v. k < i \<Longrightarrow> P i l k v TNULL"
    and "\<And>i l k v rl rk rv. k < i \<Longrightarrow> rk < i \<Longrightarrow> P i l k v (TNode rl rk rv TNULL)"
    and "\<And>i a b c d l k v rl rk rv. k < i \<Longrightarrow> rk < i \<Longrightarrow> P i a b c d \<Longrightarrow> P i l k v (TNode rl rk rv (TNode a b c d))"
    and "\<And>i l k v rl rk rv rr. k < i \<Longrightarrow> i \<le> rk \<Longrightarrow> P i rl rk rv rr \<Longrightarrow> P i l k v (TNode rl rk rv rr)"
  shows "P i l k v r"
proof (induction "size l + size r" arbitrary: l k v r rule: less_induct)
  case less
  consider "i = k" | "i < k" | "k < i" by linarith
  then show ?case
  proof cases
    case 2
    then show ?thesis
    proof (cases l)
      case (TNode ll lk lv lr)
      then show ?thesis
        using 2 assms(3,4,5) less by (cases "i < lk"; cases ll) (auto simp: not_less)
    qed (use 2 assms(2) in simp)
  next
    case 3
    then show ?thesis
    proof (cases r)
      case (TNode rl rk rv rr)
      then show ?thesis
        using 3 assms(7,8,9) less by (cases "rk < i"; cases rr) (auto simp: not_less)
    qed (use 3 assms(6) in simp)
  qed (use assms(1) in simp)
qed

text \<open>What the loop keeps, and the state in which it stops.\<close>

lemma splay_loop_keys:
  "splay_loop i l k v r L R ls rs = ((l', k', v', r'), L', R', ls', rs') \<Longrightarrow>
   lkeys L' @ keys l' @ k' # keys r' @ rkeys R' = lkeys L @ keys l @ k # keys r @ rkeys R"
  by (induction i l k v r arbitrary: L R ls rs rule: splay_induct) (force simp: splay_loop_eqs)+

lemma splay_loop_stop:
  "splay_loop i l k v r L R ls rs = ((l', k', v', r'), L', R', ls', rs') \<Longrightarrow>
   i = k' \<or> i < k' \<and> l' = TNULL \<or> k' < i \<and> r' = TNULL"
  by (induction i l k v r arbitrary: L R ls rs rule: splay_induct) (force simp: splay_loop_eqs)+

lemma splay_loop_bounds:
  "splay_loop i l k v r L R ls rs = ((l', k', v', r'), L', R', ls', rs') \<Longrightarrow>
   sorted_wrt (<) (keys l @ k # keys r) \<Longrightarrow> \<forall>x \<in> set (lkeys L). x < i \<Longrightarrow> \<forall>x \<in> set (rkeys R). i < x \<Longrightarrow>
   (\<forall>x \<in> set (lkeys L'). x < i) \<and> (\<forall>x \<in> set (rkeys R'). i < x)"
proof (induction i l k v r arbitrary: L R ls rs rule: splay_induct)
  case (zig i a b c d lk lv lr k v r)
  have "\<forall>x \<in> set (keys lr) \<union> set (keys r). i < x"
    using zig.prems(2) zig.hyps by (auto simp: sorted_wrt_append dest: less_trans [of i])
  then show ?case
    using zig.prems(2-4) zig.hyps by (intro zig.IH [OF zig.prems(1) [unfolded splay_loop_eqs(4) [OF zig.hyps]]]) (auto simp: sorted_wrt_append)
next
  case (left i ll lk lv lr k v r)
  have "\<forall>x \<in> set (keys r). i < x"
    using left.prems(2) left.hyps by (auto simp: sorted_wrt_append dest: less_trans [of i])
  then show ?case
    using left.prems(2-4) left.hyps by (intro left.IH [OF left.prems(1) [unfolded splay_loop_eqs(5) [OF left.hyps]]]) (auto simp: sorted_wrt_append)
next
  case (zag i a b c d l k v rl rk rv)
  have "\<forall>x \<in> set (keys l) \<union> set (keys rl). x < i"
    using zag.prems(2) zag.hyps by (auto simp: sorted_wrt_append dest: less_trans [of _ _ i])
  then show ?case
    using zag.prems(2-4) zag.hyps by (intro zag.IH [OF zag.prems(1) [unfolded splay_loop_eqs(8) [OF zag.hyps]]]) (auto simp: sorted_wrt_append)
next
  case (right i l k v rl rk rv rr)
  have "\<forall>x \<in> set (keys l). x < i"
    using right.prems(2) right.hyps by (auto simp: sorted_wrt_append dest: less_trans [of _ _ i])
  then show ?case
    using right.prems(2-4) right.hyps by (intro right.IH [OF right.prems(1) [unfolded splay_loop_eqs(9) [OF right.hyps]]]) (auto simp: sorted_wrt_append)
qed (simp_all add: splay_loop_eqs)

text \<open>The size counters are the numbers of nodes on the spines.\<close>

fun lsized :: "lframe list \<Rightarrow> bool" where
  "lsized [] = True"
| "lsized ((l, k, v) # fs) \<longleftrightarrow> sized l \<and> lsized fs"

fun rsized :: "rframe list \<Rightarrow> bool" where
  "rsized [] = True"
| "rsized ((k, v, r) # fs) \<longleftrightarrow> sized r \<and> rsized fs"

lemma splay_loop_sized:
  "splay_loop i l k v r L R ls rs = ((l', k', v', r'), L', R', ls', rs') \<Longrightarrow>
   sized l \<Longrightarrow> sized r \<Longrightarrow> lsized L \<Longrightarrow> rsized R \<Longrightarrow> ls = int (length (lkeys L)) \<Longrightarrow> rs = int (length (rkeys R)) \<Longrightarrow>
   sized l' \<and> sized r' \<and> lsized L' \<and> rsized R' \<and> ls' = int (length (lkeys L')) \<and> rs' = int (length (rkeys R'))"
proof (induction i l k v r arbitrary: L R ls rs rule: splay_induct)
  case (zig i a b c d lk lv lr k v r)
  from zig.prems(2-) show ?case
    by (intro zig.IH [OF zig.prems(1) [unfolded splay_loop_eqs(4) [OF zig.hyps]]]) (auto simp: sized_node_value)
next
  case (left i ll lk lv lr k v r)
  from left.prems(2-) show ?case
    by (intro left.IH [OF left.prems(1) [unfolded splay_loop_eqs(5) [OF left.hyps]]]) (auto simp: sized_node_value)
next
  case (zag i a b c d l k v rl rk rv)
  from zag.prems(2-) show ?case
    by (intro zag.IH [OF zag.prems(1) [unfolded splay_loop_eqs(8) [OF zag.hyps]]]) (auto simp: sized_node_value)
next
  case (right i l k v rl rk rv rr)
  from right.prems(2-) show ?case
    by (intro right.IH [OF right.prems(1) [unfolded splay_loop_eqs(9) [OF right.hyps]]]) (auto simp: sized_node_value)
qed (auto simp: splay_loop_eqs sized_node_value)

lemma lkeys_append: "lkeys (xs @ ys) = lkeys ys @ lkeys xs"
  by (induction xs rule: lkeys.induct) auto

lemma rkeys_append: "rkeys (xs @ ys) = rkeys xs @ rkeys ys"
  by (induction xs rule: rkeys.induct) auto

lemma lsized_append: "lsized (xs @ ys) \<longleftrightarrow> lsized xs \<and> lsized ys"
  by (induction xs rule: lsized.induct) auto

lemma rsized_append: "rsized (xs @ ys) \<longleftrightarrow> rsized xs \<and> rsized ys"
  by (induction xs rule: rsized.induct) auto

lemma keys_join_left: "keys (join_left (resize_left fs s) t) = lkeys (rev fs) @ keys t"
  by (induction fs s rule: resize_left.induct) (auto simp: lkeys_append)

lemma keys_join_right: "keys (join_right (resize_right fs s) t) = keys t @ rkeys (rev fs)"
  by (induction fs s rule: resize_right.induct) (auto simp: rkeys_append)

lemma sized_join_left:
  "lsized fs \<Longrightarrow> sized t \<Longrightarrow> s = int (length (lkeys (rev fs) @ keys t)) \<Longrightarrow> sized (join_left (resize_left fs s) t)"
  by (induction fs s rule: resize_left.induct) (auto simp: lkeys_append sized_node_value keys_join_left)

lemma sized_join_right:
  "rsized fs \<Longrightarrow> sized t \<Longrightarrow> s = int (length (keys t @ rkeys (rev fs))) \<Longrightarrow> sized (join_right (resize_right fs s) t)"
  by (induction fs s rule: resize_right.induct) (auto simp: rkeys_append sized_node_value keys_join_right)

lemma lsized_rev: "lsized (rev fs) = lsized fs"
  by (induction fs rule: lsized.induct) (auto simp: lsized_append)

lemma rsized_rev: "rsized (rev fs) = rsized fs"
  by (induction fs rule: rsized.induct) (auto simp: rsized_append)

section \<open>The operations\<close>

text \<open>
  \<open>splay\<close> keeps the contents and the sizes; of a non-empty tree the root is the key, or one with no other
  key between them.
\<close>

lemma splay_TNULL [simp]: "splay i TNULL = TNULL"
  by (simp add: splay_def)

lemma splay_cases:
  assumes "t \<noteq> TNULL" "ordered t"
  obtains l k v r where "splay i t = TNode l k v r" "keys l @ k # keys r = keys t" "sized t \<longrightarrow> sized (TNode l k v r)"
    "i = k \<or> i < k \<and> (\<forall>x \<in> set (keys l). x < i) \<or> k < i \<and> (\<forall>x \<in> set (keys r). i < x)"
    "(\<forall>x \<in> set (keys t). x < i) \<longrightarrow> r = TNULL"
proof -
  obtain l0 k0 v0 r0 where t: "t = TNode l0 k0 v0 r0"
    using assms(1) by (cases t) auto
  obtain l k v r L R ls rs where e: "splay_loop i l0 k0 v0 r0 [] [] 0 0 = ((l, k, v, r), L, R, ls, rs)"
    by (metis prod.exhaust)
  let ?l = "join_left (resize_left (rev L) (ls + node_value l)) l"
  let ?r = "join_right (resize_right (rev R) (rs + node_value r)) r"
  let ?v = "ls + node_value l + (rs + node_value r) + 1"
  have s: "splay i t = TNode ?l k ?v ?r"
    by (simp add: t splay_def e Let_def)
  have k: "lkeys L @ keys l @ k # keys r @ rkeys R = keys t"
    using splay_loop_keys [OF e] by (simp add: t)
  have b: "\<forall>x \<in> set (lkeys L). x < i" "\<forall>x \<in> set (rkeys R). i < x"
    using splay_loop_bounds [OF e] assms(2) by (auto simp: t)
  have z: "sized (TNode ?l k ?v ?r)" if "sized t"
    using that splay_loop_sized [OF e]
    by (auto simp: t lsized_rev rsized_rev keys_join_left keys_join_right sized_node_value intro!: sized_join_left sized_join_right)
  have st: "i = k \<or> i < k \<and> l = TNULL \<or> k < i \<and> r = TNULL"
    by (rule splay_loop_stop [OF e])
  have "?r = TNULL" if "\<forall>x \<in> set (keys t). x < i"
  proof -
    have "rkeys R = []" "r = TNULL"
      using that b(2) st unfolding k [symmetric] by (cases "rkeys R"; force)+
    then show ?thesis
      by (cases R) auto
  qed
  then show thesis
    using st b k z by (intro that [OF s]) (auto simp: keys_join_left keys_join_right)
qed

definition tree_ok :: "sTree \<Rightarrow> bool" where
  "tree_ok t \<longleftrightarrow> ordered t \<and> sized t"

lemma tree_ok_TNULL [simp]: "tree_ok TNULL"
  by (simp add: tree_ok_def)

lemma splay_ok:
  assumes "tree_ok t"
  shows "tree_ok (splay i t)" "keys (splay i t) = keys t"
proof -
  have "tree_ok (splay i t) \<and> keys (splay i t) = keys t"
  proof (cases "t = TNULL")
    case False
    then show ?thesis
      using assms by (elim splay_cases [of t i]) (auto simp: tree_ok_def)
  qed simp
  then show "tree_ok (splay i t)" "keys (splay i t) = keys t" by simp_all
qed

lemma splay_found:
  assumes "tree_ok t" "i \<in> set (keys t)"
  obtains l r where "splay i t = TNode l i (node_value t) r" "keys l @ i # keys r = keys t" "sized l" "sized r"
    "\<forall>x \<in> set (keys l). x < i" "\<forall>x \<in> set (keys r). i < x"
proof -
  have t: "t \<noteq> TNULL" "ordered t" "sized t"
    using assms by (auto simp: tree_ok_def)
  obtain l k v r where s: "splay i t = TNode l k v r" "keys l @ k # keys r = keys t" "sized (TNode l k v r)"
      "i = k \<or> i < k \<and> (\<forall>x \<in> set (keys l). x < i) \<or> k < i \<and> (\<forall>x \<in> set (keys r). i < x)"
    using splay_cases [OF t(1,2), of i] t(3) by metis
  have o: "sorted_wrt (<) (keys l @ k # keys r)" "i \<in> set (keys l @ k # keys r)"
    using t(2) assms(2) s(2) by simp_all
  then have "k = i"
    using s(4) by (auto simp: sorted_wrt_append)
  moreover have "v = node_value t"
    using s(2,3) sized_node_value [OF t(3)] by auto
  moreover have "\<forall>x \<in> set (keys l). x < k" "\<forall>x \<in> set (keys r). k < x"
    using o(1) by (simp_all add: sorted_wrt_append)
  ultimately show thesis
    using s(1-3) by (intro that [of l r]) simp_all
qed

lemma splay_rank:
  assumes "tree_ok t" "i \<in> set (keys t)"
  shows "node_value (tright (splay i t)) = int (card {x \<in> set (keys t). i < x})"
proof -
  obtain l r where s: "splay i t = TNode l i (node_value t) r" "keys l @ i # keys r = keys t" "sized r"
      "\<forall>x \<in> set (keys l). x < i" "\<forall>x \<in> set (keys r). i < x"
    using splay_found [OF assms] by metis
  have "distinct (keys r)"
    using assms(1) s(2) [symmetric] strict_sorted_iff by (auto simp: tree_ok_def sorted_wrt_append)
  moreover have "{x \<in> set (keys t). i < x} = set (keys r)"
    using s(4,5) unfolding s(2) [symmetric] by auto
  ultimately show ?thesis
    using s(1,3) by (simp add: sized_node_value distinct_card)
qed

lemma insert_key_ok:
  assumes "tree_ok t"
  shows "\<exists>t'. insert_key i t = Inr t' \<and> tree_ok t' \<and> set (keys t') = insert i (set (keys t))"
proof (cases "t = TNULL")
  case True
  then show ?thesis
    by (simp add: insert_key_def tree_ok_def)
next
  case False
  obtain l k v r where s: "splay i t = TNode l k v r" "keys l @ k # keys r = keys t" "sized (TNode l k v r)"
      "i = k \<or> i < k \<and> (\<forall>x \<in> set (keys l). x < i) \<or> k < i \<and> (\<forall>x \<in> set (keys r). i < x)"
    using splay_cases [OF False, of i] assms unfolding tree_ok_def by metis
  have o: "sorted_wrt (<) (keys l @ k # keys r)" and st: "set (keys t) = set (keys l @ k # keys r)"
    using assms s(2) by (simp_all add: tree_ok_def)
  consider "i = k" | "i < k" "\<forall>x \<in> set (keys l). x < i" | "k < i" "\<forall>x \<in> set (keys r). i < x"
    using s(4) by auto
  then show ?thesis
  proof cases
    case 1
    then show ?thesis
      using False s(1,3) o by (auto simp: insert_key_def key_cmp_def tree_ok_def sized_node_value st)
  next
    case 2
    moreover have "\<forall>x \<in> set (keys r). i < x"
      using 2(1) o by (auto simp: sorted_wrt_append)
    ultimately show ?thesis
      using False s(1,3) o by (auto simp: insert_key_def key_cmp_def tree_ok_def sized_node_value sorted_wrt_append st)
  next
    case 3
    moreover have "\<forall>x \<in> set (keys l). x < i"
      using 3(1) o by (auto simp: sorted_wrt_append)
    ultimately show ?thesis
      using False s(1,3) o by (auto simp: insert_key_def key_cmp_def tree_ok_def sized_node_value sorted_wrt_append st)
  qed
qed

lemma splay_delete_found:
  assumes "tree_ok t" "i \<in> set (keys t)"
  shows "\<exists>t'. splay_delete i t = Inr t' \<and> tree_ok t' \<and> set (keys t') = set (keys t) - {i}"
proof -
  obtain l r where s: "splay i t = TNode l i (node_value t) r" "keys l @ i # keys r = keys t" "sized l" "sized r"
      "\<forall>x \<in> set (keys l). x < i" "\<forall>x \<in> set (keys r). i < x"
    using splay_found [OF assms] by metis
  have t: "t \<noteq> TNULL" "node_value t = int (length (keys l @ i # keys r))"
      "sorted_wrt (<) (keys l @ i # keys r)" "set (keys t) = set (keys l @ i # keys r)"
    using assms sized_node_value [of t] unfolding s(2) by (auto simp: tree_ok_def)
  have ok: "tree_ok t'" "set (keys t') = set (keys t) - {i}" if "keys t' = keys l @ keys r" "sized t'" for t'
    using that t(3,4) s(5,6) by (auto simp: tree_ok_def sorted_wrt_append)
  have n: "node_value t - 1 = int (length (keys l @ keys r))"
    using t(2) by simp
  show ?thesis
  proof (cases "l = TNULL")
    case True
    let ?t = "case r of TNULL \<Rightarrow> TNULL | TNode a b c d \<Rightarrow> TNode a b (node_value t - 1) d"
    have "splay_delete i t = Inr ?t"
      using t(1) s(1) True by (simp add: splay_delete_def key_cmp_def split: sTree.splits)
    moreover have "keys ?t = keys l @ keys r" "sized ?t"
      using n s(4) True by (auto split: sTree.splits)
    ultimately show ?thesis
      using ok [of ?t] by blast
  next
    case False
    have "ordered l" using t(3) by (simp add: sorted_wrt_append)
    with False obtain a b c d where d: "splay i l = TNode a b c d" "keys a @ b # keys d = keys l" "sized (TNode a b c d)" "d = TNULL"
      by (rule splay_cases [of l i]) (use s(3,5) in simp)
    let ?t = "TNode a b (node_value t - 1) r"
    have "splay_delete i t = Inr ?t"
      using t(1) s(1) d(1) False by (simp add: splay_delete_def key_cmp_def)
    moreover have "keys ?t = keys l @ keys r" "sized ?t"
      using n s(4) d(3) unfolding d(2) [symmetric] by (simp_all add: d(4))
    ultimately show ?thesis
      using ok [of ?t] by blast
  qed
qed

lemma splay_delete_ok:
  assumes "tree_ok t"
  shows "\<exists>t'. splay_delete i t = Inr t' \<and> tree_ok t' \<and> set (keys t') = set (keys t) - {i}"
proof (cases "i \<in> set (keys t)")
  case False
  show ?thesis
  proof (cases "t = TNULL")
    case True
    then show ?thesis by (simp add: splay_delete_def)
  next
    case nn: False
    obtain l k v r where s: "splay i t = TNode l k v r" "keys l @ k # keys r = keys t"
      using splay_cases [OF nn, of i] assms unfolding tree_ok_def by metis
    then have "k \<noteq> i"
      using False by (metis in_set_conv_decomp)
    then show ?thesis
      using nn s splay_ok [OF assms, of i] False by (simp add: splay_delete_def key_cmp_def)
  qed
qed (rule splay_delete_found [OF assms])

section \<open>The variant without sizes\<close>

fun shape :: "sTree \<Rightarrow> sTree" where
  "shape TNULL = TNULL"
| "shape (TNode l k v r) = TNode (shape l) k 0 (shape r)"

abbreviation lshape :: "lframe list \<Rightarrow> lframe list" where
  "lshape \<equiv> map (\<lambda>(l, k, v). (shape l, k, 0))"

abbreviation rshape :: "rframe list \<Rightarrow> rframe list" where
  "rshape \<equiv> map (\<lambda>(k, v, r). (k, 0, shape r))"

lemma shape_join_left: "shape (join_left fs t) = join_left (lshape fs) (shape t)"
  by (induction fs t rule: join_left.induct) auto

lemma shape_join_right: "shape (join_right fs t) = join_right (rshape fs) (shape t)"
  by (induction fs t rule: join_right.induct) auto

lemma lshape_resize: "lshape (resize_left fs s) = lshape fs"
  by (induction fs s rule: resize_left.induct) auto

lemma rshape_resize: "rshape (resize_right fs s) = rshape fs"
  by (induction fs s rule: resize_right.induct) auto

lemma sedgewick_loop_eqs:
  "sedgewick_loop i l i v r L R = ((l, i, v, r), L, R)"
  "i < k \<Longrightarrow> sedgewick_loop i TNULL k v r L R = ((TNULL, k, v, r), L, R)"
  "i < k \<Longrightarrow> i < lk \<Longrightarrow> sedgewick_loop i (TNode TNULL lk lv lr) k v r L R = ((TNULL, lk, lv, TNode lr k v r), L, R)"
  "i < k \<Longrightarrow> i < lk \<Longrightarrow> sedgewick_loop i (TNode (TNode a b c d) lk lv lr) k v r L R =
     sedgewick_loop i a b c d L ((lk, lv, TNode lr k v r) # R)"
  "i < k \<Longrightarrow> lk \<le> i \<Longrightarrow> sedgewick_loop i (TNode ll lk lv lr) k v r L R = sedgewick_loop i ll lk lv lr L ((k, v, r) # R)"
  "k < i \<Longrightarrow> sedgewick_loop i l k v TNULL L R = ((l, k, v, TNULL), L, R)"
  "k < i \<Longrightarrow> rk < i \<Longrightarrow> sedgewick_loop i l k v (TNode rl rk rv TNULL) L R = ((TNode l k v rl, rk, rv, TNULL), L, R)"
  "k < i \<Longrightarrow> rk < i \<Longrightarrow> sedgewick_loop i l k v (TNode rl rk rv (TNode a b c d)) L R =
     sedgewick_loop i a b c d ((TNode l k v rl, rk, rv) # L) R"
  "k < i \<Longrightarrow> i \<le> rk \<Longrightarrow> sedgewick_loop i l k v (TNode rl rk rv rr) L R = sedgewick_loop i rl rk rv rr ((l, k, v) # L) R"
  by (subst sedgewick_loop.simps, simp)+

definition loop_shape ::
  "(sTree \<times> int \<times> int \<times> sTree) \<Rightarrow> lframe list \<Rightarrow> rframe list \<Rightarrow> sTree \<times> int \<times> sTree \<times> lframe list \<times> rframe list" where
  "loop_shape t L R = (case t of (l, k, v, r) \<Rightarrow> (shape l, k, shape r, lshape L, rshape R))"

lemma splay_loop_shape:
  "lshape L = lshape L2 \<Longrightarrow> rshape R = rshape R2 \<Longrightarrow>
   (case splay_loop i l k v r L R ls rs of (t, L, R, _, _) \<Rightarrow> loop_shape t L R) =
   (case sedgewick_loop i l k v r L2 R2 of (t, L, R) \<Rightarrow> loop_shape t L R)"
  by (induction i l k v r arbitrary: L R L2 R2 ls rs rule: splay_induct)
    (simp_all add: splay_loop_eqs sedgewick_loop_eqs loop_shape_def)

section \<open>Properties\<close>

definition example_tree :: sTree where
  "example_tree = TNode (TNode TNULL 1 1 TNULL) 3 4 (TNode (TNode TNULL 4 1 TNULL) 7 2 TNULL)"

text \<open>
  C37: \<open>splay\<close> keeps the keys in their order and every size field right, so that \<open>check_sTree\<close> passes; it
  brings the key to the root if the tree has it, and the size of the right subtree is then the number
  of larger keys.
\<close>

theorem splay_correct:
  assumes "ordered t" "check_sTree t = Inr ()"
  shows "keys (splay i t) = keys t \<and> check_sTree (splay i t) = Inr () \<and>
     (i \<in> set (keys t) \<longrightarrow> tkey (splay i t) = i \<and>
        node_value (tright (splay i t)) = int (card {x \<in> set (keys t). i < x}))"
proof -
  have t: "tree_ok t"
    using assms by (simp add: tree_ok_def check_sTree_sized)
  have "tkey (splay i t) = i" if "i \<in> set (keys t)"
    using splay_found [OF t that] by (metis sTree.sel(2))
  then show ?thesis
    using splay_ok [OF t, of i] splay_rank [OF t] by (auto simp: tree_ok_def check_sTree_sized)
qed

theorem splay_correct_witness:
  "keys (splay 4 example_tree) = [1, 3, 4, 7] \<and> tkey (splay 4 example_tree) = 4 \<and>
   node_value (tright (splay 4 example_tree)) = 1"
proof -
  have "{x \<in> {1, 3, 4, 7::int}. 4 < x} = {7}" by auto
  then show ?thesis
    using splay_correct [of example_tree 4] by (auto simp: example_tree_def)
qed

text \<open>
  C38: insertion and deletion return, keep the tree ordered with right size fields, and add and remove
  exactly the key.
\<close>

theorem insert_delete_correct:
  assumes "ordered t" "check_sTree t = Inr ()"
  shows "(\<exists>t'. insert_key i t = Inr t' \<and> ordered t' \<and> check_sTree t' = Inr () \<and> set (keys t') = insert i (set (keys t))) \<and>
     (\<exists>t'. splay_delete i t = Inr t' \<and> ordered t' \<and> check_sTree t' = Inr () \<and> set (keys t') = set (keys t) - {i})"
proof -
  have "tree_ok t"
    using assms by (simp add: tree_ok_def check_sTree_sized)
  then show ?thesis
    using insert_key_ok [of t i] splay_delete_ok [of t i] by (auto simp: tree_ok_def check_sTree_sized)
qed

theorem insert_delete_correct_witness:
  "\<exists>t'. splay_delete 3 example_tree = Inr t' \<and> set (keys t') = {1, 4, 7}"
  using insert_delete_correct [of example_tree 3] by (auto simp: example_tree_def)

text \<open>
  \<open>sedgewickized_splay\<close> builds the same tree as \<open>splay\<close>, size fields aside.
\<close>

lemma sedgewickized_splay_equiv: "shape (sedgewickized_splay i t) = shape (splay i t)"
proof (cases t)
  case (TNode l k v r)
  obtain l1 k1 v1 r1 L1 R1 ls rs where 1: "splay_loop i l k v r [] [] 0 0 = ((l1, k1, v1, r1), L1, R1, ls, rs)"
    by (metis prod.exhaust)
  obtain l2 k2 v2 r2 L2 R2 where 2: "sedgewick_loop i l k v r [] [] = ((l2, k2, v2, r2), L2, R2)"
    by (metis prod.exhaust)
  have "loop_shape (l1, k1, v1, r1) L1 R1 = loop_shape (l2, k2, v2, r2) L2 R2"
    using splay_loop_shape [of "[]" "[]" "[]" "[]" i l k v r 0 0] by (simp add: 1 2)
  then show ?thesis
    by (simp add: TNode splay_def sedgewickized_splay_def 1 2 Let_def loop_shape_def shape_join_left shape_join_right
        lshape_resize rshape_resize rev_map [symmetric])
qed (simp add: sedgewickized_splay_def)

end
