(* ===== verification/Stack_Dist.thy ===== *)
theory Stack_Dist
  imports Splay CacheObj
begin

text \<open>
  The distances of \<open>profiler/dist.c\<close> and the LRU profiler of \<open>profiler/profilerLRU.c\<close>. The stack distance
  of a request is the number of distinct objects requested since the last request for the same object;
  the program computes it from a splay tree of last access times and a table from objects to times.

  The table is a \<open>GHashTable\<close> of GLib, a parameter here: a record \<open>'h g_hash\<close> of its operations on a
  type \<open>'h\<close> of tables, of which \<open>g_hash_laws\<close> states the documented behaviour. A lookup gives a pointer,
  null (zero) for a key that is not there. A reader is the list of the requests it yields.
\<close>

section \<open>Model\<close>

record 'h g_hash =
  g_hash_table_new :: 'h
  g_hash_table_lookup :: "'h \<Rightarrow> 64 word \<Rightarrow> 64 word"
  g_hash_table_insert :: "'h \<Rightarrow> 64 word \<Rightarrow> 64 word \<Rightarrow> 'h"

definition g_hash_laws :: "'h g_hash \<Rightarrow> bool" where
  "g_hash_laws G \<longleftrightarrow>
     (\<forall>k. g_hash_table_lookup G (g_hash_table_new G) k = 0) \<and>
     (\<forall>h k v k'. g_hash_table_lookup G (g_hash_table_insert G h k v) k' =
        (if k' = k then v else g_hash_table_lookup G h k'))"

datatype dist_type = DIST_SINCE_LAST_ACCESS | DIST_SINCE_FIRST_ACCESS | STACK_DIST | FUTURE_STACK_DIST

text \<open>The conversions \<open>GSIZE_TO_POINTER\<close> and \<open>GPOINTER_TO_SIZE\<close> of a timestamp.\<close>

definition ts_to_ptr :: "int \<Rightarrow> 64 word" where
  "ts_to_ptr ts = word_of_int ts"

definition ptr_to_ts :: "64 word \<Rightarrow> int" where
  "ptr_to_ts p = to_i64 (uint p)"

definition get_access_dist_add_req ::
  "'h g_hash \<Rightarrow> request \<Rightarrow> 'h \<Rightarrow> int \<Rightarrow> dist_type \<Rightarrow> (int \<times> 'h) result" where
  "get_access_dist_add_req G req hash_table curr_ts dist_type =
     (let gp = g_hash_table_lookup G hash_table (r_obj_id req);
          ret = (if gp = 0 then -1 else curr_ts - ptr_to_ts gp)
      in if dist_type = DIST_SINCE_LAST_ACCESS then
           Inr (ret, g_hash_table_insert G hash_table (r_obj_id req) (ts_to_ptr curr_ts))
         else if dist_type = DIST_SINCE_FIRST_ACCESS then Inr (ret, hash_table)
         else Inl Abort)"

text \<open>Returns the distance, the value stored through \<open>last_access_ts\<close>, the new tree and the new table.\<close>

definition get_stack_dist_add_req ::
  "'h g_hash \<Rightarrow> request \<Rightarrow> sTree \<Rightarrow> 'h \<Rightarrow> int \<Rightarrow> (int \<times> int \<times> sTree \<times> 'h) result" where
  "get_stack_dist_add_req G req splay_tree hash_table curr_ts =
     (let gp = g_hash_table_lookup G hash_table (r_obj_id req) in
      bindE
        (if gp = 0 then bindE (insert_key curr_ts splay_tree) (\<lambda>t. Inr (-1, -1, t))
         else
           let old_ts = ptr_to_ts gp; newtree = splay old_ts splay_tree in
           bindE (case newtree of TNULL \<Rightarrow> Inl NullDeref | TNode l k v r \<Rightarrow> Inr (node_value r)) (\<lambda>ret.
           bindE (splay_delete old_ts newtree) (\<lambda>t.
           bindE (insert_key curr_ts t) (\<lambda>t. Inr (ret, old_ts, t)))))
        (\<lambda>(ret, last_access_ts, t).
           Inr (ret, last_access_ts, t, g_hash_table_insert G hash_table (r_obj_id req) (ts_to_ptr curr_ts))))"

definition UINT32_MAX :: int where
  "UINT32_MAX = 2 ^ 32 - 1"

text \<open>A store into the array of 32-bit distances.\<close>

definition put_dist :: "int list \<Rightarrow> int \<Rightarrow> int \<Rightarrow> int list result" where
  "put_dist a i d =
     (if 0 \<le> i \<and> nat i < length a then Inr (a[nat i := to_i32 d]) else Inl OutOfBounds)"

fun stack_dist_loop ::
  "'h g_hash \<Rightarrow> dist_type \<Rightarrow> request list \<Rightarrow> int \<Rightarrow> sTree \<Rightarrow> 'h \<Rightarrow> int list \<Rightarrow> int list result" where
  "stack_dist_loop G dist_type [] curr_ts t h a = Inr a"
| "stack_dist_loop G dist_type (req # reader) curr_ts t h a =
     bindE (get_stack_dist_add_req G req t h curr_ts) (\<lambda>(stack_dist, last_access_ts, t, h).
     if stack_dist > UINT32_MAX then Inl Abort
     else
       bindE
         (if dist_type = STACK_DIST then put_dist a curr_ts stack_dist
          else if dist_type = FUTURE_STACK_DIST then
            (if last_access_ts \<noteq> -1 then put_dist a last_access_ts stack_dist else Inr a)
          else Inl Abort)
         (\<lambda>a. stack_dist_loop G dist_type reader (curr_ts + 1) t h a))"

text \<open>\<open>junk\<close> is what \<open>malloc\<close> leaves in the array, which only \<open>FUTURE_STACK_DIST\<close> initialises.\<close>

definition get_stack_dist :: "'h g_hash \<Rightarrow> (nat \<Rightarrow> int) \<Rightarrow> request list \<Rightarrow> dist_type \<Rightarrow> int list result" where
  "get_stack_dist G junk reader dist_type =
     (let a = (if dist_type = FUTURE_STACK_DIST then replicate (length reader) (-1)
               else map junk [0..<length reader])
      in stack_dist_loop G dist_type reader 0 TNULL (g_hash_table_new G) a)"

fun access_dist_loop ::
  "'h g_hash \<Rightarrow> dist_type \<Rightarrow> request list \<Rightarrow> int \<Rightarrow> 'h \<Rightarrow> int list \<Rightarrow> int list result" where
  "access_dist_loop G dist_type [] curr_ts h a = Inr a"
| "access_dist_loop G dist_type (req # reader) curr_ts h a =
     bindE (get_access_dist_add_req G req h curr_ts dist_type) (\<lambda>(dist, h).
     if dist > UINT32_MAX then Inl Abort
     else bindE (put_dist a curr_ts dist) (\<lambda>a. access_dist_loop G dist_type reader (curr_ts + 1) h a))"

definition get_access_dist :: "'h g_hash \<Rightarrow> (nat \<Rightarrow> int) \<Rightarrow> request list \<Rightarrow> dist_type \<Rightarrow> int list result" where
  "get_access_dist G junk reader dist_type =
     access_dist_loop G dist_type reader 0 (g_hash_table_new G) (map junk [0..<length reader])"

text \<open>The profiler. Its counters have 64 bits and never exceed the number of requests.\<close>

fun hit_cnt_loop :: "'h g_hash \<Rightarrow> int \<Rightarrow> request list \<Rightarrow> int \<Rightarrow> sTree \<Rightarrow> 'h \<Rightarrow> int list \<Rightarrow> int list result" where
  "hit_cnt_loop G cap [] ts t h a = Inr a"
| "hit_cnt_loop G cap (req # reader) ts t h a =
     bindE (get_stack_dist_add_req G req t h ts) (\<lambda>(stack_dist, _, t, h).
     bindE
       (if stack_dist = -1 then Inr a
        else if stack_dist + 1 \<le> cap then
          (if 0 \<le> stack_dist + 1 \<and> nat (stack_dist + 1) < length a
           then Inr (a[nat (stack_dist + 1) := a ! nat (stack_dist + 1) + 1]) else Inl OutOfBounds)
        else Inr a)
       (\<lambda>a. hit_cnt_loop G cap reader (ts + 1) t h a))"

text \<open>The accumulation: entry \<open>i\<close> receives entry \<open>i - 1\<close>, which has been accumulated before.\<close>

fun accumulate :: "int \<Rightarrow> int list \<Rightarrow> int list" where
  "accumulate s [] = []"
| "accumulate s (x # xs) = (x + s) # accumulate (x + s) xs"

definition get_lru_hit_cnt :: "'h g_hash \<Rightarrow> request list \<Rightarrow> nat \<Rightarrow> int list result" where
  "get_lru_hit_cnt G reader cap =
     bindE (hit_cnt_loop G (int cap) reader 0 TNULL (g_hash_table_new G) (replicate (cap + 1) 0)) (\<lambda>a.
     Inr (accumulate 0 a))"

definition get_lru_miss_cnt :: "'h g_hash \<Rightarrow> request list \<Rightarrow> nat \<Rightarrow> int list result" where
  "get_lru_miss_cnt G reader cap =
     bindE (get_lru_hit_cnt G reader cap) (\<lambda>hit_cnt. Inr (map (\<lambda>h. int (length reader) - h) hit_cnt))"

section \<open>Stack distances\<close>

text \<open>
  A history lists the requested objects, the latest first. \<open>last_ts\<close> is the time of the last request
  for an object.
\<close>

definition stack_distance :: "obj_id list \<Rightarrow> obj_id \<Rightarrow> int" where
  "stack_distance hist x = (if x \<in> set hist then int (card (set (takeWhile (\<lambda>y. y \<noteq> x) hist))) else -1)"

text \<open>
  What the program reports: an object whose last request was the very first one has timestamp zero, which
  the table cannot tell from a missing entry.
\<close>

definition reported_distance :: "obj_id list \<Rightarrow> obj_id \<Rightarrow> int" where
  "reported_distance hist x = (if dropWhile (\<lambda>y. y \<noteq> x) hist = [x] then -1 else stack_distance hist x)"

primrec last_ts :: "obj_id list \<Rightarrow> obj_id \<rightharpoonup> int" where
  "last_ts [] = Map.empty"
| "last_ts (x # hist) = (last_ts hist)(x \<mapsto> int (length hist))"

lemma last_ts_None: "last_ts hist x = None \<longleftrightarrow> x \<notin> set hist"
  by (induction hist) auto

lemma dom_last_ts: "dom (last_ts hist) = set hist"
  using last_ts_None by (auto simp: dom_def)

lemma last_ts_bounds: "last_ts hist x = Some j \<Longrightarrow> 0 \<le> j \<and> j < int (length hist)"
  by (induction hist) (auto split: if_splits)

lemma last_ts_inj: "last_ts hist x = Some j \<Longrightarrow> last_ts hist y = Some j \<Longrightarrow> x = y"
  using last_ts_bounds by (induction hist) (force split: if_splits)+

lemma last_ts_zero: "last_ts hist x = Some 0 \<longleftrightarrow> dropWhile (\<lambda>y. y \<noteq> x) hist = [x]"
proof (induction hist)
  case (Cons z hist)
  then show ?case by (cases hist) auto
qed simp

lemma last_ts_later:
  "last_ts hist x = Some j \<Longrightarrow> {y. \<exists>k. last_ts hist y = Some k \<and> j < k} = set (takeWhile (\<lambda>y. y \<noteq> x) hist)"
proof (induction hist)
  case (Cons z hist)
  show ?case
  proof (cases "z = x")
    case True
    then show ?thesis
      using Cons.prems last_ts_bounds [of hist] by (force split: if_splits)
  next
    case False
    then have x: "last_ts hist x = Some j"
      using Cons.prems by simp
    have "{y. \<exists>k. last_ts (z # hist) y = Some k \<and> j < k} = insert z {y. \<exists>k. last_ts hist y = Some k \<and> j < k}"
      using last_ts_bounds [OF x] by auto
    then show ?thesis
      using False Cons.IH [OF x] by simp
  qed
qed simp

text \<open>The times in the tree that are later than the last request for \<open>x\<close> count the objects requested since.\<close>

lemma card_later:
  assumes "last_ts hist x = Some j" "S = {0} \<union> {k. \<exists>y. last_ts hist y = Some k}"
  shows "int (card {k \<in> S. j < k}) = stack_distance hist x"
proof -
  let ?A = "{y. \<exists>k. last_ts hist y = Some k \<and> j < k}"
  have "{k \<in> S. j < k} = (\<lambda>y. the (last_ts hist y)) ` ?A"
    using last_ts_bounds [OF assms(1)] unfolding assms(2) by (force simp: image_iff)
  moreover have "inj_on (\<lambda>y. the (last_ts hist y)) ?A"
    by (rule inj_onI) (auto intro: last_ts_inj)
  moreover have "x \<in> set hist"
    using assms(1) last_ts_None [of hist x] by force
  ultimately show ?thesis
    using last_ts_later [OF assms(1)] by (simp add: stack_distance_def card_image)
qed

section \<open>The state of the computation\<close>

definition dist_state :: "'h g_hash \<Rightarrow> obj_id list \<Rightarrow> sTree \<Rightarrow> 'h \<Rightarrow> bool" where
  "dist_state G hist t h \<longleftrightarrow> tree_ok t \<and>
     set (keys t) = (if hist = [] then {} else {0} \<union> {k. \<exists>y. last_ts hist y = Some k}) \<and>
     (\<forall>x. g_hash_table_lookup G h x = (case last_ts hist x of None \<Rightarrow> 0 | Some j \<Rightarrow> ts_to_ptr j))"

lemma ts_to_ptr_zero: "0 \<le> j \<Longrightarrow> j < 2 ^ 63 \<Longrightarrow> ts_to_ptr j = 0 \<longleftrightarrow> j = 0"
  by (simp add: ts_to_ptr_def word_of_int_eq_0_iff) (auto simp: zdvd_not_zless)

lemma ptr_to_ts_to_ptr: "0 \<le> j \<Longrightarrow> j < 2 ^ 63 \<Longrightarrow> ptr_to_ts (ts_to_ptr j) = j"
  by (simp add: ptr_to_ts_def ts_to_ptr_def to_i64_id take_bit_int_eq_self uint_word_of_int)

lemma dist_state_init: "g_hash_laws G \<Longrightarrow> dist_state G [] TNULL (g_hash_table_new G)"
  by (simp add: dist_state_def g_hash_laws_def)

lemma times_Cons:
  "{k. \<exists>y. last_ts (x # hist) y = Some k} = insert (int (length hist)) {k. \<exists>y. y \<noteq> x \<and> last_ts hist y = Some k}"
  by auto

lemma times_insert:
  assumes "hist = [] \<longrightarrow> K = {}" "hist \<noteq> [] \<longrightarrow> K = {0} \<union> {k. \<exists>y. last_ts hist y = Some k}"
    "last_ts hist x = None \<or> last_ts hist x = Some 0"
  shows "insert (int (length hist)) K = {0} \<union> {k. \<exists>y. last_ts (x # hist) y = Some k}"
proof (cases "hist = []")
  case False
  have "{0} \<union> {k. \<exists>y. y \<noteq> x \<and> last_ts hist y = Some k} = {0} \<union> {k. \<exists>y. last_ts hist y = Some k}"
    using assms(3) by (auto, metis option.distinct(1), metis option.inject)
  then show ?thesis
    using assms(2) False unfolding times_Cons by auto
qed (use assms(1) in \<open>simp add: times_Cons\<close>)

lemma times_move:
  assumes "K = {0} \<union> {k. \<exists>y. last_ts hist y = Some k}" "last_ts hist x = Some j" "j \<noteq> 0"
  shows "insert (int (length hist)) (K - {j}) = {0} \<union> {k. \<exists>y. last_ts (x # hist) y = Some k}"
proof -
  have "(\<exists>y. y \<noteq> x \<and> last_ts hist y = Some k) \<longleftrightarrow> (\<exists>y. last_ts hist y = Some k) \<and> k \<noteq> j" for k
    using assms(2) last_ts_inj [OF assms(2)] by (metis option.inject)
  then show ?thesis
    unfolding times_Cons assms(1) using assms(3) by auto
qed

definition last_access :: "obj_id list \<Rightarrow> obj_id \<Rightarrow> int" where
  "last_access hist x = (case last_ts hist x of None \<Rightarrow> -1 | Some j \<Rightarrow> if j = 0 then -1 else j)"

lemma get_stack_dist_add_req_ok:
  assumes "g_hash_laws G" "dist_state G hist t h" "length hist < 2 ^ 63" "x = r_obj_id req"
  shows "\<exists>t' h'. get_stack_dist_add_req G req t h (int (length hist)) =
      Inr (reported_distance hist x, last_access hist x, t', h') \<and> dist_state G (x # hist) t' h'"
proof -
  let ?n = "int (length hist)" and ?gp = "g_hash_table_lookup G h x"
  let ?h = "g_hash_table_insert G h x (ts_to_ptr ?n)"
  have t: "tree_ok t" and k: "set (keys t) = (if hist = [] then {} else {0} \<union> {k. \<exists>y. last_ts hist y = Some k})"
    and gp: "?gp = (case last_ts hist x of None \<Rightarrow> 0 | Some j \<Rightarrow> ts_to_ptr j)"
    using assms(2) by (auto simp: dist_state_def)
  have h: "\<forall>y. g_hash_table_lookup G ?h y = (case last_ts (x # hist) y of None \<Rightarrow> 0 | Some j \<Rightarrow> ts_to_ptr j)"
    using assms(1,2) by (simp add: g_hash_laws_def dist_state_def)
  show ?thesis
  proof (cases "last_ts hist x = None \<or> last_ts hist x = Some 0")
    case True
    obtain t' where i: "insert_key ?n t = Inr t'" "tree_ok t'" "set (keys t') = insert ?n (set (keys t))"
      using insert_key_ok [OF t] by blast
    have z: "?gp = 0"
      using True gp by (auto simp: ts_to_ptr_def)
    have "set (keys t') = {0} \<union> {k. \<exists>y. last_ts (x # hist) y = Some k}"
      unfolding i(3) by (rule times_insert [OF _ _ True]) (use k in auto)
    then have "dist_state G (x # hist) t' ?h"
      using i(2) h by (simp add: dist_state_def)
    moreover have "get_stack_dist_add_req G req t h ?n = Inr (-1, -1, t', ?h)"
      using z i(1) assms(4) by (simp add: get_stack_dist_add_req_def)
    moreover have "reported_distance hist x = -1" "last_access hist x = -1"
      using True last_ts_zero [of hist x] last_ts_None [of hist x]
      by (auto simp: reported_distance_def stack_distance_def last_access_def)
    ultimately show ?thesis
      by auto
  next
    case False
    then obtain j where j: "last_ts hist x = Some j" "j \<noteq> 0"
      by auto
    then have b: "0 \<le> j" "j < 2 ^ 63" "hist \<noteq> []"
      using last_ts_bounds [OF j(1)] assms(3) by auto
    have gp': "?gp \<noteq> 0" "ptr_to_ts ?gp = j"
      using gp j b(1,2) by (simp_all add: ts_to_ptr_zero ptr_to_ts_to_ptr)
    have K: "set (keys t) = {0} \<union> {k. \<exists>y. last_ts hist y = Some k}" and m: "j \<in> set (keys t)"
      using k b(3) j(1) by auto
    have s: "tree_ok (splay j t)" "keys (splay j t) = keys t"
      using splay_ok [OF t] by auto
    obtain l v r where sp: "splay j t = TNode l j v r"
      using splay_found [OF t m] by metis
    have r: "node_value r = reported_distance hist x"
      using splay_rank [OF t m] card_later [OF j(1) K] last_ts_zero [of hist x] j by (simp add: sp reported_distance_def)
    obtain t1 where d: "splay_delete j (splay j t) = Inr t1" "tree_ok t1" "set (keys t1) = set (keys t) - {j}"
      using splay_delete_ok [OF s(1), of j] s(2) by auto
    obtain t' where i: "insert_key ?n t1 = Inr t'" "tree_ok t'" "set (keys t') = insert ?n (set (keys t1))"
      using insert_key_ok [OF d(2)] by blast
    have "get_stack_dist_add_req G req t h ?n = Inr (reported_distance hist x, j, t', ?h)"
      using gp' d(1) i(1) assms(4) r by (simp add: get_stack_dist_add_req_def sp)
    moreover have "dist_state G (x # hist) t' ?h"
      using i(2,3) d(3) times_move [OF K j] h by (simp add: dist_state_def)
    ultimately show ?thesis
      using j by (auto simp: last_access_def)
  qed
qed

section \<open>The loops\<close>

fun distances :: "(obj_id list \<Rightarrow> obj_id \<Rightarrow> int) \<Rightarrow> obj_id list \<Rightarrow> obj_id list \<Rightarrow> int list" where
  "distances D hist [] = []"
| "distances D hist (x # xs) = D hist x # distances D (x # hist) xs"

lemma length_distances [simp]: "length (distances D hist xs) = length xs"
  by (induction D hist xs rule: distances.induct) auto

lemma stack_distance_bounds: "-1 \<le> stack_distance hist x" "stack_distance hist x \<le> int (length hist)"
proof -
  have "card (set (takeWhile (\<lambda>y. y \<noteq> x) hist)) \<le> length hist"
    by (meson card_length length_takeWhile_le order_trans)
  then show "-1 \<le> stack_distance hist x" "stack_distance hist x \<le> int (length hist)"
    by (simp_all add: stack_distance_def)
qed

lemma reported_distance_bounds: "-1 \<le> reported_distance hist x" "reported_distance hist x \<le> int (length hist)"
  using stack_distance_bounds [of hist x] by (simp_all add: reported_distance_def)

lemma to_i32_id: "- (2 ^ 31) \<le> x \<Longrightarrow> x < 2 ^ 31 \<Longrightarrow> to_i32 x = x"
  by (simp add: to_i32_def)

lemma stack_dist_loop_ok:
  assumes "g_hash_laws G"
  shows "dist_state G hist t h \<Longrightarrow> length hist + length reader < 2 ^ 31 \<Longrightarrow> length a = length hist + length reader \<Longrightarrow>
    stack_dist_loop G STACK_DIST reader (int (length hist)) t h a =
      Inr (take (length hist) a @ distances reported_distance hist (map r_obj_id reader))"
proof (induction reader arbitrary: hist t h a)
  case (Cons req reader)
  let ?x = "r_obj_id req" and ?d = "reported_distance hist (r_obj_id req)" and ?a = "a[length hist := reported_distance hist (r_obj_id req)]"
  have n: "length hist < 2 ^ 63" "length hist < 2 ^ 31"
    using Cons.prems(2) by simp_all
  obtain t' h' where g: "get_stack_dist_add_req G req t h (int (length hist)) = Inr (?d, last_access hist ?x, t', h')"
      "dist_state G (?x # hist) t' h'"
    using get_stack_dist_add_req_ok [OF assms Cons.prems(1) n(1)] by blast
  have d: "-1 \<le> ?d" "?d \<le> int (length hist)"
    by (rule reported_distance_bounds)+
  then have d': "\<not> ?d > UINT32_MAX" "to_i32 ?d = ?d"
    using n(2) by (simp_all add: UINT32_MAX_def to_i32_id)
  have "stack_dist_loop G STACK_DIST (req # reader) (int (length hist)) t h a =
      stack_dist_loop G STACK_DIST reader (int (length (?x # hist))) t' h' ?a"
    using g(1) d' Cons.prems(3) by (simp add: put_dist_def add.commute)
  also have "\<dots> = Inr (take (length (?x # hist)) ?a @ distances reported_distance (?x # hist) (map r_obj_id reader))"
    by (rule Cons.IH [OF g(2)]) (use Cons.prems(2,3) in auto)
  also have "take (length (?x # hist)) ?a = take (length hist) a @ [?d]"
    using Cons.prems(3) by (simp add: take_Suc_conv_app_nth)
  finally show ?case
    by simp
qed simp

text \<open>The number of requests an LRU cache of \<open>k\<close> objects hits, as the distances tell it.\<close>

definition hits_at :: "int list \<Rightarrow> nat \<Rightarrow> int" where
  "hits_at ds k = int (length (filter (\<lambda>d. 0 \<le> d \<and> d < int k) ds))"

definition count_dist :: "int list \<Rightarrow> nat \<Rightarrow> int" where
  "count_dist ds k = int (length (filter (\<lambda>d. d \<noteq> -1 \<and> d + 1 = int k) ds))"

lemma count_dist_Cons: "count_dist (d # ds) k = (if d \<noteq> -1 \<and> d + 1 = int k then 1 else 0) + count_dist ds k"
  by (simp add: count_dist_def)

lemma hit_cnt_loop_ok:
  assumes "g_hash_laws G"
  shows "dist_state G hist t h \<Longrightarrow> length hist + length reader < 2 ^ 63 \<Longrightarrow> length a = cap + 1 \<Longrightarrow>
    hit_cnt_loop G (int cap) reader (int (length hist)) t h a =
      Inr (map (\<lambda>k. a ! k + count_dist (distances reported_distance hist (map r_obj_id reader)) k) [0..<cap + 1])"
proof (induction reader arbitrary: hist t h a)
  case Nil
  then show ?case
    using map_nth [of a] by (simp add: count_dist_def del: upt_Suc)
next
  case (Cons req reader)
  let ?x = "r_obj_id req" and ?d = "reported_distance hist (r_obj_id req)"
  let ?a = "if ?d \<noteq> -1 \<and> ?d + 1 \<le> int cap then a[nat (?d + 1) := a ! nat (?d + 1) + 1] else a"
  have n: "length hist < 2 ^ 63"
    using Cons.prems(2) by simp
  obtain t' h' where g: "get_stack_dist_add_req G req t h (int (length hist)) = Inr (?d, last_access hist ?x, t', h')"
      "dist_state G (?x # hist) t' h'"
    using get_stack_dist_add_req_ok [OF assms Cons.prems(1) n] by blast
  have d: "-1 \<le> ?d"
    by (rule reported_distance_bounds)
  have "hit_cnt_loop G (int cap) (req # reader) (int (length hist)) t h a =
      hit_cnt_loop G (int cap) reader (int (length (?x # hist))) t' h' ?a"
    using g(1) d Cons.prems(3) by (simp add: add.commute nat_less_iff)
  also have "\<dots> = Inr (map (\<lambda>k. ?a ! k + count_dist (distances reported_distance (?x # hist) (map r_obj_id reader)) k) [0..<cap + 1])"
    by (rule Cons.IH [OF g(2)]) (use Cons.prems(2,3) in auto)
  also have "\<dots> = Inr (map (\<lambda>k. a ! k + count_dist (distances reported_distance hist (map r_obj_id (req # reader))) k) [0..<cap + 1])"
    using d Cons.prems(3) by (auto simp: count_dist_Cons nth_list_update nat_eq_iff simp del: upt_Suc)
  finally show ?case .
qed

lemma accumulate_nth: "k < length a \<Longrightarrow> accumulate s a ! k = s + sum_list (take (Suc k) a)"
proof (induction s a arbitrary: k rule: accumulate.induct)
  case (2 s x xs)
  then show ?case by (cases k) auto
qed simp

lemma length_accumulate [simp]: "length (accumulate s a) = length a"
  by (induction s a rule: accumulate.induct) auto

lemma sum_count_dist: "\<forall>d \<in> set ds. -1 \<le> d \<Longrightarrow> (\<Sum>j \<le> k. count_dist ds j) = hits_at ds k"
proof (induction ds)
  case (Cons d ds)
  have "(\<Sum>j \<le> k. if d \<noteq> -1 \<and> d + 1 = int j then 1 else 0) = (if 0 \<le> d \<and> d < int k then 1 else (0::int))"
  proof (cases "0 \<le> d \<and> d < int k")
    case True
    then have "(\<Sum>j \<le> k. if d \<noteq> -1 \<and> d + 1 = int j then 1 else 0) = (\<Sum>j \<le> k. if j = nat (d + 1) then 1 else (0::int))"
      by (intro sum.cong) auto
    then show ?thesis
      using True by (simp add: sum.delta nat_le_iff)
  next
    case False
    then show ?thesis
      using Cons.prems by (intro trans [OF sum.neutral]) auto
  qed
  then show ?case
    using Cons by (simp add: count_dist_Cons sum.distrib hits_at_def)
qed (simp add: count_dist_def hits_at_def)

lemma distances_bounds: "d \<in> set (distances reported_distance hist xs) \<Longrightarrow> -1 \<le> d"
  by (induction xs arbitrary: hist) (auto simp: reported_distance_bounds)

lemma get_lru_hit_cnt_ok:
  assumes "g_hash_laws G" "length reader < 2 ^ 63"
  shows "get_lru_hit_cnt G reader cap =
    Inr (map (hits_at (distances reported_distance [] (map r_obj_id reader))) [0..<cap + 1])"
proof -
  let ?ds = "distances reported_distance [] (map r_obj_id reader)"
  let ?a = "map (\<lambda>k. replicate (cap + 1) 0 ! k + count_dist ?ds k) [0..<cap + 1]"
  have "get_lru_hit_cnt G reader cap = Inr (accumulate 0 ?a)"
    using hit_cnt_loop_ok [OF assms(1) dist_state_init [OF assms(1)], of reader "replicate (cap + 1) 0" cap] assms(2)
    by (simp add: get_lru_hit_cnt_def del: upt_Suc replicate_Suc)
  moreover have "accumulate 0 ?a ! k = hits_at ?ds k" if "k < cap + 1" for k
  proof -
    have "take (Suc k) ?a = map (count_dist ?ds) [0..<Suc k]"
      using that by (auto simp: take_map take_upt simp del: upt_Suc replicate_Suc)
    then have "accumulate 0 ?a ! k = sum_list (map (count_dist ?ds) [0..<Suc k])"
      using that by (subst accumulate_nth) (simp_all del: upt_Suc)
    also have "\<dots> = (\<Sum>j \<le> k. count_dist ?ds j)"
      by (simp only: interv_sum_list_conv_sum_set_nat set_upt atLeast0LessThan lessThan_Suc_atMost)
    finally show ?thesis
      using sum_count_dist [of ?ds k] distances_bounds by auto
  qed
  ultimately show ?thesis
    by (auto intro!: nth_equalityI simp del: upt_Suc)
qed

section \<open>Access distances\<close>

definition reported_access :: "obj_id list \<Rightarrow> obj_id \<Rightarrow> int" where
  "reported_access hist x =
     (if x \<notin> set hist \<or> dropWhile (\<lambda>y. y \<noteq> x) hist = [x] then -1
      else int (length (takeWhile (\<lambda>y. y \<noteq> x) hist)) + 1)"

lemma last_ts_age: "last_ts hist x = Some j \<Longrightarrow> int (length hist) - j = int (length (takeWhile (\<lambda>y. y \<noteq> x) hist)) + 1"
  by (induction hist) (auto split: if_splits)

definition times_of :: "'h g_hash \<Rightarrow> obj_id list \<Rightarrow> 'h \<Rightarrow> bool" where
  "times_of G hist h \<longleftrightarrow> (\<forall>x. g_hash_table_lookup G h x = (case last_ts hist x of None \<Rightarrow> 0 | Some j \<Rightarrow> ts_to_ptr j))"

lemma get_access_dist_last_ok:
  assumes "g_hash_laws G" "times_of G hist h" "length hist < 2 ^ 63" "x = r_obj_id req"
  shows "\<exists>h'. get_access_dist_add_req G req h (int (length hist)) DIST_SINCE_LAST_ACCESS = Inr (reported_access hist x, h') \<and>
    times_of G (x # hist) h'"
proof -
  have "times_of G (x # hist) (g_hash_table_insert G h x (ts_to_ptr (int (length hist))))"
    using assms(1,2) by (simp add: times_of_def g_hash_laws_def)
  moreover have "(if g_hash_table_lookup G h x = 0 then -1 else int (length hist) - ptr_to_ts (g_hash_table_lookup G h x)) =
      reported_access hist x"
  proof (cases "last_ts hist x")
    case None
    then show ?thesis
      using assms(2) last_ts_None [of hist x] by (simp add: times_of_def reported_access_def)
  next
    case (Some j)
    then have "0 \<le> j" "j < 2 ^ 63" "x \<in> set hist"
      using last_ts_bounds [OF Some] assms(3) last_ts_None [of hist x] by auto
    then show ?thesis
      using Some assms(2) last_ts_zero [of hist x] last_ts_age [OF Some]
      by (auto simp: times_of_def reported_access_def ts_to_ptr_zero ptr_to_ts_to_ptr)
  qed
  ultimately show ?thesis
    using assms(4) by (simp add: get_access_dist_add_req_def Let_def cong: if_cong)
qed

lemma reported_access_bounds: "-1 \<le> reported_access hist x" "reported_access hist x \<le> int (length hist) + 1"
  by (simp_all add: reported_access_def length_takeWhile_le)

lemma put_next:
  assumes "n < length a" "-1 \<le> d" "d \<le> int n + 1" "n < 2 ^ 31 - 1"
  shows "put_dist a (int n) d = Inr (a[n := d])" "take (Suc n) (a[n := d]) = take n a @ [d]" "\<not> d > UINT32_MAX"
proof -
  have "to_i32 d = d"
    using assms by (intro to_i32_id) simp_all
  then show "put_dist a (int n) d = Inr (a[n := d])"
    using assms(1) by (simp add: put_dist_def)
  show "take (Suc n) (a[n := d]) = take n a @ [d]"
    using assms(1) by (simp add: take_Suc_conv_app_nth)
  show "\<not> d > UINT32_MAX"
    using assms by (simp add: UINT32_MAX_def)
qed

lemma access_dist_last_loop_ok:
  assumes "g_hash_laws G"
  shows "times_of G hist h \<Longrightarrow> length hist + length reader < 2 ^ 31 \<Longrightarrow> length a = length hist + length reader \<Longrightarrow>
    access_dist_loop G DIST_SINCE_LAST_ACCESS reader (int (length hist)) h a =
      Inr (take (length hist) a @ distances reported_access hist (map r_obj_id reader))"
proof (induction reader arbitrary: hist h a)
  case (Cons req reader)
  let ?x = "r_obj_id req" and ?d = "reported_access hist (r_obj_id req)"
  have n: "length hist < 2 ^ 63" "length hist < length a" "length hist < 2 ^ 31 - 1"
    using Cons.prems(2,3) by simp_all
  obtain h' where g: "get_access_dist_add_req G req h (int (length hist)) DIST_SINCE_LAST_ACCESS = Inr (?d, h')"
      "times_of G (?x # hist) h'"
    using get_access_dist_last_ok [OF assms Cons.prems(1) n(1)] by blast
  note put = put_next [OF n(2) reported_access_bounds n(3)]
  have "access_dist_loop G DIST_SINCE_LAST_ACCESS (req # reader) (int (length hist)) h a =
      access_dist_loop G DIST_SINCE_LAST_ACCESS reader (int (length (?x # hist))) h' (a[length hist := ?d])"
    using g(1) put(1,3) by (simp add: add.commute)
  also have "\<dots> = Inr (take (length (?x # hist)) (a[length hist := ?d]) @ distances reported_access (?x # hist) (map r_obj_id reader))"
    by (rule Cons.IH [OF g(2)]) (use Cons.prems(2,3) in auto)
  finally show ?case
    using put(2) by simp
qed simp

lemma access_dist_first_loop_ok:
  "\<forall>x. g_hash_table_lookup G h x = 0 \<Longrightarrow> length a = n + length reader \<Longrightarrow> length a < 2 ^ 31 \<Longrightarrow>
   access_dist_loop G DIST_SINCE_FIRST_ACCESS reader (int n) h a = Inr (take n a @ replicate (length reader) (-1))"
proof (induction reader arbitrary: n a)
  case (Cons req reader)
  have "n < length a" "n < 2 ^ 31 - 1"
    using Cons.prems(2,3) by simp_all
  note put = put_next [OF this(1), of "-1", OF _ _ this(2)]
  have "access_dist_loop G DIST_SINCE_FIRST_ACCESS (req # reader) (int n) h a =
      access_dist_loop G DIST_SINCE_FIRST_ACCESS reader (int (Suc n)) h (a[n := -1])"
    using Cons.prems(1) put(1,3) by (simp add: get_access_dist_add_req_def add.commute)
  also have "\<dots> = Inr (take (Suc n) (a[n := -1]) @ replicate (length reader) (-1))"
    by (rule Cons.IH [OF Cons.prems(1)]) (use Cons.prems(2,3) in auto)
  finally show ?case
    using put(2) by simp
qed simp

section \<open>Properties\<close>

text \<open>A table kept as a map, which obeys the laws.\<close>

definition map_hash :: "(64 word \<Rightarrow> 64 word) g_hash" where
  "map_hash = \<lparr>g_hash_table_new = (\<lambda>_. 0), g_hash_table_lookup = (\<lambda>h. h), g_hash_table_insert = (\<lambda>h k v. h(k := v))\<rparr>"

lemma map_hash_laws: "g_hash_laws map_hash"
  by (simp add: g_hash_laws_def map_hash_def)

definition req_of :: "obj_id \<Rightarrow> request" where
  "req_of i = new_request\<lparr>r_obj_id := i\<rparr>"

lemma req_of_id [simp]: "r_obj_id (req_of i) = i"
  by (simp add: req_of_def)

text \<open>
  C8: \<open>get_stack_dist\<close> computes for every request the number of distinct objects requested since the
  last request for the same object, and -1 for the first request for an object; except that an
  object whose only request so far was the very first of the trace also gets -1.
\<close>

theorem get_stack_dist_correct:
  assumes "g_hash_laws G" "length reader < 2 ^ 31"
  shows "get_stack_dist G junk reader STACK_DIST = Inr (distances reported_distance [] (map r_obj_id reader))"
  using stack_dist_loop_ok [OF assms(1) dist_state_init [OF assms(1)], of reader "map junk [0..<length reader]"] assms(2)
  by (simp add: get_stack_dist_def)

theorem get_stack_dist_correct_witness:
  "get_stack_dist map_hash (\<lambda>_. 0) (map req_of [5, 6, 5, 7, 6, 7, 7]) STACK_DIST = Inr [-1, -1, -1, -1, 2, 1, 0]"
  by (subst get_stack_dist_correct [OF map_hash_laws])
    (simp_all add: reported_distance_def stack_distance_def)



end
