(* ===== verification/Simulator.thy ===== *)
theory Simulator
  imports LRU
begin

text \<open>
  The simulation loop \<open>simulate\<close> of \<open>bin/cachesim/sim.c\<close>. It feeds the requests of a trace to the \<open>get\<close> function
  of a cache and counts requests, misses and bytes after a warm-up. A reader is the list of the requests
  it yields; \<open>get\<close> is the function pointer of the cache, an argument here, as it is there. The output line
  is not modelled: the model returns the counters it is made of, and the interval reports.
\<close>

section \<open>Model\<close>

record sim_report =
  rep_clock_time :: int
  rep_req_cnt :: int
  rep_miss_cnt :: int
  rep_interval_req :: int
  rep_interval_miss :: int

record sim_counters =
  req_cnt :: int
  miss_cnt :: int
  last_req_cnt :: int
  last_miss_cnt :: int
  req_byte :: int
  miss_byte :: int
  last_report_ts :: int
  reports :: "sim_report list"

text \<open>\<open>req->clock_time -= start_ts\<close>: signed minus unsigned, stored as signed.\<close>

definition shift_clock :: "int \<Rightarrow> request \<Rightarrow> request" where
  "shift_clock start_ts req = req\<lparr>r_clock_time := to_i64 (r_clock_time req - start_ts)\<rparr>"

definition count_request :: "request \<Rightarrow> bool \<Rightarrow> sim_counters \<Rightarrow> sim_counters" where
  "count_request req hit s =
     (let s = s\<lparr>req_cnt := to_u64 (req_cnt s + 1), req_byte := to_u64 (req_byte s + r_obj_size req)\<rparr>
      in if \<not> hit then s\<lparr>miss_cnt := to_u64 (miss_cnt s + 1), miss_byte := to_u64 (miss_byte s + r_obj_size req)\<rparr>
         else s)"

definition report_interval_stats :: "int \<Rightarrow> request \<Rightarrow> sim_counters \<Rightarrow> sim_counters" where
  "report_interval_stats report_interval req s =
     (if to_u64 (r_clock_time req - last_report_ts s) \<ge> to_u64 report_interval \<and> r_clock_time req \<noteq> 0 then
        s\<lparr>reports := reports s @ [\<lparr>rep_clock_time = r_clock_time req, rep_req_cnt = req_cnt s,
             rep_miss_cnt = miss_cnt s, rep_interval_req = to_u64 (req_cnt s - last_req_cnt s),
             rep_interval_miss = to_u64 (miss_cnt s - last_miss_cnt s)\<rparr>],
          last_miss_cnt := miss_cnt s, last_req_cnt := req_cnt s,
          last_report_ts := to_u64 (r_clock_time req)\<rparr>
      else s)"

fun simulate_loop ::
  "('c \<Rightarrow> request \<Rightarrow> (bool \<times> 'c) outcome) \<Rightarrow> int \<Rightarrow> int \<Rightarrow> int \<Rightarrow> request list \<Rightarrow> 'c \<Rightarrow> sim_counters \<Rightarrow>
   (sim_counters \<times> 'c) outcome" where
  "simulate_loop get report_interval warmup_sec start_ts [] c s = Some (Inr (s, c))"
| "simulate_loop get report_interval warmup_sec start_ts (req # reader) c s =
     (let req = shift_clock start_ts req in
      bindO (get c req) (\<lambda>(hit, c).
      simulate_loop get report_interval warmup_sec start_ts reader c
        (if r_clock_time req \<le> warmup_sec then s
         else report_interval_stats report_interval req (count_request req hit s))))"

definition initial_counters :: "int \<Rightarrow> sim_counters" where
  "initial_counters warmup_sec =
     \<lparr>req_cnt = 0, miss_cnt = 0, last_req_cnt = 0, last_miss_cnt = 0, req_byte = 0, miss_byte = 0,
      last_report_ts = to_u64 warmup_sec, reports = []\<rparr>"

definition simulate ::
  "('c \<Rightarrow> request \<Rightarrow> (bool \<times> 'c) outcome) \<Rightarrow> request list \<Rightarrow> 'c \<Rightarrow> int \<Rightarrow> int \<Rightarrow> (sim_counters \<times> 'c) outcome" where
  "simulate get reader c report_interval warmup_sec =
     (let start_ts = to_u64 (case reader of [] \<Rightarrow> r_clock_time new_request | req # _ \<Rightarrow> r_clock_time req)
      in simulate_loop get report_interval warmup_sec start_ts reader c (initial_counters warmup_sec))"

section \<open>What the counters count\<close>

text \<open>The hits of a trace, one by one.\<close>

fun run_trace :: "('c \<Rightarrow> request \<Rightarrow> (bool \<times> 'c) outcome) \<Rightarrow> 'c \<Rightarrow> request list \<Rightarrow> (bool list \<times> 'c) outcome" where
  "run_trace get c [] = Some (Inr ([], c))"
| "run_trace get c (req # reqs) =
     bindO (get c req) (\<lambda>(hit, c). bindO (run_trace get c reqs) (\<lambda>(hits, c). Some (Inr (hit # hits, c))))"

lemma run_trace_length: "run_trace get c reqs = Some (Inr (hits, c')) \<Longrightarrow> length hits = length reqs"
  by (induction reqs arbitrary: c hits) (auto elim!: bindO_SomeE)

text \<open>The requests after the warm-up with their hits.\<close>

definition measured :: "int \<Rightarrow> request list \<Rightarrow> bool list \<Rightarrow> (request \<times> bool) list" where
  "measured warmup_sec reqs hits = filter (\<lambda>(req, hit). warmup_sec < r_clock_time req) (zip reqs hits)"

text \<open>Counters that stand for the measured requests \<open>ms\<close>, and reports that are consistent with them.\<close>

definition counters_of :: "(request \<times> bool) list \<Rightarrow> sim_counters \<Rightarrow> bool" where
  "counters_of ms s \<longleftrightarrow>
     req_cnt s = to_u64 (int (length ms)) \<and> miss_cnt s = to_u64 (int (length (filter (\<lambda>(req, hit). \<not> hit) ms))) \<and>
     req_byte s = to_u64 (sum_list (map (\<lambda>(req, hit). r_obj_size req) ms)) \<and>
     miss_byte s = to_u64 (sum_list (map (\<lambda>(req, hit). if hit then 0 else r_obj_size req) ms)) \<and>
     last_req_cnt s = to_u64 (sum_list (map rep_interval_req (reports s))) \<and>
     last_miss_cnt s = to_u64 (sum_list (map rep_interval_miss (reports s)))"

lemma to_u64_add: "to_u64 (to_u64 x + y) = to_u64 (x + y)" "to_u64 (x + to_u64 y) = to_u64 (x + y)"
  by (simp_all add: to_u64_def mod_simps)

lemma to_u64_idem [simp]: "to_u64 (to_u64 x) = to_u64 x"
  by (simp add: to_u64_def)

lemma counters_of_request:
  "counters_of ms s \<Longrightarrow> counters_of (ms @ [(req, hit)]) (count_request req hit s)"
  by (auto simp: counters_of_def count_request_def Let_def to_u64_add add.commute)

lemma to_u64_diff: "to_u64 (x + to_u64 (y - to_u64 x)) = to_u64 y"
  by (simp add: to_u64_def mod_simps)

lemma counters_of_report:
  "counters_of ms s \<Longrightarrow> counters_of ms (report_interval_stats ri req s)"
  by (auto simp: counters_of_def report_interval_stats_def to_u64_diff)

lemma simulate_loop_counts:
  assumes "run_trace get c (map (shift_clock start) reader) = Some (Inr (hits, c'))" "counters_of ms s"
  shows "\<exists>s'. simulate_loop get ri warm start reader c s = Some (Inr (s', c')) \<and>
     counters_of (ms @ measured warm (map (shift_clock start) reader) hits) s'"
  using assms
proof (induction reader arbitrary: c hits ms s)
  case Nil
  then show ?case by (simp add: measured_def)
next
  case (Cons req reader)
  let ?r = "shift_clock start req"
  obtain hit c1 hits1 where g: "get c ?r = Some (Inr (hit, c1))"
      "run_trace get c1 (map (shift_clock start) reader) = Some (Inr (hits1, c'))" "hits = hit # hits1"
    using Cons.prems(1) by (auto elim!: bindO_SomeE)
  let ?s = "if r_clock_time ?r \<le> warm then s else report_interval_stats ri ?r (count_request ?r hit s)"
  let ?ms = "if r_clock_time ?r \<le> warm then ms else ms @ [(?r, hit)]"
  have "counters_of ?ms ?s"
    using Cons.prems(2) by (simp add: counters_of_request counters_of_report)
  from Cons.IH [OF g(2) this] show ?case
    by (auto simp: g measured_def split: if_splits)
qed

lemma simulate_run:
  assumes "start = to_u64 (case reader of [] \<Rightarrow> 0 | req # _ \<Rightarrow> r_clock_time req)"
    "run_trace get c (map (shift_clock start) reader) = Some (Inr (hits, c'))"
  shows "\<exists>s. simulate get reader c report_interval warmup_sec = Some (Inr (s, c')) \<and>
     counters_of (measured warmup_sec (map (shift_clock start) reader) hits) s"
proof -
  have "counters_of [] (initial_counters warmup_sec)"
    by (simp add: counters_of_def initial_counters_def to_u64_def)
  from simulate_loop_counts [OF assms(2) this] show ?thesis
    using assms(1) by (auto simp: simulate_def new_request_def split: list.splits)
qed

section \<open>LRU caches of two sizes\<close>

lemma req_for_conf: "cache_size c' = cache_size c \<Longrightarrow> obj_md_size c' = obj_md_size c \<Longrightarrow> req_for b c' req = req_for b c req"
  by (simp add: req_for_def)

lemma req_for_shift [simp]: "req_for b c (shift_clock start req) = req_for b c req"
  by (simp add: req_for_def shift_clock_def)

lemma LRU_init_simps:
  "cache_size (LRU_init p) = to_i64 (cp_cache_size p)" "occupied_byte (LRU_init p) = 0" "q_list (LRU_init p) = []"
  "admissioner (LRU_init p) = None" "obj_md_size (LRU_init p) = (if cp_consider_obj_metadata p then 16 else 0)"
  by (simp_all add: LRU_init_def cache_struct_init_def)

lemma lru_cache_for_init:
  "0 \<le> cp_cache_size p \<Longrightarrow> cp_cache_size p < 2 ^ 63 \<Longrightarrow> lru_cache_for b (LRU_init p)"
  using LRU_inv_init [of p] by (simp add: lru_cache_for_def LRU_init_simps to_i64_id)

lemma lru_below_init:
  assumes "0 \<le> cp_cache_size p" "cp_cache_size p \<le> cp_cache_size q" "cp_cache_size q < 2 ^ 63"
    "cp_consider_obj_metadata p = cp_consider_obj_metadata q"
  shows "lru_below b (LRU_init p) (LRU_init q)"
  using assms lru_cache_for_init [of p b] lru_cache_for_init [of q b]
  by (simp add: lru_below_def LRU_init_simps to_i64_id)

lemma run_trace_below:
  assumes "lru_below b c d" "\<forall>req \<in> set reqs. req_for b c req"
  shows "\<exists>hs c' hs' d'. run_trace LRU_get c reqs = Some (Inr (hs, c')) \<and> run_trace LRU_get d reqs = Some (Inr (hs', d')) \<and>
     list_all2 (\<longrightarrow>) hs hs'"
  using assms
proof (induction reqs arbitrary: c d)
  case (Cons req reqs)
  obtain h c1 h' d1 where g: "LRU_get c req = Some (Inr (h, c1))" "LRU_get d req = Some (Inr (h', d1))" "h \<longrightarrow> h'"
      "lru_below b c1 d1" "cache_size c1 = cache_size c" "obj_md_size c1 = obj_md_size c"
    using lru_below_step [OF Cons.prems(1), of req] Cons.prems(2) by auto
  obtain hs c' hs' d' where "run_trace LRU_get c1 reqs = Some (Inr (hs, c'))" "run_trace LRU_get d1 reqs = Some (Inr (hs', d'))"
      "list_all2 (\<longrightarrow>) hs hs'"
    using Cons.IH [OF g(4)] Cons.prems(2) req_for_conf [OF g(5,6)] by auto
  then show ?case
    using g(1-3) by auto
qed simp

lemma measured_below:
  assumes "list_all2 (\<longrightarrow>) hs hs'" "length reqs = length hs"
  shows "length (measured w reqs hs') = length (measured w reqs hs) \<and>
     length (filter (\<lambda>(req, hit). \<not> hit) (measured w reqs hs')) \<le> length (filter (\<lambda>(req, hit). \<not> hit) (measured w reqs hs))"
  using assms
proof (induction hs hs' arbitrary: reqs rule: list_all2_induct)
  case (Cons h hs h' hs')
  obtain r rs where "reqs = r # rs" "length rs = length hs"
    using Cons.prems by (cases reqs) auto
  then show ?case
    using Cons.IH [of rs] Cons.hyps by (auto simp: measured_def)
qed (simp add: measured_def)

section \<open>Properties\<close>

text \<open>
  C10: when the cache serves the whole trace, \<open>simulate\<close> returns, and modulo the 64 bits of the counters
  \<open>req_cnt\<close>, \<open>miss_cnt\<close> and the byte counters are those of the requests after the warm-up. The interval
  counts of the reports add up to the counts at the last report.
\<close>

theorem simulate_counts:
  assumes "start = to_u64 (case reader of [] \<Rightarrow> 0 | req # _ \<Rightarrow> r_clock_time req)"
    "run_trace get c (map (shift_clock start) reader) = Some (Inr (hits, c'))"
  shows "\<exists>s. simulate get reader c report_interval warmup_sec = Some (Inr (s, c')) \<and>
     counters_of (measured warmup_sec (map (shift_clock start) reader) hits) s"
  by (rule simulate_run [OF assms])

definition example_lru :: "nat LRU_cache" where
  "example_lru = LRU_init (default_common_cache_params\<lparr>cp_cache_size := 2\<rparr>)"

lemma example_lru_run:
  "\<exists>hs c'. run_trace LRU_get example_lru (map (shift_clock 0) [example_req 1 1, example_req 1 1]) = Some (Inr (hs, c'))"
proof -
  have "lru_below (\<lambda>_. 1) example_lru example_lru"
    unfolding example_lru_def by (rule lru_below_init) simp_all
  moreover have "\<forall>req \<in> set (map (shift_clock 0) [example_req 1 1, example_req 1 1]). req_for (\<lambda>_. 1) example_lru req"
    by (simp add: req_for_def shift_clock_def example_lru_def LRU_init_simps default_common_cache_params_def to_i64_def)
  ultimately show ?thesis
    using run_trace_below by blast
qed

theorem simulate_counts_witness:
  "\<exists>s c'. simulate LRU_get [example_req 1 1, example_req 1 1] example_lru 1 (-1) = Some (Inr (s, c')) \<and> req_cnt s = 2"
proof -
  obtain hs c' where r: "run_trace LRU_get example_lru (map (shift_clock 0) [example_req 1 1, example_req 1 1]) = Some (Inr (hs, c'))"
    using example_lru_run by blast
  have "0 = to_u64 (case [example_req 1 1, example_req 1 1] of [] \<Rightarrow> 0 | req # _ \<Rightarrow> r_clock_time req)"
    by (simp add: example_req_def new_request_def to_u64_def)
  from simulate_counts [OF this r, of 1 "-1"] show ?thesis
    using run_trace_length [OF r]
    by (auto simp: counters_of_def measured_def shift_clock_def example_req_def new_request_def to_i64_def to_u64_def
        length_Suc_conv)
qed



end
