(* ===== verification/LRU_Profile.thy ===== *)
theory LRU_Profile
  imports Stack_Dist Simulator
begin

text \<open>
  The two ways the program computes the misses of an LRU cache, compared: simulating the cache
  (\<open>bin/cachesim/sim.c\<close> on \<open>cache/eviction/LRU.c\<close>) and counting stack distances (\<open>profiler/profilerLRU.c\<close>). Both
  keep the order of recency, one as the queue of the cache, the other as the order of timestamps.
\<close>

section \<open>The order of recency\<close>

primrec recency :: "obj_id list \<Rightarrow> obj_id list" where
  "recency [] = []"
| "recency (x # hist) = x # remove1 x (recency hist)"

lemma recency_props: "distinct (recency hist)" "set (recency hist) = set hist"
  by (induction hist) (auto simp: set_remove1_distinct)

lemma takeWhile_remove1_set:
  "distinct r \<Longrightarrow> z \<noteq> x \<Longrightarrow> set (takeWhile (\<lambda>y. y \<noteq> x) (remove1 z r)) = set (takeWhile (\<lambda>y. y \<noteq> x) r) - {z}"
proof (induction r)
  case (Cons a r)
  have "z \<notin> set (takeWhile (\<lambda>y. y \<noteq> x) r)" if "a = z"
    using that Cons.prems(1) set_takeWhileD by fastforce
  then show ?case
    using Cons by (cases "a = z"; cases "a = x") (simp_all add: insert_Diff_if)
qed simp

lemma recency_since: "set (takeWhile (\<lambda>y. y \<noteq> x) (recency hist)) = set (takeWhile (\<lambda>y. y \<noteq> x) hist)"
proof (induction hist)
  case (Cons z hist)
  show ?case
  proof (cases "z = x")
    case False
    have "set (takeWhile (\<lambda>y. y \<noteq> x) (remove1 z (recency hist))) = set (takeWhile (\<lambda>y. y \<noteq> x) hist) - {z}"
      unfolding Cons.IH [symmetric] by (rule takeWhile_remove1_set [OF recency_props(1) False])
    then show ?thesis
      using False by auto
  qed simp
qed simp

lemma mem_take_iff: "distinct r \<Longrightarrow> x \<in> set (take k r) \<longleftrightarrow> x \<in> set r \<and> length (takeWhile (\<lambda>y. y \<noteq> x) r) < k"
proof (induction r arbitrary: k)
  case (Cons a r)
  then show ?case by (cases k) auto
qed simp

text \<open>An object is among the \<open>k\<close> most recent ones exactly if its stack distance is below \<open>k\<close>.\<close>

lemma recent_iff_distance:
  "x \<in> set (take k (recency hist)) \<longleftrightarrow> 0 \<le> stack_distance hist x \<and> stack_distance hist x < int k"
proof -
  have "length (takeWhile (\<lambda>y. y \<noteq> x) (recency hist)) = card (set (takeWhile (\<lambda>y. y \<noteq> x) hist))"
    using distinct_card [of "takeWhile (\<lambda>y. y \<noteq> x) (recency hist)"] recency_since [of x hist]
    by (simp add: distinct_takeWhile recency_props)
  then show ?thesis
    by (simp add: mem_take_iff recency_props stack_distance_def)
qed

section \<open>An LRU cache of unit objects holds the most recent ones\<close>

lemma fit_prefix_unit: "0 \<le> cap \<Longrightarrow> fit_prefix (\<lambda>_. 1) cap q = take (nat cap) q"
proof (induction q arbitrary: cap)
  case (Cons i q)
  show ?case
  proof (cases "cap = 0")
    case False
    then have "0 \<le> cap - 1" "nat cap = Suc (nat (cap - 1))"
      using Cons.prems by auto
    then show ?thesis
      using Cons.IH [of "cap - 1"] by simp
  qed simp
qed simp

lemma take_remove1_hit: "x \<in> set (take k r) \<Longrightarrow> remove1 x (take k r) = take (k - 1) (remove1 x r)"
proof (induction r arbitrary: k)
  case (Cons a r)
  obtain n where n: "k = Suc n"
    using Cons.prems by (cases k) auto
  show ?case
  proof (cases "a = x")
    case False
    then have x: "x \<in> set (take n r)"
      using Cons.prems by (simp add: n)
    then obtain m where "n = Suc m"
      by (cases n) auto
    then show ?thesis
      using False Cons.IH [OF x] by (simp add: n)
  qed (simp add: n)
qed simp

lemma take_remove1_miss: "x \<notin> set (take k r) \<Longrightarrow> take (k - 1) r = take (k - 1) (remove1 x r)"
proof (induction r arbitrary: k)
  case (Cons a r)
  show ?case
  proof (cases "k \<le> 1")
    case False
    then obtain m where "k = Suc (Suc m)"
      by (metis One_nat_def le_refl not_less_eq_eq not0_implies_Suc zero_le)
    then show ?thesis
      using Cons.IH [of "Suc m"] Cons.prems by auto
  qed simp
qed simp

definition holds_recent :: "nat \<Rightarrow> obj_id list \<Rightarrow> 'm LRU_cache \<Rightarrow> bool" where
  "holds_recent k hist c \<longleftrightarrow> lru_cache_for (\<lambda>_. 1) c \<and> cache_size c = int k \<and> obj_md_size c = 0 \<and>
     q_list c = take k (recency hist)"

lemma lru_unit_step:
  assumes "holds_recent k hist c" "0 < k" "r_obj_size req = 1" "x = r_obj_id req"
  shows "\<exists>c'. LRU_get c req = Some (Inr (0 \<le> stack_distance hist x \<and> stack_distance hist x < int k, c')) \<and>
     holds_recent k (x # hist) c'"
proof -
  have c: "lru_cache_for (\<lambda>_. 1) c" "cache_size c = int k" "obj_md_size c = 0" "q_list c = take k (recency hist)"
    using assms(1) by (simp_all add: holds_recent_def)
  have "req_for (\<lambda>_. 1) c req"
    using assms(2,3) c by (simp add: req_for_def)
  from lru_get_for [OF c(1) this] obtain c' where g: "LRU_get c req = Some (Inr (x \<in> set (q_list c), c'))"
      "lru_cache_for (\<lambda>_. 1) c'" "cache_size c' = cache_size c" "obj_md_size c' = obj_md_size c"
      "q_list c' = x # (if x \<in> set (q_list c) then remove1 x (q_list c) else fit_prefix (\<lambda>_. 1) (cache_size c - 1) (q_list c))"
    using assms(4) by blast
  have "(if x \<in> set (take k (recency hist)) then remove1 x (take k (recency hist)) else take (k - 1) (recency hist)) =
      take (k - 1) (remove1 x (recency hist))"
    using take_remove1_hit [of x k "recency hist"] take_remove1_miss [of x k "recency hist"] by simp
  moreover have "fit_prefix (\<lambda>_. 1) (int k - 1) (take k (recency hist)) = take (k - 1) (recency hist)"
    using assms(2) by (simp add: fit_prefix_unit nat_diff_distrib min_def)
  ultimately have "q_list c' = take k (recency (x # hist))"
    using g(5) assms(2) by (cases k) (auto simp: c)
  then show ?thesis
    using g c recent_iff_distance [of x k hist] by (simp add: holds_recent_def)
qed

lemma lru_unit_run:
  assumes "0 < k"
  shows "holds_recent k hist c \<Longrightarrow> \<forall>req \<in> set reqs. r_obj_size req = 1 \<Longrightarrow>
    \<exists>c'. run_trace LRU_get c reqs =
      Some (Inr (map (\<lambda>d. 0 \<le> d \<and> d < int k) (distances stack_distance hist (map r_obj_id reqs)), c'))"
proof (induction reqs arbitrary: hist c)
  case (Cons req reqs)
  obtain c1 where g: "LRU_get c req = Some (Inr (0 \<le> stack_distance hist (r_obj_id req) \<and> stack_distance hist (r_obj_id req) < int k, c1))"
      "holds_recent k (r_obj_id req # hist) c1"
    using lru_unit_step [OF Cons.prems(1) assms _ refl, of req] Cons.prems(2) by auto
  then show ?case
    using Cons.IH [OF g(2)] Cons.prems(2) by auto
qed simp

section \<open>The hit the profiler loses\<close>

text \<open>The second request for the first object of the trace would hit in a cache of \<open>k\<close> objects.\<close>

fun lost_hit :: "nat \<Rightarrow> obj_id list \<Rightarrow> bool" where
  "lost_hit k [] = False"
| "lost_hit k (x # ys) \<longleftrightarrow> x \<in> set ys \<and> card (set (takeWhile (\<lambda>y. y \<noteq> x) ys)) < k"

lemma dropWhile_first: "dropWhile (\<lambda>y. y \<noteq> x) (h @ [x0]) = [x] \<longleftrightarrow> x = x0 \<and> x0 \<notin> set h"
proof (cases "x \<in> set h")
  case True
  then have "dropWhile (\<lambda>y. y \<noteq> x) h \<noteq> []" by auto
  then show ?thesis
    using True by (auto simp: dropWhile_append1)
next
  case False
  then show ?thesis by (subst dropWhile_append2) auto
qed

lemma reported_after: "x0 \<in> set h \<Longrightarrow> distances reported_distance (h @ [x0]) ys = distances stack_distance (h @ [x0]) ys"
proof (induction ys arbitrary: h)
  case (Cons y ys)
  then show ?case
    using Cons.IH [of "y # h"] by (simp add: reported_distance_def dropWhile_first)
qed simp

lemma hits_at_Cons: "hits_at (d # ds) k = (if 0 \<le> d \<and> d < int k then 1 else 0) + hits_at ds k"
  by (simp add: hits_at_def)

lemma hits_lost_from:
  "x0 \<notin> set h \<Longrightarrow> hits_at (distances stack_distance (h @ [x0]) ys) k =
    hits_at (distances reported_distance (h @ [x0]) ys) k +
    (if x0 \<in> set ys \<and> card (set h \<union> set (takeWhile (\<lambda>y. y \<noteq> x0) ys)) < k then 1 else 0)"
proof (induction ys arbitrary: h)
  case (Cons y ys)
  show ?case
  proof (cases "y = x0")
    case True
    have "takeWhile (\<lambda>y. y \<noteq> x0) (h @ [x0]) = h"
      using Cons.prems by (subst takeWhile_append2) auto
    then have "stack_distance (h @ [x0]) x0 = int (card (set h))"
      by (simp add: stack_distance_def)
    moreover have "reported_distance (h @ [x0]) x0 = -1"
      using Cons.prems by (simp add: reported_distance_def dropWhile_first)
    ultimately show ?thesis
      using reported_after [of x0 "x0 # h" ys] True by (simp add: hits_at_Cons)
  next
    case False
    moreover have "reported_distance (h @ [x0]) y = stack_distance (h @ [x0]) y"
      using False by (simp add: reported_distance_def dropWhile_first)
    ultimately show ?thesis
      using Cons.IH [of "y # h"] Cons.prems by (simp add: hits_at_Cons)
  qed
qed (simp add: hits_at_def)

lemma hits_lost:
  "hits_at (distances stack_distance [] xs) k = hits_at (distances reported_distance [] xs) k + (if lost_hit k xs then 1 else 0)"
proof (cases xs)
  case (Cons x ys)
  then show ?thesis
    using hits_lost_from [of x "[]" ys k] by (simp add: hits_at_Cons reported_distance_def stack_distance_def)
qed (simp add: hits_at_def)

section \<open>Properties\<close>

lemma measured_all:
  "\<forall>req \<in> set reqs. w < r_clock_time req \<Longrightarrow> length hits = length reqs \<Longrightarrow> measured w reqs hits = zip reqs hits"
  by (auto simp: measured_def filter_id_conv dest: set_zip_leftD)

lemma misses_hits:
  assumes "length reqs = length ds"
  shows "int (length (filter (\<lambda>(req, hit). \<not> hit) (zip reqs (map (\<lambda>d. 0 \<le> d \<and> d < int k) ds)))) = int (length reqs) - hits_at ds k"
  using assms by (induction reqs ds rule: list_induct2) (auto simp: hits_at_def)

text \<open>
  C7: simulation and profiler agree. On a trace of objects of size one, without warm-up, the miss count
  \<open>simulate\<close> reports for an LRU cache of \<open>k\<close> objects is entry \<open>k\<close> of \<open>_get_lru_miss_cnt\<close>; except that the
  profiler counts one miss too many when the second request for the first object hits in the cache.
\<close>

theorem lru_profile_agrees:
  assumes "g_hash_laws G" "length reader < 2 ^ 63" "0 < k" "k \<le> cap" "k < 2 ^ 63"
    "\<forall>req \<in> set reader. r_obj_size req = 1 \<and> r_clock_time (hd reader) \<le> r_clock_time req \<and> r_clock_time req < 2 ^ 63"
    "reader \<noteq> [] \<longrightarrow> 0 \<le> r_clock_time (hd reader)"
  shows "\<exists>s c cnt. simulate LRU_get reader (LRU_init (default_common_cache_params\<lparr>cp_cache_size := int k\<rparr>) :: nat LRU_cache)
       report_interval (-1) = Some (Inr (s, c)) \<and>
     get_lru_miss_cnt G reader cap = Inr cnt \<and> length cnt = cap + 1 \<and>
     cnt ! k = miss_cnt s + (if lost_hit k (map r_obj_id reader) then 1 else 0)"
proof -
  let ?c = "LRU_init (default_common_cache_params\<lparr>cp_cache_size := int k\<rparr>) :: nat LRU_cache"
  let ?xs = "map r_obj_id reader"
  define start where "start = to_u64 (case reader of [] \<Rightarrow> 0 | req # _ \<Rightarrow> r_clock_time req)"
  let ?reqs = "map (shift_clock start) reader" and ?ds = "distances stack_distance [] ?xs"
  have start: "start = r_clock_time (hd reader)" if "reader \<noteq> []"
    using that assms(6,7) by (cases reader) (auto simp: start_def to_u64_id)
  have clock: "\<forall>req \<in> set ?reqs. -1 < r_clock_time req"
  proof
    fix r assume "r \<in> set ?reqs"
    then obtain req where r: "req \<in> set reader" "r = shift_clock start req" by auto
    then have "reader \<noteq> []" by auto
    then have "0 \<le> r_clock_time req - start" "r_clock_time req - start < 2 ^ 63"
      using start r(1) assms(6,7) by fastforce+
    then show "-1 < r_clock_time r"
      by (simp add: r(2) shift_clock_def to_i64_id)
  qed
  have "holds_recent k [] ?c"
    using lru_cache_for_init [of "default_common_cache_params\<lparr>cp_cache_size := int k\<rparr>" "\<lambda>_. 1"] assms(3,5)
    by (simp add: holds_recent_def LRU_init_simps to_i64_id) (simp add: default_common_cache_params_def)
  moreover have "\<forall>req \<in> set ?reqs. r_obj_size req = 1" "map r_obj_id ?reqs = ?xs"
    using assms(6) by (simp_all add: shift_clock_def)
  ultimately obtain c' where run: "run_trace LRU_get ?c ?reqs = Some (Inr (map (\<lambda>d. 0 \<le> d \<and> d < int k) ?ds, c'))"
    using lru_unit_run [OF assms(3), of "[]" ?c ?reqs] by metis
  obtain s where s: "simulate LRU_get reader ?c report_interval (-1) = Some (Inr (s, c'))"
      "counters_of (measured (-1) ?reqs (map (\<lambda>d. 0 \<le> d \<and> d < int k) ?ds)) s"
    using simulate_run [OF start_def run] by blast
  have n: "0 \<le> int (length reader) - hits_at ?ds k" "int (length reader) - hits_at ?ds k < 2 ^ 64"
    using length_filter_le [of "\<lambda>d. 0 \<le> d \<and> d < int k" ?ds] assms(2) by (simp_all add: hits_at_def)
  have "miss_cnt s = int (length reader) - hits_at ?ds k"
    using s(2) misses_hits [of ?reqs ?ds k] measured_all [OF clock, of "map (\<lambda>d. 0 \<le> d \<and> d < int k) ?ds"] n
    by (simp add: counters_of_def to_u64_id)
  moreover have "get_lru_miss_cnt G reader cap =
      Inr (map (\<lambda>k. int (length reader) - hits_at (distances reported_distance [] ?xs) k) [0..<cap + 1])"
    using get_lru_hit_cnt_ok [OF assms(1,2), of cap] by (simp add: get_lru_miss_cnt_def comp_def del: upt_Suc)
  ultimately show ?thesis
    using s(1) hits_lost [of ?xs k] assms(4) by (auto simp del: upt_Suc)
qed

theorem lru_profile_agrees_witness:
  "\<exists>s c cnt. simulate LRU_get (map req_of [5, 6, 5, 6]) (LRU_init (default_common_cache_params\<lparr>cp_cache_size := 2\<rparr>) :: nat LRU_cache)
     1 (-1) = Some (Inr (s, c)) \<and> get_lru_miss_cnt map_hash (map req_of [5, 6, 5, 6]) 2 = Inr cnt \<and> cnt ! 2 = miss_cnt s + 1"
  using lru_profile_agrees [OF map_hash_laws, of "map req_of [5, 6, 5, 6]" 2 2 1]
  by (auto simp: req_of_def new_request_def)

end
