(* ===== verification/Refcount.thy ===== *)
theory Refcount
  imports Sim_Prelude "HOL-Library.Word"
begin

text \<open>
  The reference count of a CacheLib item (\<open>allocator/Refcount.h\<close>): one 32-bit word that holds the count of
  handles, three administrative bits and the flags, among them the ones Merlin keeps its state in. Every
  operation is one atomic update of the word, so the threads' operations are sequences of such updates.
\<close>

unbundle bit_operations_syntax

section \<open>The word\<close>

type_synonym ref_value = "32 word"

datatype ref_error = RefcountOverflow | RefcountUnderflow | CheckFailed

datatype AdminRef = kLinked | kAccessible | kExclusive

datatype Flags = kMMFlag0 | kMMFlag1 | kMMFlag2 | kMMFlag3 | kMMFlag4 | kMMFlag5 | kIsChainedItem | kHasChainedItem
  | kNvmClean | kNvmEvicted | kUnevictable_NOOP

datatype IncResult = kIncOk | kIncFailedMoving | kIncFailedEviction

definition kNumAdminRefBits :: nat where
  "kNumAdminRefBits = 3"

definition kNumAccessRefBits :: nat where
  "kNumAccessRefBits = 16"

definition kAccessRefMask :: ref_value where
  "kAccessRefMask = drop_bit (32 - kNumAccessRefBits) (- 1)"

definition kRefMask :: ref_value where
  "kRefMask = drop_bit (32 - kNumAdminRefBits - kNumAccessRefBits) (- 1)"

primrec admin_bit :: "AdminRef \<Rightarrow> nat" where
  "admin_bit kLinked = kNumAccessRefBits"
| "admin_bit kAccessible = kNumAccessRefBits + 1"
| "admin_bit kExclusive = kNumAccessRefBits + 2"

primrec flag_bit :: "Flags \<Rightarrow> nat" where
  "flag_bit kMMFlag0 = kNumAccessRefBits + kNumAdminRefBits"
| "flag_bit kMMFlag1 = kNumAccessRefBits + kNumAdminRefBits + 1"
| "flag_bit kMMFlag2 = kNumAccessRefBits + kNumAdminRefBits + 2"
| "flag_bit kMMFlag3 = kNumAccessRefBits + kNumAdminRefBits + 3"
| "flag_bit kMMFlag4 = kNumAccessRefBits + kNumAdminRefBits + 4"
| "flag_bit kMMFlag5 = kNumAccessRefBits + kNumAdminRefBits + 5"
| "flag_bit kIsChainedItem = kNumAccessRefBits + kNumAdminRefBits + 6"
| "flag_bit kHasChainedItem = kNumAccessRefBits + kNumAdminRefBits + 7"
| "flag_bit kNvmClean = kNumAccessRefBits + kNumAdminRefBits + 8"
| "flag_bit kNvmEvicted = kNumAccessRefBits + kNumAdminRefBits + 9"
| "flag_bit kUnevictable_NOOP = kNumAccessRefBits + kNumAdminRefBits + 10"

definition getFlag :: "Flags \<Rightarrow> ref_value" where
  "getFlag f = push_bit (flag_bit f) 1"

definition getAdminRef :: "AdminRef \<Rightarrow> ref_value" where
  "getAdminRef r = push_bit (admin_bit r) 1"

section \<open>Operations\<close>

text \<open>
  \<open>atomicUpdateValue\<close> reads the word and tries to replace it until no other thread interferes or the
  predicate fails. Both the predicate and the new value can raise. \<open>seen\<close> are the values the word has at the
  successive compare-and-exchanges; the result is \<open>None\<close> while the loop is still running, otherwise the
  exception, or the value it installed, if any.
\<close>

fun atomicUpdateValue ::
  "(ref_value \<Rightarrow> ref_error + bool) \<Rightarrow> (ref_value \<Rightarrow> ref_error + ref_value) \<Rightarrow> ref_value \<Rightarrow> ref_value list
     \<Rightarrow> (ref_error + ref_value option) option" where
  "atomicUpdateValue predicate newValueF curValue seen =
     (case predicate curValue of
        Inl e \<Rightarrow> Some (Inl e)
      | Inr False \<Rightarrow> Some (Inr None)
      | Inr True \<Rightarrow>
          (case newValueF curValue of
             Inl e \<Rightarrow> Some (Inl e)
           | Inr newValue \<Rightarrow>
               (case seen of
                  [] \<Rightarrow> None
                | v # seen' \<Rightarrow>
                    if v = curValue then Some (Inr (Some newValue))
                    else atomicUpdateValue predicate newValueF v seen')))"

text \<open>Its effect on the word, as one step.\<close>

definition update ::
  "(ref_value \<Rightarrow> ref_error + bool) \<Rightarrow> (ref_value \<Rightarrow> ref_error + ref_value) \<Rightarrow> ref_value \<Rightarrow> ref_error + ref_value option" where
  "update predicate newValueF v =
     (case predicate v of
        Inl e \<Rightarrow> Inl e
      | Inr False \<Rightarrow> Inr None
      | Inr True \<Rightarrow> (case newValueF v of Inl e \<Rightarrow> Inl e | Inr v' \<Rightarrow> Inr (Some v')))"

definition updated :: "ref_value \<Rightarrow> ref_error + ref_value option \<Rightarrow> ref_error + bool \<times> ref_value" where
  "updated v r = (case r of Inl e \<Rightarrow> Inl e | Inr None \<Rightarrow> Inr (False, v) | Inr (Some v') \<Rightarrow> Inr (True, v'))"

definition incRef_predicate :: "ref_value \<Rightarrow> ref_error + bool" where
  "incRef_predicate curValue =
     (if curValue AND kAccessRefMask = kAccessRefMask then Inl RefcountOverflow
      else if curValue AND getAdminRef kExclusive \<noteq> 0 then Inr False
      else Inr True)"

definition incRef_res :: "ref_value \<Rightarrow> IncResult" where
  "incRef_res curValue =
     (if curValue AND getAdminRef kExclusive \<noteq> 0
      then if curValue AND kAccessRefMask = 0 then kIncFailedEviction else kIncFailedMoving
      else kIncOk)"

definition incRef :: "ref_value \<Rightarrow> ref_error + IncResult \<times> ref_value" where
  "incRef v =
     (case updated v (update incRef_predicate (\<lambda>curValue. Inr (curValue + 1)) v) of
        Inl e \<Rightarrow> Inl e
      | Inr (_, v') \<Rightarrow> Inr (incRef_res v, v'))"

definition decRef :: "ref_value \<Rightarrow> ref_error + ref_value \<times> ref_value" where
  "decRef v =
     (case updated v (update
        (\<lambda>curValue. if curValue AND kAccessRefMask = 0 then Inl RefcountUnderflow else Inr True)
        (\<lambda>curValue. Inr (curValue - 1)) v) of
        Inl e \<Rightarrow> Inl e
      | Inr (ok, v') \<Rightarrow> if \<not> ok then Inl CheckFailed else Inr (v' AND kRefMask, v'))"

definition getAccessRef :: "ref_value \<Rightarrow> ref_value" where
  "getAccessRef raw =
     (let accessRef = raw AND kAccessRefMask in
      if raw AND getAdminRef kExclusive \<noteq> 0 \<and> accessRef \<ge> 1 then accessRef - 1 else accessRef)"

definition getRefWithAccessAndAdmin :: "ref_value \<Rightarrow> ref_value" where
  "getRefWithAccessAndAdmin v = v AND kRefMask"

definition markInMMContainer :: "ref_value \<Rightarrow> ref_value" where
  "markInMMContainer v = v OR getAdminRef kLinked"

definition unmarkInMMContainer :: "ref_value \<Rightarrow> ref_value" where
  "unmarkInMMContainer v = v AND NOT (getAdminRef kLinked)"

definition isInMMContainer :: "ref_value \<Rightarrow> bool" where
  "isInMMContainer v \<longleftrightarrow> v AND getAdminRef kLinked \<noteq> 0"

definition markAccessible :: "ref_value \<Rightarrow> ref_value" where
  "markAccessible v = v OR getAdminRef kAccessible"

definition unmarkAccessible :: "ref_value \<Rightarrow> ref_value" where
  "unmarkAccessible v = v AND NOT (getAdminRef kAccessible)"

definition isAccessible :: "ref_value \<Rightarrow> bool" where
  "isAccessible v \<longleftrightarrow> v AND getAdminRef kAccessible \<noteq> 0"

definition markForEviction :: "ref_value \<Rightarrow> ref_error + bool \<times> ref_value" where
  "markForEviction v = updated v (update
     (\<lambda>curValue.
        let unlinked = (curValue AND getAdminRef kLinked = 0);
            alreadyExclusive = (curValue AND getAdminRef kExclusive \<noteq> 0)
        in if unlinked \<or> alreadyExclusive then Inr False
           else if curValue AND kAccessRefMask \<noteq> 0 then Inr False
           else Inr True)
     (\<lambda>curValue. Inr (curValue OR getAdminRef kExclusive)) v)"

definition isMarkedForEviction :: "ref_value \<Rightarrow> bool" where
  "isMarkedForEviction raw \<longleftrightarrow> raw AND getAdminRef kExclusive \<noteq> 0 \<and> raw AND kAccessRefMask = 0"

definition unmarkForEviction :: "ref_value \<Rightarrow> ref_error + ref_value \<times> ref_value" where
  "unmarkForEviction v =
     (if \<not> isMarkedForEviction v then Inl CheckFailed
      else let v' = v AND NOT (getAdminRef kExclusive) in Inr (v' AND kRefMask, v'))"

definition isMoving :: "ref_value \<Rightarrow> bool" where
  "isMoving raw \<longleftrightarrow> raw AND getAdminRef kExclusive \<noteq> 0 \<and> raw AND kAccessRefMask \<noteq> 0"

definition markMoving :: "ref_value \<Rightarrow> ref_error + bool \<times> ref_value" where
  "markMoving v = updated v (update
     (\<lambda>curValue.
        if curValue AND getFlag kIsChainedItem \<noteq> 0 then Inl CheckFailed
        else
          let unlinked = (curValue AND getAdminRef kLinked = 0);
              alreadyExclusive = (curValue AND getAdminRef kExclusive \<noteq> 0)
          in if curValue AND kAccessRefMask > 0 \<or> unlinked \<or> alreadyExclusive then Inr False else Inr True)
     (\<lambda>curValue. Inr ((curValue + 1) OR getAdminRef kExclusive)) v)"

definition unmarkMoving :: "ref_value \<Rightarrow> ref_error + ref_value \<times> ref_value" where
  "unmarkMoving v =
     (if \<not> isMoving v then Inl CheckFailed
      else case updated v (update
        (\<lambda>curValue. if curValue AND kAccessRefMask = 0 then Inl CheckFailed else Inr True)
        (\<lambda>curValue. Inr ((curValue - 1) AND NOT (getAdminRef kExclusive))) v) of
        Inl e \<Rightarrow> Inl e
      | Inr (ok, v') \<Rightarrow> if \<not> ok then Inl CheckFailed else Inr (v' AND kRefMask, v'))"

definition markForEvictionWhenMoving :: "ref_value \<Rightarrow> ref_error + bool \<times> ref_value" where
  "markForEvictionWhenMoving v =
     (if \<not> isMoving v then Inl CheckFailed
      else updated v (update
        (\<lambda>curValue. Inr True)
        (\<lambda>curValue. if curValue AND kAccessRefMask \<noteq> 1 then Inl CheckFailed else Inr (curValue - 1)) v))"

definition setFlag :: "Flags \<Rightarrow> ref_value \<Rightarrow> ref_value" where
  "setFlag f v = v OR push_bit (flag_bit f) 1"

definition unSetFlag :: "Flags \<Rightarrow> ref_value \<Rightarrow> ref_value" where
  "unSetFlag f v = v AND (- 1 - push_bit (flag_bit f) 1)"

definition isFlagSet :: "Flags \<Rightarrow> ref_value \<Rightarrow> bool" where
  "isFlagSet f v \<longleftrightarrow> v AND getFlag f \<noteq> 0"

definition isDrained :: "ref_value \<Rightarrow> bool" where
  "isDrained v \<longleftrightarrow> getRefWithAccessAndAdmin v = 0"

section \<open>The fields of the word\<close>

named_theorems ref_simps \<open>what the operations do to the fields of the word\<close>

text \<open>The count of references, the moving one included.\<close>

definition access :: "ref_value \<Rightarrow> nat" where
  "access v = unat v mod 2 ^ 16"

lemma access_mask: "kAccessRefMask = mask 16"
  by (rule bit_eqI) (auto simp: kAccessRefMask_def kNumAccessRefBits_def bit_simps)

lemma access_eq: "unat (v AND kAccessRefMask) = access v"
  by (simp add: access_mask access_def take_bit_eq_mask [symmetric] unsigned_take_bit_eq)
    (simp add: take_bit_eq_mod)

lemma and_access_0 [ref_simps]: "v AND kAccessRefMask = 0 \<longleftrightarrow> access v = 0"
  by (metis access_eq unat_0 unat_eq_zero)

lemma and_access_1 [ref_simps]: "v AND kAccessRefMask = 1 \<longleftrightarrow> access v = 1"
  by (metis access_eq unat_1 word_unat_eq_iff)

lemma and_access_pos [ref_simps]: "v AND kAccessRefMask > 0 \<longleftrightarrow> access v > 0"
  by (metis access_eq word_less_nat_alt unat_0)

lemma and_access_max [ref_simps]: "v AND kAccessRefMask = kAccessRefMask \<longleftrightarrow> access v = 65535"
proof -
  have "unat kAccessRefMask = 65535"
    by (simp add: kAccessRefMask_def kNumAccessRefBits_def drop_bit_eq_div)
  then show ?thesis
    by (metis access_eq word_unat_eq_iff)
qed

lemma access_le: "access v \<le> 65535"
proof -
  have "access v < 2 ^ 16"
    unfolding access_def by (rule mod_less_divisor) simp
  then show ?thesis by simp
qed

lemma admin_bit_bounds: "16 \<le> admin_bit r" "admin_bit r < 19"
  by (cases r; simp add: kNumAccessRefBits_def)+

lemma flag_bit_bounds: "19 \<le> flag_bit f" "flag_bit f < 32"
  by (cases f; simp add: kNumAccessRefBits_def kNumAdminRefBits_def)+

lemma admin_bit_inj [simp]: "admin_bit r = admin_bit s \<longleftrightarrow> r = s"
  by (cases r; cases s; simp)

lemma flag_bit_inj [simp]: "flag_bit f = flag_bit g \<longleftrightarrow> f = g"
  by (cases f; cases g; simp)

declare admin_bit.simps [simp del] flag_bit.simps [simp del]

lemma and_admin_iff [ref_simps]: "v AND getAdminRef r = 0 \<longleftrightarrow> \<not> bit v (admin_bit r)"
  by (simp add: getAdminRef_def and_exp_eq_0_iff_not_bit)

lemma and_flag_iff [ref_simps]: "v AND getFlag f = 0 \<longleftrightarrow> \<not> bit v (flag_bit f)"
  by (simp add: getFlag_def and_exp_eq_0_iff_not_bit)

lemma access_take_bit: "access v = access w" if "\<And>n. n < 16 \<Longrightarrow> bit v n = bit w n"
proof -
  have "take_bit 16 v = take_bit 16 w"
    by (rule bit_eqI) (auto simp: bit_simps that)
  then have "unat (take_bit 16 v) = unat (take_bit 16 w)" by simp
  then show ?thesis
    unfolding access_def unsigned_take_bit_eq by (simp add: take_bit_eq_mod)
qed

lemma access_or_push [simp]: "16 \<le> n \<Longrightarrow> access (v OR 2 ^ n) = access v"
  by (rule access_take_bit) (auto simp: bit_simps)

lemma access_and_not_push [simp]: "16 \<le> n \<Longrightarrow> access (v AND NOT (2 ^ n)) = access v"
  by (rule access_take_bit) (auto simp: bit_simps)

lemma bit_or_push [simp]: "n < 32 \<Longrightarrow> bit (v OR 2 ^ n) k \<longleftrightarrow> k = n \<or> bit v k" for v :: ref_value
  by (auto simp: bit_simps)

lemma bit_and_not_push [simp]: "n < 32 \<Longrightarrow> bit (v AND NOT (2 ^ n)) k \<longleftrightarrow> k \<noteq> n \<and> bit v k" for v :: ref_value
  by (auto simp: bit_simps dest: bit_imp_le_length)

lemma access_inc: "access (v + 1) = Suc (access v)" and bit_inc: "16 \<le> n \<Longrightarrow> bit (v + 1) n = bit v n"
  if "access v < 65535"
proof -
  have *: "unat v mod 2 ^ 16 < 65535" "unat v < 2 ^ 32"
    using that unsigned_less [of v] by (auto simp: access_def)
  have "unat v + 1 < 2 ^ 32"
  proof (rule ccontr)
    assume "\<not> unat v + 1 < 2 ^ 32"
    then have "unat v = 4294967295" using *(2) by simp
    then show False using *(1) by simp
  qed
  then have u: "unat (v + 1) = unat v + 1"
    by (simp add: unat_plus_if_size word_size)
  then show "access (v + 1) = Suc (access v)"
    using * by (simp add: access_def mod_Suc)
  have "unat (v + 1) div 2 ^ 16 = unat v div 2 ^ 16"
    unfolding u using * by (simp add: div_Suc mod_Suc)
  then have "unat (drop_bit 16 (v + 1)) = unat (drop_bit 16 v)"
    by (simp add: drop_bit_eq_div unat_div)
  then have eq: "drop_bit 16 (v + 1) = drop_bit 16 v"
    by (simp add: word_unat_eq_iff)
  show "bit (v + 1) n = bit v n" if "16 \<le> n"
    using arg_cong [OF eq, of "\<lambda>x. bit x (n - 16)"] that by (simp add: bit_drop_bit_eq)
qed

lemma access_dec: "access (v - 1) = access v - 1" and bit_dec: "16 \<le> n \<Longrightarrow> bit (v - 1) n = bit v n"
  if "access v > 0"
proof -
  have "access (v - 1) < 65535"
  proof (rule ccontr)
    assume "\<not> access (v - 1) < 65535"
    then have "access (v - 1) = 65535"
      using access_le [of "v - 1"] by simp
    moreover have "access v = (access (v - 1) + 1) mod 2 ^ 16"
      using unat_word_ariths(1) [of "v - 1" 1] by (simp add: access_def mod_mod_cancel mod_Suc_eq)
    ultimately show False
      using that by simp
  qed
  from access_inc [OF this] bit_inc [OF this, of n]
  show "access (v - 1) = access v - 1" "16 \<le> n \<Longrightarrow> bit (v - 1) n = bit v n"
    by simp_all
qed

section \<open>What each operation does\<close>

lemma updated_update:
  "updated v (update P F v) =
     (case P v of Inl e \<Rightarrow> Inl e
      | Inr b \<Rightarrow> if b then (case F v of Inl e \<Rightarrow> Inl e | Inr v' \<Rightarrow> Inr (True, v')) else Inr (False, v))"
  by (auto simp: updated_def update_def split: sum.splits bool.splits)

abbreviation exclusive :: "ref_value \<Rightarrow> bool" where
  "exclusive v \<equiv> bit v (admin_bit kExclusive)"

abbreviation linked :: "ref_value \<Rightarrow> bool" where
  "linked v \<equiv> bit v (admin_bit kLinked)"

lemma isMoving_iff [ref_simps]: "isMoving v \<longleftrightarrow> exclusive v \<and> access v > 0"
  by (simp add: isMoving_def ref_simps)

lemma isMarkedForEviction_iff [ref_simps]: "isMarkedForEviction v \<longleftrightarrow> exclusive v \<and> access v = 0"
  by (simp add: isMarkedForEviction_def ref_simps)

lemma incRef_eq:
  "incRef v =
     (if access v = 65535 then Inl RefcountOverflow
      else if exclusive v then Inr (if access v = 0 then kIncFailedEviction else kIncFailedMoving, v)
      else Inr (kIncOk, v + 1))"
  by (simp add: incRef_def incRef_predicate_def incRef_res_def updated_update ref_simps)

lemma decRef_eq: "decRef v = (if access v = 0 then Inl RefcountUnderflow else Inr ((v - 1) AND kRefMask, v - 1))"
  by (simp add: decRef_def updated_update ref_simps)

lemma markForEviction_eq:
  "markForEviction v =
     Inr (if linked v \<and> \<not> exclusive v \<and> access v = 0 then (True, v OR getAdminRef kExclusive) else (False, v))"
  by (simp add: markForEviction_def updated_update ref_simps Let_def)

lemma markMoving_eq:
  "markMoving v =
     (if bit v (flag_bit kIsChainedItem) then Inl CheckFailed
      else Inr (if linked v \<and> \<not> exclusive v \<and> access v = 0 then (True, (v + 1) OR getAdminRef kExclusive) else (False, v)))"
  by (simp add: markMoving_def updated_update ref_simps Let_def)

lemma unmarkMoving_eq:
  "unmarkMoving v =
     (if exclusive v \<and> access v > 0
      then let v' = (v - 1) AND NOT (getAdminRef kExclusive) in Inr (v' AND kRefMask, v') else Inl CheckFailed)"
  by (simp add: unmarkMoving_def updated_update ref_simps Let_def)

lemma markForEvictionWhenMoving_eq:
  "markForEvictionWhenMoving v = (if exclusive v \<and> access v = 1 then Inr (True, v - 1) else Inl CheckFailed)"
  by (simp add: markForEvictionWhenMoving_def updated_update ref_simps)

lemma unmarkForEviction_eq:
  "unmarkForEviction v =
     (if exclusive v \<and> access v = 0
      then let v' = v AND NOT (getAdminRef kExclusive) in Inr (v' AND kRefMask, v') else Inl CheckFailed)"
  by (simp add: unmarkForEviction_def ref_simps)

lemma access_admin [ref_simps]:
  "access (v OR getAdminRef r) = access v" "access (v AND NOT (getAdminRef r)) = access v"
  using admin_bit_bounds(1) [of r] by (simp_all add: getAdminRef_def)

lemma bit_admin [ref_simps]:
  "bit (v OR getAdminRef r) k \<longleftrightarrow> k = admin_bit r \<or> bit v k"
  "bit (v AND NOT (getAdminRef r)) k \<longleftrightarrow> k \<noteq> admin_bit r \<and> bit v k"
  using admin_bit_bounds(2) [of r] by (simp_all add: getAdminRef_def)

lemma getAccessRef_eq: "unat (getAccessRef v) = (if exclusive v then access v - 1 else access v)"
proof -
  have ge: "v AND kAccessRefMask \<ge> 1 \<longleftrightarrow> access v \<ge> 1"
    by (metis access_eq unat_1 word_le_nat_alt)
  show ?thesis
    using ge by (cases "access v \<ge> 1")
      (auto simp: getAccessRef_def Let_def and_admin_iff access_eq unat_sub)
qed

text \<open>The flags: setting or clearing one changes no other bit of the word.\<close>

lemma setFlag_bit [ref_simps]: "bit (setFlag f v) k \<longleftrightarrow> k = flag_bit f \<or> bit v k"
  using flag_bit_bounds(2) [of f] by (simp add: setFlag_def)

lemma unSetFlag_bit [ref_simps]: "bit (unSetFlag f v) k \<longleftrightarrow> k \<noteq> flag_bit f \<and> bit v k"
proof -
  have "- 1 - push_bit (flag_bit f) 1 = (NOT (2 ^ flag_bit f) :: ref_value)"
    by (simp add: not_eq_complement)
  then show ?thesis
    using flag_bit_bounds(2) [of f] by (simp add: unSetFlag_def)
qed

lemma isFlagSet_iff [ref_simps]: "isFlagSet f v \<longleftrightarrow> bit v (flag_bit f)"
  by (simp add: isFlagSet_def ref_simps)

lemma access_setFlag [ref_simps]: "access (setFlag f v) = access v" "access (unSetFlag f v) = access v"
  using flag_bit_bounds(1) [of f] by (auto intro!: access_take_bit simp: ref_simps)

lemma admin_bit_neq_flag_bit [simp]: "admin_bit r \<noteq> flag_bit f" "flag_bit f \<noteq> admin_bit r"
  using admin_bit_bounds(2) [of r] flag_bit_bounds(1) [of f] by auto

section \<open>The loop is one step\<close>

lemma atomicUpdateValue_linear:
  assumes "atomicUpdateValue P F curValue seen = Some r"
  shows "\<exists>v \<in> set (curValue # seen). r = update P F v"
  using assms
proof (induction seen arbitrary: curValue)
  case Nil
  then show ?case
    by (auto simp: update_def split: sum.splits bool.splits)
next
  case (Cons v seen)
  show ?case
  proof (cases "r = update P F curValue")
    case False
    then have "atomicUpdateValue P F v seen = Some r"
      using Cons.prems by (auto simp: update_def split: sum.splits bool.splits if_splits)
    from Cons.IH [OF this] show ?thesis by auto
  qed auto
qed

lemma atomicUpdateValue_installs:
  assumes "atomicUpdateValue P F curValue seen = Some (Inr (Some v'))"
  shows "\<exists>v \<in> set seen. update P F v = Inr (Some v')"
  using assms
proof (induction seen arbitrary: curValue)
  case (Cons v seen)
  show ?case
  proof (cases "v = curValue")
    case True
    then show ?thesis
      using Cons.prems by (auto simp: update_def split: sum.splits bool.splits)
  next
    case False
    then have "atomicUpdateValue P F v seen = Some (Inr (Some v'))"
      using Cons.prems by (auto split: sum.splits bool.splits)
    from Cons.IH [OF this] show ?thesis by auto
  qed
qed (auto split: sum.splits bool.splits)

lemma atomicUpdateValue_ends:
  assumes "\<exists>i. Suc i < length (curValue # seen) \<and> (curValue # seen) ! i = (curValue # seen) ! Suc i"
  shows "\<exists>r. atomicUpdateValue P F curValue seen = Some r"
  using assms
proof (induction seen arbitrary: curValue)
  case (Cons v seen)
  show ?case
  proof (cases "v = curValue")
    case False
    then obtain i where "Suc i < length (v # seen) \<and> (v # seen) ! i = (v # seen) ! Suc i"
      using Cons.prems by (auto simp: nth_Cons split: nat.splits)
    from Cons.IH [of v] this have "\<exists>r. atomicUpdateValue P F v seen = Some r" by blast
    then show ?thesis
      by (auto split: sum.splits bool.splits)
  qed (auto split: sum.splits bool.splits)
qed simp

section \<open>Threads\<close>

text \<open>
  What the threads can do to the word. \<open>Flag\<close> stands for every operation on the flags: any change of the word
  above the administrative bits. The state is the word and the number of handles that are out: a handle
  comes from a successful \<open>incRef\<close> and gives its reference back with \<open>decRef\<close>.
\<close>

datatype ref_op = IncRef | DecRef | MarkInMM | UnmarkInMM | MarkAccessible | UnmarkAccessible
  | MarkForEviction | UnmarkForEviction | MarkMoving | UnmarkMoving | MarkForEvictionWhenMoving | Flag ref_value

type_synonym ref_state = "ref_value \<times> nat"

fun ref_exec :: "ref_op \<Rightarrow> ref_state \<Rightarrow> ref_error + ref_state" where
  "ref_exec IncRef (v, h) = map_sum id (\<lambda>(r, v'). (v', if r = kIncOk then Suc h else h)) (incRef v)"
| "ref_exec DecRef (v, h) = (if h = 0 then Inl CheckFailed else map_sum id (\<lambda>(_, v'). (v', h - 1)) (decRef v))"
| "ref_exec MarkInMM (v, h) = Inr (markInMMContainer v, h)"
| "ref_exec UnmarkInMM (v, h) = Inr (unmarkInMMContainer v, h)"
| "ref_exec MarkAccessible (v, h) = Inr (markAccessible v, h)"
| "ref_exec UnmarkAccessible (v, h) = Inr (unmarkAccessible v, h)"
| "ref_exec MarkForEviction (v, h) = map_sum id (\<lambda>(_, v'). (v', h)) (markForEviction v)"
| "ref_exec UnmarkForEviction (v, h) = map_sum id (\<lambda>(_, v'). (v', h)) (unmarkForEviction v)"
| "ref_exec MarkMoving (v, h) = map_sum id (\<lambda>(_, v'). (v', h)) (markMoving v)"
| "ref_exec UnmarkMoving (v, h) = map_sum id (\<lambda>(_, v'). (v', h)) (unmarkMoving v)"
| "ref_exec MarkForEvictionWhenMoving (v, h) = map_sum id (\<lambda>(_, v'). (v', h)) (markForEvictionWhenMoving v)"
| "ref_exec (Flag w) (v, h) = (if take_bit 19 w = take_bit 19 v then Inr (w, h) else Inl CheckFailed)"

inductive ref_run :: "ref_state \<Rightarrow> ref_op list \<Rightarrow> ref_state \<Rightarrow> bool" where
  run_nil: "ref_run s [] s"
| run_step: "ref_run s ops s' \<Longrightarrow> ref_exec op s' = Inr s'' \<Longrightarrow> ref_run s (ops @ [op]) s''"
| run_raise: "ref_run s ops s' \<Longrightarrow> ref_exec op s' = Inl e \<Longrightarrow> ref_run s (ops @ [op]) s'"

inductive_cases ref_run_snocE: "ref_run s (ops @ [op]) s''"

text \<open>The count is the handles that are out, and one for a mover; an item taken exclusively has none out.\<close>

fun ref_inv :: "ref_state \<Rightarrow> bool" where
  "ref_inv (v, h) \<longleftrightarrow>
     (if exclusive v then h = 0 \<and> access v \<le> 1 else access v = h)"

lemma take_bit_eq_bits:
  assumes "take_bit 19 w = take_bit 19 v"
  shows "access w = access v" "bit w (admin_bit r) = bit v (admin_bit r)"
proof -
  have *: "bit w n = bit v n" if "n < 19" for n
    using arg_cong [OF assms, of "\<lambda>x. bit x n"] that by (simp add: bit_take_bit_iff)
  show "access w = access v"
    by (rule access_take_bit) (simp add: *)
  show "bit w (admin_bit r) = bit v (admin_bit r)"
    by (rule *) (rule admin_bit_bounds)
qed

lemma access_mark [ref_simps]:
  "access (markInMMContainer v) = access v" "access (unmarkInMMContainer v) = access v"
  "access (markAccessible v) = access v" "access (unmarkAccessible v) = access v"
  by (simp_all add: markInMMContainer_def unmarkInMMContainer_def markAccessible_def unmarkAccessible_def ref_simps)

lemma bit_mark [ref_simps]:
  "bit (markInMMContainer v) k \<longleftrightarrow> k = admin_bit kLinked \<or> bit v k"
  "bit (unmarkInMMContainer v) k \<longleftrightarrow> k \<noteq> admin_bit kLinked \<and> bit v k"
  "bit (markAccessible v) k \<longleftrightarrow> k = admin_bit kAccessible \<or> bit v k"
  "bit (unmarkAccessible v) k \<longleftrightarrow> k \<noteq> admin_bit kAccessible \<and> bit v k"
  by (simp_all add: markInMMContainer_def unmarkInMMContainer_def markAccessible_def unmarkAccessible_def ref_simps)

lemmas ref_op_eqs = incRef_eq decRef_eq markForEviction_eq unmarkForEviction_eq markMoving_eq unmarkMoving_eq
  markForEvictionWhenMoving_eq

lemma ref_inv_exec:
  assumes "ref_inv s" "ref_exec op s = Inr s'"
  shows "ref_inv s'"
proof -
  obtain v h where s: "s = (v, h)" by (cases s)
  have "ref_inv s'" if "ref_exec (Flag w) (v, h) = Inr s'" for w
    using that assms(1) take_bit_eq_bits(1) [of w v] take_bit_eq_bits(2) [of w v kExclusive]
    unfolding s by (auto split: if_splits)
  then show ?thesis
    using assms access_le [of v] unfolding s
    by (cases op) (auto simp: ref_op_eqs ref_simps Let_def access_inc bit_inc access_dec bit_dec admin_bit_bounds(1)
        simp del: ref_exec.simps(12) split: if_splits)
qed

lemma ref_inv_run: "ref_run s ops s' \<Longrightarrow> ref_inv s \<Longrightarrow> ref_inv s'"
  by (induction rule: ref_run.induct) (auto intro: ref_inv_exec)

lemma marked_exec:
  assumes "ref_inv s" "isMarkedForEviction (fst s)" "ref_exec op s = Inr s'" "op \<noteq> UnmarkForEviction"
  shows "isMarkedForEviction (fst s')"
proof -
  obtain v h where s: "s = (v, h)" by (cases s)
  have "isMarkedForEviction (fst s')" if "ref_exec (Flag w) (v, h) = Inr s'" for w
    using that assms(2) take_bit_eq_bits(1) [of w v] take_bit_eq_bits(2) [of w v kExclusive]
    unfolding s by (auto simp: ref_simps split: if_splits)
  then show ?thesis
    using assms unfolding s
    by (cases op) (auto simp: ref_op_eqs ref_simps simp del: ref_exec.simps(12) split: if_splits)
qed

lemma marked_run:
  assumes "ref_run s ops s'" "ref_inv s" "isMarkedForEviction (fst s)" "UnmarkForEviction \<notin> set ops"
  shows "isMarkedForEviction (fst s')"
  using assms
proof (induction rule: ref_run.induct)
  case (run_step s ops s' op s'')
  then show ?case
    using marked_exec [of s' op s''] ref_inv_run [of s ops s'] by auto
qed auto

lemma ref_inv_init: "ref_inv (0, 0)"
  by (simp add: access_def)

lemma marked_refuses:
  assumes "isMarkedForEviction w"
  shows "incRef w = Inr (kIncFailedEviction, w)" "markForEviction w = Inr (False, w)" "markMoving w \<noteq> Inr (True, u)"
  using assms by (simp_all add: ref_op_eqs ref_simps)

text \<open>
  C1: an item that no handle refers to is evicted by the thread that marks it. Whatever the threads did to
  the word since the item was allocated, \<open>getAccessRef\<close> is the number of handles that are out; and once a thread
  marked the item for eviction, no sequence of operations of any thread without an \<open>unmarkForEviction\<close> gets a
  handle to it (\<open>incRef\<close> answers that it is being evicted), marks it a second time or takes it for moving.
\<close>

theorem refcount_eviction_exclusive:
  assumes "ref_run (0, 0) ops (v, h)"
  shows "unat (getAccessRef v) = h \<and>
    (\<forall>v' ops' w h'. markForEviction v = Inr (True, v') \<and> ref_run (v', h) ops' (w, h') \<and> UnmarkForEviction \<notin> set ops' \<longrightarrow>
      h' = 0 \<and> isMarkedForEviction w \<and> incRef w = Inr (kIncFailedEviction, w) \<and>
      markForEviction w = Inr (False, w) \<and> (\<forall>u. markMoving w \<noteq> Inr (True, u)))"
proof -
  have inv: "ref_inv (v, h)"
    using assms ref_inv_init by (rule ref_inv_run)
  have "h' = 0 \<and> isMarkedForEviction w"
    if *: "markForEviction v = Inr (True, v')" "ref_run (v', h) ops' (w, h')" "UnmarkForEviction \<notin> set ops'" for v' ops' w h'
  proof -
    have inv': "ref_inv (v', h)"
      using inv by (rule ref_inv_exec [where op = MarkForEviction]) (simp add: *(1))
    have "isMarkedForEviction v'"
      using *(1) by (auto simp: markForEviction_eq ref_simps split: if_splits)
    then have "isMarkedForEviction w"
      using marked_run [OF *(2) inv' _ *(3)] by simp
    then show ?thesis
      using ref_inv_run [OF *(2) inv'] by (simp add: ref_simps)
  qed
  then show ?thesis
    using inv marked_refuses by (auto simp: getAccessRef_eq)
qed

theorem refcount_eviction_exclusive_witness:
  "let v = markInMMContainer 0; w = v OR getAdminRef kExclusive in
   ref_run (0, 0) ([] @ [MarkInMM]) (v, 0) \<and> markForEviction v = Inr (True, w) \<and> ref_run (w, 0) ([] @ [IncRef]) (w, 0) \<and>
   unat (getAccessRef v) = 0 \<and> incRef w = Inr (kIncFailedEviction, w)"
proof -
  let ?v = "markInMMContainer 0" and ?w = "markInMMContainer 0 OR getAdminRef kExclusive"
  have r: "ref_run (0, 0) ([] @ [MarkInMM]) (?v, 0)"
    by (rule run_step [OF run_nil]) simp
  have m: "markForEviction ?v = Inr (True, ?w)"
    by code_simp
  have r': "ref_run (?w, 0) ([] @ [IncRef]) (?w, 0)"
    by (rule run_step [OF run_nil]) code_simp
  have "incRef ?w = Inr (kIncFailedEviction, ?w)"
    using refcount_eviction_exclusive [OF r, THEN conjunct2, rule_format, of ?w "[] @ [IncRef]" ?w 0] m r' by simp
  then show ?thesis
    using refcount_eviction_exclusive [OF r, THEN conjunct1] r m r' by (simp add: Let_def)
qed

end
