(* ===== verification/Merlin_Ghost.thy ===== *)
theory Merlin_Ghost
  imports Sim_Prelude "HOL-Library.Word" "HOL-Library.Signed_Division"
begin

text \<open>
  The two tables that Merlin keeps beside its queues in CacheLib: the ghost table
  (\<open>datastruct/MerlinGhost.h\<close>), which remembers the hash and the frequency of evicted items in packed 64-bit slots,
  and the sketch (\<open>datastruct/MerlinSketch.h\<close>), an array of counters that age. Both are updated with
  relaxed atomics and weak compare-and-exchanges, each tried once; whether an exchange succeeds is an argument
  of the model, so that what is proved holds for every outcome.
\<close>

unbundle bit_operations_syntax

section \<open>Packed slots\<close>

definition MAX_FREQ :: nat where
  "MAX_FREQ = 7"

definition nItemPerBucket :: nat where
  "nItemPerBucket = 8"

definition loadFactorInv :: nat where
  "loadFactorInv = 2"

definition keyMask :: "64 word" where
  "keyMask = 0x00000000FFFFFFFF"

definition valueMask :: "64 word" where
  "valueMask = 0x0FFFFFFF00000000"

definition freqMask :: "64 word" where
  "freqMask = 0xF000000000000000"

definition bucketIdxMask :: "64 word" where
  "bucketIdxMask = 0xFFFFFFFFFFFFFFF8"

definition MAX_VALUE :: int where
  "MAX_VALUE = 0x0FFFFFFF"

definition genHashtableVal :: "32 word \<Rightarrow> 32 word \<Rightarrow> 32 word \<Rightarrow> 64 word" where
  "genHashtableVal key time freq =
     (let uKey = ucast key; uTime = ucast time; uFreq = ucast freq
      in uKey OR push_bit 32 uTime OR push_bit 60 uFreq)"

definition matchKey :: "64 word \<Rightarrow> 32 word \<Rightarrow> bool" where
  "matchKey hashTableVal key \<longleftrightarrow> hashTableVal AND keyMask = ucast key"

definition getInsertionTime :: "64 word \<Rightarrow> 32 word" where
  "getInsertionTime hashTableVal = ucast (drop_bit 32 (hashTableVal AND valueMask))"

definition ghost_getFreq :: "64 word \<Rightarrow> 32 word" where
  "ghost_getFreq hashTableVal = ucast (drop_bit 60 (hashTableVal AND freqMask))"

definition slot_freq :: "64 word \<Rightarrow> nat" where
  "slot_freq v = unat (ghost_getFreq v)"

definition getBucketIdx :: "32 word \<Rightarrow> nat \<Rightarrow> nat" where
  "getBucketIdx key numElem = (let bucketIdx = unat key mod numElem in unat (of_nat bucketIdx AND bucketIdxMask))"

section \<open>The ghost table\<close>

text \<open>
  The sizes are computed in 32 bits and then doubled in 64, so they are exact as natural numbers.
  \<open>freq_distribution_\<close> is an array of which only the entries 1 and 2 are used; its atomics are not initialised by
  the constructor, so their first values are an argument.
\<close>

record merlin_ghost =
  g_numElem :: nat
  g_fifoSize :: nat
  g_numInserts :: int
  g_table :: "64 word list"
  g_dist :: "nat \<Rightarrow> int"

definition round_fifoSize :: "32 word \<Rightarrow> nat" where
  "round_fifoSize fifoSize = unat (push_bit 3 (drop_bit 3 fifoSize + 1))"

definition MerlinGhost :: "32 word \<Rightarrow> (nat \<Rightarrow> int) \<Rightarrow> merlin_ghost" where
  "MerlinGhost fifoSize dist =
     (let size = round_fifoSize fifoSize; numElem = size * loadFactorInv
      in \<lparr>g_numElem = numElem, g_fifoSize = size, g_numInserts = 0, g_table = replicate numElem 0, g_dist = dist\<rparr>)"

definition ghost_setFIFOSize :: "32 word \<Rightarrow> merlin_ghost \<Rightarrow> merlin_ghost" where
  "ghost_setFIFOSize fifoSize g =
     (let size = round_fifoSize fifoSize in g\<lparr>g_fifoSize := size, g_numElem := size * loadFactorInv\<rparr>)"

definition ghost_initHashtable :: "merlin_ghost \<Rightarrow> merlin_ghost" where
  "ghost_initHashtable g = g\<lparr>g_table := replicate (g_numElem g) 0\<rparr>"

definition ghost_load :: "merlin_ghost \<Rightarrow> nat \<Rightarrow> 64 word result" where
  "ghost_load g i = (if i < length (g_table g) then Inr (g_table g ! i) else Inl OutOfBounds)"

definition ghost_store :: "nat \<Rightarrow> 64 word \<Rightarrow> merlin_ghost \<Rightarrow> merlin_ghost" where
  "ghost_store i v g = g\<lparr>g_table := (g_table g)[i := v]\<rparr>"

definition dist_add :: "nat \<Rightarrow> int \<Rightarrow> merlin_ghost \<Rightarrow> merlin_ghost" where
  "dist_add k d g = g\<lparr>g_dist := (g_dist g)(k := g_dist g k + d)\<rparr>"

text \<open>A slot that goes away takes its share of the counters with it; a new one adds its own.\<close>

definition dist_leave :: "nat \<Rightarrow> merlin_ghost \<Rightarrow> merlin_ghost" where
  "dist_leave ori_freq g =
     (let g = (if ori_freq \<ge> 2 then dist_add 2 (- 1) g else g)
      in if ori_freq \<ge> 1 then dist_add 1 (- 1) g else g)"

definition dist_enter :: "nat \<Rightarrow> merlin_ghost \<Rightarrow> merlin_ghost" where
  "dist_enter freq g =
     (let g = (if freq \<ge> 2 then dist_add 2 1 g else g)
      in if freq \<ge> 1 then dist_add 1 1 g else g)"

text \<open>The age is signed and is compared with an unsigned size, so an age below zero counts as old.\<close>

definition expired :: "merlin_ghost \<Rightarrow> int \<Rightarrow> 64 word \<Rightarrow> bool" where
  "expired g currTime valInTable \<longleftrightarrow>
     (let age = currTime - uint (getInsertionTime valInTable)
      in (word_of_int age :: 64 word) > of_nat (g_fifoSize g))"

definition reclaim :: "nat \<Rightarrow> 64 word \<Rightarrow> merlin_ghost \<Rightarrow> merlin_ghost" where
  "reclaim i valInTable g = dist_leave (slot_freq valInTable) (ghost_store i 0 g)"

definition contains_hit :: "bool \<Rightarrow> 32 word \<Rightarrow> nat \<Rightarrow> 64 word \<Rightarrow> merlin_ghost \<Rightarrow> nat \<times> merlin_ghost" where
  "contains_hit ret key i valInTable g =
     (let ori_freq = slot_freq valInTable
      in if ori_freq = MAX_FREQ then (MAX_FREQ, g)
         else let new_freq = min (ori_freq + 1) MAX_FREQ;
                  newVal = genHashtableVal key (getInsertionTime valInTable) (of_nat new_freq);
                  g' = (if ret
                        then let g = ghost_store i newVal g;
                                 g = (if new_freq = 2 then dist_add 2 1 g else g)
                             in if new_freq = 1 then dist_add 1 1 g else g
                        else g)
              in (ori_freq + 1, g'))"

fun contains_loop :: "(nat \<Rightarrow> bool) \<Rightarrow> 32 word \<Rightarrow> nat \<Rightarrow> int \<Rightarrow> nat list \<Rightarrow> merlin_ghost \<Rightarrow> (nat \<times> merlin_ghost) result" where
  "contains_loop cas key bucketIdx currTime [] g = Inr (0, g)"
| "contains_loop cas key bucketIdx currTime (i # is) g =
     bindE (ghost_load g (bucketIdx + i)) (\<lambda>valInTable.
       if valInTable = 0 then contains_loop cas key bucketIdx currTime is g
       else if expired g currTime valInTable
       then contains_loop cas key bucketIdx currTime is (if cas i then reclaim (bucketIdx + i) valInTable g else g)
       else if matchKey valInTable key then Inr (contains_hit (cas i) key (bucketIdx + i) valInTable g)
       else contains_loop cas key bucketIdx currTime is g)"

definition ghost_contains :: "(nat \<Rightarrow> bool) \<Rightarrow> 32 word \<Rightarrow> merlin_ghost \<Rightarrow> (nat \<times> merlin_ghost) result" where
  "ghost_contains cas key g =
     (let bucketIdx = getBucketIdx key (g_numElem g); currTime = g_numInserts g
      in contains_loop cas key bucketIdx currTime [0..<nItemPerBucket] g)"

text \<open>
  The probing loop of \<open>insert\<close> either returns from the function (\<open>Inl\<close>) or leaves the last free slot it saw.
\<close>

definition insert_hit :: "bool \<Rightarrow> 32 word \<Rightarrow> nat \<Rightarrow> nat \<Rightarrow> 64 word \<Rightarrow> merlin_ghost \<Rightarrow> merlin_ghost" where
  "insert_hit ret key freq i valInTable g =
     (let ori_freq = slot_freq valInTable
      in if ori_freq = MAX_FREQ then g
         else let new_freq = min (ori_freq + freq) MAX_FREQ;
                  newVal = genHashtableVal key (getInsertionTime valInTable) (of_nat new_freq)
              in if ret
                 then let g = ghost_store i newVal g;
                          g = (if ori_freq < 2 \<and> new_freq \<ge> 2 then dist_add 2 1 g else g)
                      in if ori_freq < 1 \<and> new_freq \<ge> 1 then dist_add 1 1 g else g
                 else g)"

fun insert_loop ::
  "(nat \<Rightarrow> bool) \<Rightarrow> 32 word \<Rightarrow> nat \<Rightarrow> nat \<Rightarrow> int \<Rightarrow> nat list \<Rightarrow> nat option \<Rightarrow> merlin_ghost
     \<Rightarrow> (merlin_ghost + nat option \<times> merlin_ghost) result" where
  "insert_loop cas key freq bucketIdx currTime [] empty_slot g = Inr (Inr (empty_slot, g))"
| "insert_loop cas key freq bucketIdx currTime (i # is) empty_slot g =
     bindE (ghost_load g (bucketIdx + i)) (\<lambda>valInTable.
       if valInTable = 0 then insert_loop cas key freq bucketIdx currTime is (Some i) g
       else if expired g currTime valInTable
       then if cas i
            then insert_loop cas key freq bucketIdx currTime is (Some i) (reclaim (bucketIdx + i) valInTable g)
            else insert_loop cas key freq bucketIdx currTime is empty_slot g
       else if matchKey valInTable key then Inr (Inl (insert_hit (cas i) key freq (bucketIdx + i) valInTable g))
       else insert_loop cas key freq bucketIdx currTime is empty_slot g)"

definition insert_time :: "merlin_ghost \<Rightarrow> int \<times> merlin_ghost" where
  "insert_time g = (if g_numInserts g > MAX_VALUE then (0, g\<lparr>g_numInserts := 0\<rparr>) else (g_numInserts g, g))"

text \<open>The end of \<open>insert\<close>, after the probing loop.\<close>

definition insert_put :: "bool \<Rightarrow> 32 word \<Rightarrow> nat \<Rightarrow> nat \<Rightarrow> nat option \<Rightarrow> merlin_ghost \<Rightarrow> merlin_ghost result" where
  "insert_put cas' key freq bucketIdx empty_slot g =
     (let currTime = g_numInserts g;
          g = g\<lparr>g_numInserts := currTime + 1\<rparr>;
          hashTableVal = genHashtableVal key (word_of_int currTime) (of_nat freq)
      in case empty_slot of
           None \<Rightarrow>
             let evictIdx = unat key mod g_numElem g
             in bindE (ghost_load g evictIdx) (\<lambda>valInTable.
                  if cas' then Inr (dist_enter freq (dist_leave (slot_freq valInTable) (ghost_store evictIdx hashTableVal g)))
                  else Inr g)
         | Some i \<Rightarrow>
             bindE (ghost_load g (bucketIdx + i)) (\<lambda>emptyVal.
               if cas' \<and> emptyVal = 0 then Inr (dist_enter freq (ghost_store (bucketIdx + i) hashTableVal g))
               else Inr g))"

definition ghost_insert :: "(nat \<Rightarrow> bool) \<Rightarrow> bool \<Rightarrow> 32 word \<Rightarrow> nat \<Rightarrow> merlin_ghost \<Rightarrow> merlin_ghost result" where
  "ghost_insert cas cas' key freq g =
     (let (currTime, g) = insert_time g; bucketIdx = getBucketIdx key (g_numElem g)
      in bindE (insert_loop cas key (freq + 1) bucketIdx currTime [0..<nItemPerBucket] None g)
           (case_sum Inr (\<lambda>(empty_slot, g). insert_put cas' key freq bucketIdx empty_slot g)))"

section \<open>The fields of a slot\<close>

lemma bit_numeral_mask:
  "keyMask = mask 32" "valueMask = push_bit 32 (mask 28)" "freqMask = push_bit 60 (mask 4)"
  by (simp_all add: keyMask_def valueMask_def freqMask_def mask_eq_exp_minus_1)

lemma bit_small: "n < k" if "unat w < 2 ^ k" "bit w n" for w :: "32 word"
proof -
  have "take_bit k (unat w) = unat w"
    using that(1) by (rule take_bit_nat_eq_self)
  moreover have "bit (unat w) n"
    using that(2) by (simp add: bit_unsigned_iff)
  ultimately show ?thesis
    by (metis bit_take_bit_iff)
qed

lemma bit_gen:
  "bit (genHashtableVal key t f) n \<longleftrightarrow>
     (n < 32 \<and> bit key n) \<or> (32 \<le> n \<and> n < 64 \<and> bit t (n - 32)) \<or> (60 \<le> n \<and> n < 64 \<and> bit f (n - 60))"
  by (auto simp: genHashtableVal_def Let_def bit_simps dest: bit_imp_le_length)

lemma getFreq_gen: "ghost_getFreq (genHashtableVal key t f) = f" if "unat t < 2 ^ 28" "unat f < 2 ^ 4"
  unfolding ghost_getFreq_def bit_numeral_mask
  by (rule bit_eqI) (auto simp: bit_simps bit_gen dest: bit_small [OF that(1)] bit_small [OF that(2)])

lemma getInsertionTime_gen: "getInsertionTime (genHashtableVal key t f) = t" if "unat t < 2 ^ 28"
  unfolding getInsertionTime_def bit_numeral_mask
  by (rule bit_eqI) (auto simp: bit_simps bit_gen dest: bit_small [OF that])

lemma ucast_64_inj: "(ucast a :: 64 word) = ucast b \<longleftrightarrow> a = b" for a b :: "32 word"
proof
  assume *: "(ucast a :: 64 word) = ucast b"
  show "a = b"
  proof (rule bit_eqI)
    fix n assume "possible_bit TYPE(32 word) n"
    then show "bit a n \<longleftrightarrow> bit b n"
      using arg_cong [OF *, of "\<lambda>x. bit x n"] by (simp add: bit_simps)
  qed
qed simp

lemma matchKey_gen: "matchKey (genHashtableVal key t f) key' \<longleftrightarrow> key' = key"
proof -
  have "genHashtableVal key t f AND keyMask = ucast key"
    unfolding bit_numeral_mask by (rule bit_eqI) (auto simp: bit_simps bit_gen dest: bit_imp_le_length)
  then show ?thesis
    by (auto simp: matchKey_def ucast_64_inj)
qed

lemma gen_eq_0: "genHashtableVal key t f = 0 \<longleftrightarrow> key = 0 \<and> t = 0 \<and> f = 0" if "unat t < 2 ^ 28" "unat f < 2 ^ 4"
proof
  assume *: "genHashtableVal key t f = 0"
  have "matchKey 0 key"
    unfolding * [symmetric] by (simp add: matchKey_gen)
  moreover have "ghost_getFreq 0 = f" "getInsertionTime 0 = t"
    using getFreq_gen [OF that, of key] getInsertionTime_gen [OF that(1), of key f] by (simp_all add: *)
  ultimately show "key = 0 \<and> t = 0 \<and> f = 0"
    using ucast_64_inj [of 0 key] by (auto simp: matchKey_def ghost_getFreq_def getInsertionTime_def)
qed (simp add: genHashtableVal_def)

lemma slot_freq_gen: "slot_freq (genHashtableVal key t (of_nat f)) = f" if "unat t < 2 ^ 28" "f < 16"
proof -
  have "unat (of_nat f :: 32 word) = f"
    using that(2) by (simp add: unat_of_nat)
  then show ?thesis
    unfolding slot_freq_def using getFreq_gen [OF that(1), of "of_nat f" key] that(2) by simp
qed

lemma getInsertionTime_less: "unat (getInsertionTime v) < 2 ^ 28"
proof -
  have "take_bit 28 (getInsertionTime v) = getInsertionTime v"
    unfolding getInsertionTime_def bit_numeral_mask by (rule bit_eqI) (auto simp: bit_simps)
  then have "unat (getInsertionTime v) = take_bit 28 (unat (getInsertionTime v))"
    by (metis unsigned_take_bit_eq)
  then show ?thesis
    by (metis take_bit_nat_less_exp)
qed

section \<open>The counters\<close>

text \<open>The counters are cumulative: entry \<open>k\<close> counts the slots with a frequency of at least \<open>k\<close>.\<close>

definition ghost_count :: "nat \<Rightarrow> merlin_ghost \<Rightarrow> int" where
  "ghost_count k g = int (length (filter (\<lambda>v. k \<le> slot_freq v) (g_table g)))"

definition ghost_gap :: "merlin_ghost \<Rightarrow> nat \<Rightarrow> int" where
  "ghost_gap g k = g_dist g k - ghost_count k g"

lemma ghost_count_simps [simp]:
  "ghost_count k (g\<lparr>g_numInserts := n\<rparr>) = ghost_count k g"
  "ghost_count k (dist_add j d g) = ghost_count k g"
  by (simp_all add: ghost_count_def dist_add_def)

lemma g_dist_simps [simp]:
  "g_dist (ghost_store i v g) = g_dist g"
  "g_dist (dist_add k d g) j = (if j = k then g_dist g k + d else g_dist g j)"
  by (simp_all add: ghost_store_def dist_add_def)

lemma count_update:
  assumes "i < length xs"
  shows "int (length (filter P (xs[i := v]))) = int (length (filter P xs)) - of_bool (P (xs ! i)) + of_bool (P v)"
proof -
  have "xs = take i xs @ xs ! i # drop (Suc i) xs"
    using assms by (rule id_take_nth_drop)
  then have "length (filter P xs) = length (filter P (take i xs @ xs ! i # drop (Suc i) xs))" by simp
  then show ?thesis
    by (simp add: upd_conv_take_nth_drop [OF assms])
qed

lemma ghost_count_store:
  "i < length (g_table g) \<Longrightarrow>
     ghost_count k (ghost_store i v g) = ghost_count k g - of_bool (k \<le> slot_freq (g_table g ! i)) + of_bool (k \<le> slot_freq v)"
  by (simp add: ghost_count_def ghost_store_def count_update)

lemma ghost_load_Inr: "ghost_load g i = Inr v \<longleftrightarrow> i < length (g_table g) \<and> v = g_table g ! i"
  by (auto simp: ghost_load_def)

lemma slot_freq_0 [simp]: "slot_freq 0 = 0"
  by (simp add: slot_freq_def ghost_getFreq_def)

definition slot_freqs_ok :: "merlin_ghost \<Rightarrow> bool" where
  "slot_freqs_ok g \<longleftrightarrow> (\<forall>v \<in> set (g_table g). slot_freq v \<le> MAX_FREQ)"

definition ghost_table_ok :: "merlin_ghost \<Rightarrow> bool" where
  "ghost_table_ok g \<longleftrightarrow>
     length (g_table g) = g_numElem g \<and> g_numElem g = loadFactorInv * g_fifoSize g \<and>
     8 dvd g_fifoSize g \<and> 0 < g_fifoSize g \<and> g_fifoSize g < 2 ^ 32 \<and>
     0 \<le> g_numInserts g \<and> g_numInserts g \<le> MAX_VALUE + 1 \<and> slot_freqs_ok g"

text \<open>What every access to a slot keeps: the shape of the table and the meaning of the counters.\<close>

definition ghost_keeps :: "merlin_ghost \<Rightarrow> merlin_ghost \<Rightarrow> bool" where
  "ghost_keeps g g' \<longleftrightarrow>
     g_numElem g' = g_numElem g \<and> g_fifoSize g' = g_fifoSize g \<and> g_numInserts g' = g_numInserts g \<and>
     length (g_table g') = length (g_table g) \<and> (slot_freqs_ok g \<longrightarrow> slot_freqs_ok g') \<and>
     ghost_gap g' 1 = ghost_gap g 1 \<and> ghost_gap g' 2 = ghost_gap g 2"

lemma ghost_keeps_refl [simp]: "ghost_keeps g g"
  by (simp add: ghost_keeps_def)

lemma ghost_keeps_trans: "ghost_keeps g g' \<Longrightarrow> ghost_keeps g' g'' \<Longrightarrow> ghost_keeps g g''"
  by (simp add: ghost_keeps_def)

lemma ghost_keeps_ok: "ghost_keeps g g' \<Longrightarrow> ghost_table_ok g \<Longrightarrow> ghost_table_ok g'"
  by (simp add: ghost_keeps_def ghost_table_ok_def)

lemma g_select_simps [simp]:
  "g_numElem (ghost_store i v g) = g_numElem g" "g_numElem (dist_add k d g) = g_numElem g"
  "g_fifoSize (ghost_store i v g) = g_fifoSize g" "g_fifoSize (dist_add k d g) = g_fifoSize g"
  "g_numInserts (ghost_store i v g) = g_numInserts g" "g_numInserts (dist_add k d g) = g_numInserts g"
  "g_table (ghost_store i v g) = (g_table g)[i := v]" "g_table (dist_add k d g) = g_table g"
  by (simp_all add: ghost_store_def dist_add_def)

lemma slot_freqs_ok_store: "slot_freqs_ok g \<Longrightarrow> slot_freq v \<le> MAX_FREQ \<Longrightarrow> slot_freqs_ok (ghost_store i v g)"
  by (auto simp: slot_freqs_ok_def dest: set_update_subset_insert [THEN subsetD])

lemma slot_freqs_ok_dist_add [simp]: "slot_freqs_ok (dist_add k d g) = slot_freqs_ok g"
  by (simp add: slot_freqs_ok_def)

lemmas gap_simps = ghost_gap_def ghost_count_store dist_leave_def dist_enter_def Let_def

lemma keeps_reclaim: "i < length (g_table g) \<Longrightarrow> ghost_keeps g (reclaim i (g_table g ! i) g)"
  by (auto simp: ghost_keeps_def reclaim_def gap_simps intro: slot_freqs_ok_store)

lemma slot_freq_hit [simp]: "f \<le> MAX_FREQ \<Longrightarrow> slot_freq (genHashtableVal key (getInsertionTime v) (of_nat f)) = f"
  using slot_freq_gen [OF getInsertionTime_less] by (simp add: MAX_FREQ_def)

lemma keeps_contains_hit:
  assumes "i < length (g_table g)"
  shows "ghost_keeps g (snd (contains_hit ret key i (g_table g ! i) g))"
proof -
  define n where "n = min (slot_freq (g_table g ! i) + 1) MAX_FREQ"
  define nv where "nv = genHashtableVal key (getInsertionTime (g_table g ! i)) (of_nat n)"
  have "slot_freq nv = n" "n \<le> MAX_FREQ"
    by (simp_all add: nv_def n_def)
  then show ?thesis
    unfolding contains_hit_def Let_def n_def [symmetric] nv_def [symmetric] using assms
    by (auto simp: ghost_keeps_def gap_simps n_def MAX_FREQ_def intro!: slot_freqs_ok_store)
qed

lemma keeps_insert_hit:
  assumes "i < length (g_table g)"
  shows "ghost_keeps g (insert_hit ret key freq i (g_table g ! i) g)"
proof -
  define n where "n = min (slot_freq (g_table g ! i) + freq) MAX_FREQ"
  define nv where "nv = genHashtableVal key (getInsertionTime (g_table g ! i)) (of_nat n)"
  have "slot_freq nv = n" "n \<le> MAX_FREQ"
    by (simp_all add: nv_def n_def)
  then show ?thesis
    unfolding insert_hit_def Let_def n_def [symmetric] nv_def [symmetric] using assms
    by (auto simp: ghost_keeps_def gap_simps n_def MAX_FREQ_def intro!: slot_freqs_ok_store)
qed

lemma contains_loop_keeps:
  assumes "\<forall>i \<in> set is. b + i < length (g_table g)"
  shows "\<exists>r g'. contains_loop cas key b currTime is g = Inr (r, g') \<and> ghost_keeps g g'"
  using assms
proof (induction "is" arbitrary: g)
  case (Cons i "is")
  let ?v = "g_table g ! (b + i)"
  have i: "b + i < length (g_table g)" using Cons.prems by simp
  show ?case
  proof (cases "?v \<noteq> 0 \<and> \<not> expired g currTime ?v \<and> matchKey ?v key")
    case True
    then show ?thesis
      using keeps_contains_hit [OF i, of "cas i" key] i
      by (cases "contains_hit (cas i) key (b + i) ?v g") (simp add: ghost_load_def)
  next
    case False
    define g1 where "g1 = (if ?v \<noteq> 0 \<and> expired g currTime ?v \<and> cas i then reclaim (b + i) ?v g else g)"
    have k: "ghost_keeps g g1"
      using keeps_reclaim [OF i] by (simp add: g1_def)
    then have "\<forall>i \<in> set is. b + i < length (g_table g1)"
      using Cons.prems by (simp add: ghost_keeps_def)
    from Cons.IH [OF this] obtain r g' where "contains_loop cas key b currTime is g1 = Inr (r, g')" "ghost_keeps g1 g'"
      by blast
    moreover have "contains_loop cas key b currTime (i # is) g = contains_loop cas key b currTime is g1"
      using False i by (auto simp: ghost_load_def g1_def)
    ultimately show ?thesis
      using ghost_keeps_trans [OF k] by auto
  qed
qed simp

definition insert_state :: "merlin_ghost + nat option \<times> merlin_ghost \<Rightarrow> merlin_ghost" where
  "insert_state r = (case r of Inl g \<Rightarrow> g | Inr (_, g) \<Rightarrow> g)"

lemma insert_loop_keeps:
  assumes "\<forall>i \<in> set is. b + i < length (g_table g)"
  shows "\<exists>r. insert_loop cas key freq b currTime is e g = Inr r \<and> ghost_keeps g (insert_state r) \<and>
    (\<forall>j g'. r = Inr (Some j, g') \<longrightarrow> j \<in> set is \<or> e = Some j)"
  using assms
proof (induction "is" arbitrary: g e)
  case Nil
  then show ?case by (simp add: insert_state_def)
next
  case (Cons i "is")
  let ?v = "g_table g ! (b + i)"
  have i: "b + i < length (g_table g)" using Cons.prems by simp
  show ?case
  proof (cases "?v \<noteq> 0 \<and> \<not> expired g currTime ?v \<and> matchKey ?v key")
    case True
    then show ?thesis
      using keeps_insert_hit [OF i, of "cas i" key freq] i by (simp add: ghost_load_def insert_state_def)
  next
    case False
    define g1 where "g1 = (if ?v \<noteq> 0 \<and> expired g currTime ?v \<and> cas i then reclaim (b + i) ?v g else g)"
    define e1 where "e1 = (if ?v = 0 \<or> expired g currTime ?v \<and> cas i then Some i else e)"
    have k: "ghost_keeps g g1"
      using keeps_reclaim [OF i] by (simp add: g1_def)
    then have "\<forall>i \<in> set is. b + i < length (g_table g1)"
      using Cons.prems by (simp add: ghost_keeps_def)
    from Cons.IH [OF this, of e1] obtain r where r: "insert_loop cas key freq b currTime is e1 g1 = Inr r"
      "ghost_keeps g1 (insert_state r)" "\<forall>j g'. r = Inr (Some j, g') \<longrightarrow> j \<in> set is \<or> e1 = Some j"
      by blast
    have "insert_loop cas key freq b currTime (i # is) e g = insert_loop cas key freq b currTime is e1 g1"
      using False i by (auto simp: ghost_load_def g1_def e1_def)
    then show ?thesis
      using r ghost_keeps_trans [OF k r(2)] by (auto simp: e1_def split: if_splits)
  qed
qed

lemma getBucketIdx_eq: "getBucketIdx key n = 8 * (unat key mod n div 8)"
proof -
  define m where "m = unat key mod n"
  define w where "w = (of_nat m :: 64 word)"
  have "m \<le> unat key" "unat key < 2 ^ 32"
    using unsigned_less [of key, where ?'a = nat] by (simp_all add: m_def)
  then have m: "unat w = m" "m < 2 ^ 32"
    by (simp_all add: w_def unat_of_nat)
  have "bucketIdxMask = NOT (mask 3)"
    by (simp add: bucketIdxMask_def mask_eq_exp_minus_1 not_eq_complement)
  then have "w AND bucketIdxMask = w AND NOT (mask 3)" by simp
  also have "\<dots> = push_bit 3 (drop_bit 3 w)"
    by (rule bit_eqI) (auto simp: bit_simps dest: bit_imp_le_length)
  also have "\<dots> = 8 * (w div 8)"
    by (simp add: push_bit_eq_mult drop_bit_eq_div mult.commute)
  finally have "unat (w AND bucketIdxMask) = 8 * (m div 8)"
    using m by (simp add: unat_word_ariths(2) unat_div)
  then show ?thesis
    by (simp add: getBucketIdx_def Let_def w_def m_def)
qed

lemma bucket_in_table:
  assumes "ghost_table_ok g" "i < nItemPerBucket"
  shows "getBucketIdx key (g_numElem g) + i < length (g_table g)"
proof -
  obtain c where c: "g_numElem g = 16 * c" "0 < c" "length (g_table g) = 16 * c"
    using assms(1) by (auto simp: ghost_table_ok_def loadFactorInv_def elim!: dvdE)
  define m where "m = unat key mod (16 * c)"
  have "m < 16 * c" using c by (simp add: m_def)
  then have "m div 8 < 2 * c"
    by (simp add: less_mult_imp_div_less)
  then have "8 * (m div 8) + i < 16 * c"
    using assms(2) unfolding nItemPerBucket_def by linarith
  then show ?thesis
    using c by (simp add: getBucketIdx_eq m_def)
qed

lemma ghost_contains_keeps:
  assumes "ghost_table_ok g"
  shows "\<exists>r g'. ghost_contains cas key g = Inr (r, g') \<and> ghost_keeps g g' \<and> ghost_table_ok g'"
proof -
  obtain r g' where "ghost_contains cas key g = Inr (r, g')" "ghost_keeps g g'"
    using contains_loop_keeps [of "[0..<nItemPerBucket]" "getBucketIdx key (g_numElem g)" g] bucket_in_table [OF assms]
    unfolding ghost_contains_def Let_def by (metis atLeastLessThan_iff set_upt)
  then show ?thesis
    using ghost_keeps_ok assms by blast
qed

text \<open>What an insertion keeps, apart from the time.\<close>

lemma insert_time_ok:
  assumes "ghost_table_ok g" "insert_time g = (t, g')"
  shows "ghost_table_ok g'" "t = g_numInserts g'" "0 \<le> t" "t \<le> MAX_VALUE" "g_table g' = g_table g" "g_numElem g' = g_numElem g"
    "ghost_gap g' k = ghost_gap g k"
  using assms by (auto simp: insert_time_def ghost_table_ok_def slot_freqs_ok_def MAX_VALUE_def ghost_gap_def split: if_splits)

lemma slot_freq_new:
  assumes "0 \<le> t" "t \<le> MAX_VALUE" "f \<le> MAX_FREQ"
  shows "slot_freq (genHashtableVal key (word_of_int t) (of_nat f)) = f"
proof (rule slot_freq_gen)
  show "unat (word_of_int t :: 32 word) < 2 ^ 28"
    using assms(1,2) by (simp add: unat_eq_nat_uint uint_word_of_int MAX_VALUE_def nat_less_iff)
qed (use assms(3) in \<open>simp add: MAX_FREQ_def\<close>)

lemma keeps_put:
  assumes "i < length (g_table g)" "slot_freq nv = f" "f \<le> MAX_FREQ"
  shows "ghost_keeps g (dist_enter f (dist_leave (slot_freq (g_table g ! i)) (ghost_store i nv g)))"
  using assms by (auto simp: ghost_keeps_def gap_simps intro!: slot_freqs_ok_store)

lemma dist_leave_0 [simp]: "dist_leave 0 g = g"
  by (simp add: dist_leave_def)

lemma insert_put_ok:
  assumes "ghost_table_ok g" "g_numInserts g \<le> MAX_VALUE" "freq \<le> MAX_FREQ"
    "\<And>i. e = Some i \<Longrightarrow> b + i < length (g_table g)"
  shows "\<exists>g'. insert_put cas' key freq b e g = Inr g' \<and> ghost_table_ok g' \<and> ghost_gap g' 1 = ghost_gap g 1 \<and> ghost_gap g' 2 = ghost_gap g 2"
proof -
  define g1 where "g1 = g\<lparr>g_numInserts := g_numInserts g + 1\<rparr>"
  define nv where "nv = genHashtableVal key (word_of_int (g_numInserts g)) (of_nat freq)"
  define j where "j = (case e of None \<Rightarrow> unat key mod g_numElem g | Some i \<Rightarrow> b + i)"
  have g1: "ghost_table_ok g1" "ghost_gap g1 k = ghost_gap g k" "g_table g1 = g_table g" for k
    using assms(1,2) by (simp_all add: g1_def ghost_table_ok_def slot_freqs_ok_def ghost_gap_def)
  have j: "j < length (g_table g1)"
    using assms(1,4) g1 by (auto simp: j_def ghost_table_ok_def loadFactorInv_def split: option.splits)
  have nv: "slot_freq nv = freq"
    using assms unfolding nv_def by (intro slot_freq_new) (auto simp: ghost_table_ok_def)
  define g2 where "g2 = dist_enter freq (dist_leave (slot_freq (g_table g1 ! j)) (ghost_store j nv g1))"
  have "insert_put cas' key freq b e g = Inr (if cas' \<and> (e = None \<or> g_table g1 ! j = 0) then g2 else g1)"
    using j by (auto simp: insert_put_def Let_def j_def g1_def g2_def nv_def ghost_load_def split: option.splits)
  moreover have "ghost_keeps g1 g2"
    unfolding g2_def using j nv assms(3) by (rule keeps_put)
  then have "ghost_table_ok g2 \<and> ghost_gap g2 1 = ghost_gap g 1 \<and> ghost_gap g2 2 = ghost_gap g 2"
    using g1 by (simp add: ghost_keeps_def ghost_table_ok_def)
  ultimately show ?thesis
    using g1 by simp
qed

lemma ghost_insert_ok:
  assumes "ghost_table_ok g" "freq \<le> MAX_FREQ"
  shows "\<exists>g'. ghost_insert cas cas' key freq g = Inr g' \<and> ghost_table_ok g' \<and> ghost_gap g' 1 = ghost_gap g 1 \<and> ghost_gap g' 2 = ghost_gap g 2"
proof -
  obtain t g1 where t: "insert_time g = (t, g1)" by (cases "insert_time g")
  note t1 = insert_time_ok [OF assms(1) t]
  let ?b = "getBucketIdx key (g_numElem g1)"
  have "\<forall>i \<in> set [0..<nItemPerBucket]. ?b + i < length (g_table g1)"
    using bucket_in_table [OF t1(1)] by auto
  from insert_loop_keeps [OF this, of cas key "freq + 1" t None] obtain r where
    r: "insert_loop cas key (freq + 1) ?b t [0..<nItemPerBucket] None g1 = Inr r" "ghost_keeps g1 (insert_state r)"
       "\<forall>j g'. r = Inr (Some j, g') \<longrightarrow> j < nItemPerBucket"
    by auto
  have i: "ghost_insert cas cas' key freq g = case_sum Inr (\<lambda>(e, g). insert_put cas' key freq ?b e g) r"
    using r(1) by (simp add: ghost_insert_def t Let_def)
  show ?thesis
  proof (cases r)
    case (Inl g2)
    then show ?thesis
      using i r(2) t1 by (simp add: insert_state_def ghost_keeps_def ghost_table_ok_def)
  next
    case (Inr p)
    obtain e g2 where p: "p = (e, g2)" by (cases p)
    have k: "ghost_keeps g1 g2"
      using r(2) Inr p by (simp add: insert_state_def)
    have "\<exists>g'. insert_put cas' key freq ?b e g2 = Inr g' \<and> ghost_table_ok g' \<and> ghost_gap g' 1 = ghost_gap g2 1 \<and> ghost_gap g' 2 = ghost_gap g2 2"
    proof (rule insert_put_ok [OF ghost_keeps_ok [OF k t1(1)] _ assms(2)])
      show "g_numInserts g2 \<le> MAX_VALUE"
        using k t1 by (simp add: ghost_keeps_def)
      show "?b + i < length (g_table g2)" if "e = Some i" for i
        using r(3) Inr p that k bucket_in_table [OF t1(1)] by (simp add: ghost_keeps_def)
    qed
    then show ?thesis
      using i Inr p k t1 by (auto simp: ghost_keeps_def)
  qed
qed

section \<open>What is inserted is found\<close>

text \<open>A slot that answers for a key at a time.\<close>

definition hit :: "merlin_ghost \<Rightarrow> int \<Rightarrow> 32 word \<Rightarrow> 64 word \<Rightarrow> bool" where
  "hit g currTime key v \<longleftrightarrow> v \<noteq> 0 \<and> \<not> expired g currTime v \<and> matchKey v key"

text \<open>The frequency the table has for a key at a time: that of the first slot of the bucket that answers.\<close>

definition live_freq :: "merlin_ghost \<Rightarrow> int \<Rightarrow> 32 word \<Rightarrow> nat option" where
  "live_freq g currTime key =
     (let b = getBucketIdx key (g_numElem g)
      in map_option (\<lambda>i. slot_freq (g_table g ! (b + i))) (find (\<lambda>i. hit g currTime key (g_table g ! (b + i))) [0..<nItemPerBucket]))"

lemma not_hit_0 [simp]: "\<not> hit g t key 0"
  by (simp add: hit_def)

lemma expired_cong: "g_fifoSize g' = g_fifoSize g \<Longrightarrow> expired g' = expired g"
  by (simp add: expired_def fun_eq_iff)

lemma hit_cong: "g_fifoSize g' = g_fifoSize g \<Longrightarrow> hit g' = hit g"
  using expired_cong [of g' g] by (simp add: hit_def fun_eq_iff)

lemma reclaim_simps [simp]:
  "g_table (reclaim i v g) = (g_table g)[i := 0]" "g_fifoSize (reclaim i v g) = g_fifoSize g"
  "g_numElem (reclaim i v g) = g_numElem g" "g_numInserts (reclaim i v g) = g_numInserts g"
  by (simp_all add: reclaim_def dist_leave_def Let_def)

lemma find_upt_iff: "find P [0..<n] = Some i \<longleftrightarrow> i < n \<and> P i \<and> (\<forall>j<i. \<not> P j)"
  by (auto simp: find_Some_iff)

lemma contains_loop_hit:
  assumes "find (\<lambda>i. hit g t key (g_table g ! (b + i))) is = Some i"
    "\<forall>j \<in> set is. b + j < length (g_table g)" "distinct is"
  shows "\<exists>g'. contains_loop cas key b t is g =
    Inr (if slot_freq (g_table g ! (b + i)) = MAX_FREQ then MAX_FREQ else slot_freq (g_table g ! (b + i)) + 1, g')"
  using assms
proof (induction "is" arbitrary: g)
  case (Cons j "is")
  let ?v = "g_table g ! (b + j)"
  show ?case
  proof (cases "hit g t key ?v")
    case True
    then show ?thesis
      using Cons.prems by (auto simp: hit_def ghost_load_def contains_hit_def Let_def)
  next
    case False
    define g1 where "g1 = (if ?v \<noteq> 0 \<and> expired g t ?v \<and> cas j then reclaim (b + j) ?v g else g)"
    have tab: "g_table g1 ! (b + k) = g_table g ! (b + k)" if "k \<in> set is" for k
      using that Cons.prems(3) by (cases "k = j") (simp_all add: g1_def)
    have h: "hit g1 = hit g" by (rule hit_cong) (simp add: g1_def)
    have f: "find (\<lambda>i. hit g t key (g_table g ! (b + i))) is = Some i"
      using Cons.prems(1) False by simp
    then have "i \<in> set is" by (auto simp: find_Some_iff)
    have "\<exists>g'. contains_loop cas key b t is g1 =
      Inr (if slot_freq (g_table g1 ! (b + i)) = MAX_FREQ then MAX_FREQ else slot_freq (g_table g1 ! (b + i)) + 1, g')"
    proof (rule Cons.IH)
      show "find (\<lambda>i. hit g1 t key (g_table g1 ! (b + i))) is = Some i"
        using f tab by (simp add: h cong: find_cong)
    qed (use Cons.prems in \<open>simp_all add: g1_def\<close>)
    moreover have "contains_loop cas key b t (j # is) g = contains_loop cas key b t is g1"
      using Cons.prems False by (auto simp: ghost_load_def g1_def hit_def)
    ultimately show ?thesis
      by (simp only: tab [OF \<open>i \<in> set is\<close>])
  qed
qed simp

text \<open>What the probing loop of an insertion leaves, when its exchanges succeed: it clears old slots only.\<close>

definition probed :: "merlin_ghost \<Rightarrow> merlin_ghost \<Rightarrow> bool" where
  "probed g g1 \<longleftrightarrow>
     g_fifoSize g1 = g_fifoSize g \<and> g_numElem g1 = g_numElem g \<and> g_numInserts g1 = g_numInserts g \<and>
     length (g_table g1) = length (g_table g) \<and> (\<forall>k. g_table g1 ! k = 0 \<or> g_table g1 ! k = g_table g ! k)"

lemma probed_refl [simp]: "probed g g"
  by (simp add: probed_def)

lemma probed_reclaim: "k < length (g_table g) \<Longrightarrow> probed (reclaim k v g) g1 \<Longrightarrow> probed g g1"
  by (auto simp: probed_def nth_list_update split: if_splits)

lemma insert_loop_hit:
  assumes "find (\<lambda>i. hit g t key (g_table g ! (b + i))) is = Some i"
    "\<forall>j \<in> set is. b + j < length (g_table g)" "distinct is"
  shows "\<exists>g1. insert_loop (\<lambda>_. True) key f b t is e g = Inr (Inl (insert_hit True key f (b + i) (g_table g ! (b + i)) g1)) \<and>
    probed g g1 \<and> g_table g1 ! (b + i) = g_table g ! (b + i)"
  using assms
proof (induction "is" arbitrary: g e)
  case (Cons j "is")
  let ?v = "g_table g ! (b + j)"
  show ?case
  proof (cases "hit g t key ?v")
    case True
    then show ?thesis
      using Cons.prems by (auto simp: hit_def ghost_load_def)
  next
    case False
    define g1 where "g1 = (if ?v \<noteq> 0 \<and> expired g t ?v then reclaim (b + j) ?v g else g)"
    define e1 where "e1 = (if ?v = 0 \<or> expired g t ?v then Some j else e)"
    have tab: "g_table g1 ! (b + k) = g_table g ! (b + k)" if "k \<in> set is" for k
      using that Cons.prems(3) by (cases "k = j") (simp_all add: g1_def)
    have h: "hit g1 = hit g" by (rule hit_cong) (simp add: g1_def)
    have f: "find (\<lambda>i. hit g t key (g_table g ! (b + i))) is = Some i"
      using Cons.prems(1) False by simp
    then have "i \<in> set is" by (auto simp: find_Some_iff)
    have "\<exists>g2. insert_loop (\<lambda>_. True) key f b t is e1 g1 =
        Inr (Inl (insert_hit True key f (b + i) (g_table g1 ! (b + i)) g2)) \<and>
        probed g1 g2 \<and> g_table g2 ! (b + i) = g_table g1 ! (b + i)" (is "\<exists>g2. ?Q g2")
    proof (rule Cons.IH)
      show "find (\<lambda>i. hit g1 t key (g_table g1 ! (b + i))) is = Some i"
        using f tab by (simp add: h cong: find_cong)
    qed (use Cons.prems in \<open>simp_all add: g1_def\<close>)
    then obtain g2 where g2: "?Q g2" by blast
    have "insert_loop (\<lambda>_. True) key f b t (j # is) e g = insert_loop (\<lambda>_. True) key f b t is e1 g1"
      using Cons.prems False by (auto simp: ghost_load_def g1_def e1_def hit_def)
    moreover have "probed g g2"
      using g2 probed_reclaim Cons.prems by (auto simp: g1_def split: if_splits)
    ultimately show ?thesis
      using g2 unfolding tab [OF \<open>i \<in> set is\<close>] by (intro exI [of _ g2]) (simp only: simp_thms)
  qed
qed simp

lemma insert_loop_miss:
  assumes "find (\<lambda>i. hit g t key (g_table g ! (b + i))) is = None"
    "\<forall>j \<in> set is. b + j < length (g_table g)" "distinct is"
  shows "\<exists>e' g1. insert_loop (\<lambda>_. True) key f b t is e g = Inr (Inr (e', g1)) \<and> probed g g1 \<and>
    (\<forall>j \<in> set is. g_table g1 ! (b + j) \<noteq> 0 \<longrightarrow> \<not> matchKey (g_table g1 ! (b + j)) key) \<and>
    (\<forall>k. k \<notin> (\<lambda>j. b + j) ` set is \<longrightarrow> g_table g1 ! k = g_table g ! k) \<and>
    (case e' of None \<Rightarrow> e = None | Some i \<Rightarrow> e = Some i \<or> i \<in> set is \<and> g_table g1 ! (b + i) = 0)"
  using assms
proof (induction "is" arbitrary: g e)
  case Nil
  then show ?case by (simp split: option.splits)
next
  case (Cons j "is")
  let ?v = "g_table g ! (b + j)"
  define g1 where "g1 = (if ?v \<noteq> 0 \<and> expired g t ?v then reclaim (b + j) ?v g else g)"
  define e1 where "e1 = (if ?v = 0 \<or> expired g t ?v then Some j else e)"
  have j: "j \<notin> set is" "b + j < length (g_table g)" "\<not> hit g t key ?v"
    using Cons.prems by (auto split: if_splits)
  have tab: "g_table g1 ! (b + k) = g_table g ! (b + k)" if "k \<in> set is" for k
    using that j by (cases "k = j") (simp_all add: g1_def)
  have h: "hit g1 = hit g" by (rule hit_cong) (simp add: g1_def)
  have "find (\<lambda>i. hit g1 t key (g_table g1 ! (b + i))) is = None"
    using Cons.prems(1) j tab by (simp add: h cong: find_cong)
  moreover have "\<forall>j \<in> set is. b + j < length (g_table g1)" "distinct is"
    using Cons.prems by (simp_all add: g1_def)
  ultimately obtain e' g2 where
    g2: "insert_loop (\<lambda>_. True) key f b t is e1 g1 = Inr (Inr (e', g2))" "probed g1 g2"
      "\<forall>j \<in> set is. g_table g2 ! (b + j) \<noteq> 0 \<longrightarrow> \<not> matchKey (g_table g2 ! (b + j)) key"
      "\<forall>k. k \<notin> (\<lambda>j. b + j) ` set is \<longrightarrow> g_table g2 ! k = g_table g1 ! k"
      "case e' of None \<Rightarrow> e1 = None | Some i \<Rightarrow> e1 = Some i \<or> i \<in> set is \<and> g_table g2 ! (b + i) = 0"
    using Cons.IH [of g1 e1] by (elim meta_impE) (assumption | elim exE conjE, rule that)+
  have "insert_loop (\<lambda>_. True) key f b t (j # is) e g = insert_loop (\<lambda>_. True) key f b t is e1 g1"
    using j by (auto simp: ghost_load_def g1_def e1_def hit_def)
  moreover have "probed g g2"
    using g2(2) probed_reclaim j by (auto simp: g1_def split: if_splits)
  moreover have gj: "g_table g2 ! (b + j) = g_table g1 ! (b + j)"
    using g2(4) [rule_format, of "b + j"] j(1) by (simp add: image_iff)
  have "g_table g1 ! (b + j) \<noteq> 0 \<longrightarrow> \<not> matchKey (g_table g1 ! (b + j)) key"
    using j by (auto simp: g1_def hit_def)
  then have "\<forall>j \<in> set (j # is). g_table g2 ! (b + j) \<noteq> 0 \<longrightarrow> \<not> matchKey (g_table g2 ! (b + j)) key"
    using g2(3) gj by simp
  moreover have "g_table g2 ! k = g_table g ! k" if "k \<notin> (\<lambda>j. b + j) ` set (j # is)" for k
    using g2(4) [rule_format, of k] that by (simp add: g1_def)
  moreover have "e1 = Some j \<longrightarrow> e = Some j \<or> g_table g1 ! (b + j) = 0"
    using j by (auto simp: g1_def e1_def)
  then have "case e' of None \<Rightarrow> e = None | Some i \<Rightarrow> e = Some i \<or> i \<in> set (j # is) \<and> g_table g2 ! (b + i) = 0"
    using g2(5) gj by (auto simp: e1_def split: option.splits if_splits)
  ultimately show ?case
    using g2(1) by (intro exI [of _ e'] exI [of _ g2] conjI allI impI) (simp_all only:)
qed

text \<open>What a lookup returns for a bucket in which one slot answers.\<close>

lemma ghost_contains_hit:
  assumes "ghost_table_ok g" "find (\<lambda>i. hit g (g_numInserts g) key (g_table g ! (getBucketIdx key (g_numElem g) + i))) [0..<nItemPerBucket] = Some i"
    "slot_freq (g_table g ! (getBucketIdx key (g_numElem g) + i)) = n" "n \<le> MAX_FREQ"
  shows "\<exists>g'. ghost_contains cas key g = Inr (min MAX_FREQ (n + 1), g')"
proof -
  have "\<forall>j \<in> set [0..<nItemPerBucket]. getBucketIdx key (g_numElem g) + j < length (g_table g)"
    using bucket_in_table [OF assms(1)] by auto
  from contains_loop_hit [OF assms(2) this distinct_upt, of cas] show ?thesis
    using assms(3,4) by (auto simp: ghost_contains_def Let_def min_def)
qed

lemma expired_iff:
  assumes "0 \<le> t" "t \<le> MAX_VALUE + 1" "g_fifoSize g < 2 ^ 32"
  shows "expired g t v \<longleftrightarrow> t < uint (getInsertionTime v) \<or> int (g_fifoSize g) < t - uint (getInsertionTime v)"
proof -
  define s where "s = uint (getInsertionTime v)"
  have "int (unat (getInsertionTime v)) < int (2 ^ 28)"
    using getInsertionTime_less [of v] by (simp only: of_nat_less_iff)
  then have s: "0 \<le> s" "s < 2 ^ 28"
    by (simp_all add: s_def)
  have "uint (word_of_int (t - s) :: 64 word) = (t - s) mod 2 ^ 64"
    by (simp only: uint_word_of_int) simp
  also have "\<dots> = (if t < s then t - s + 2 ^ 64 else t - s)"
  proof (cases "t < s")
    case True
    have "(t - s) mod 2 ^ 64 = (t - s + 2 ^ 64) mod 2 ^ 64" by simp
    also have "\<dots> = t - s + 2 ^ 64"
      using True s assms by (intro mod_pos_pos_trivial) (auto simp: MAX_VALUE_def)
    finally show ?thesis using True by simp
  next
    case False
    then show ?thesis
      using s assms by (simp add: MAX_VALUE_def)
  qed
  finally have "uint (word_of_int (t - s) :: 64 word) = (if t < s then t - s + 2 ^ 64 else t - s)" .
  moreover have "uint (of_nat (g_fifoSize g) :: 64 word) = int (g_fifoSize g)"
    using assms(3) by (simp add: uint_nat unat_of_nat)
  ultimately have "expired g t v \<longleftrightarrow> int (g_fifoSize g) < (if t < s then t - s + 2 ^ 64 else t - s)"
    unfolding expired_def Let_def s_def by (simp add: word_less_def)
  then show ?thesis
    using s assms by (auto simp: s_def [symmetric] MAX_VALUE_def)
qed

lemma time_word:
  assumes "0 \<le> t" "t \<le> MAX_VALUE"
  shows "unat (word_of_int t :: 32 word) < 2 ^ 28" "uint (word_of_int t :: 32 word) = t"
proof -
  show u: "uint (word_of_int t :: 32 word) = t"
    using assms by (simp only: uint_word_of_int) (simp add: MAX_VALUE_def)
  have "int (unat (word_of_int t :: 32 word)) < int (2 ^ 28)"
    using u assms by (simp add: MAX_VALUE_def)
  then show "unat (word_of_int t :: 32 word) < 2 ^ 28"
    by (simp only: of_nat_less_iff)
qed

text \<open>An entry that is updated still answers, with the new frequency.\<close>

lemma hit_updated:
  assumes "hit g t key v" "f \<le> MAX_FREQ" "key \<noteq> 0"
  shows "hit g t key (genHashtableVal key (getInsertionTime v) (of_nat f))"
proof -
  have "unat (of_nat f :: 32 word) < 2 ^ 4"
    using assms(2) by (simp add: unat_of_nat MAX_FREQ_def)
  from gen_eq_0 [OF getInsertionTime_less this] show ?thesis
    using assms by (simp add: hit_def matchKey_gen expired_def getInsertionTime_gen [OF getInsertionTime_less])
qed

text \<open>A new entry answers at the next time.\<close>

lemma hit_new:
  assumes "0 \<le> t" "t \<le> MAX_VALUE" "f \<le> MAX_FREQ" "key \<noteq> 0" "0 < g_fifoSize g" "g_fifoSize g < 2 ^ 32"
  shows "hit g (t + 1) key (genHashtableVal key (word_of_int t) (of_nat f))"
proof -
  note t = time_word [OF assms(1,2)]
  have "unat (of_nat f :: 32 word) < 2 ^ 4"
    using assms(3) by (simp add: unat_of_nat MAX_FREQ_def)
  from gen_eq_0 [OF t(1) this] show ?thesis
    using assms t by (simp add: hit_def matchKey_gen expired_iff getInsertionTime_gen [OF t(1)])
qed

lemma roundtrip_hit:
  assumes "ghost_table_ok g" "key \<noteq> 0" "insert_time g = (t, g1)" "b = getBucketIdx key (g_numElem g1)"
    "find (\<lambda>i. hit g1 t key (g_table g1 ! (b + i))) [0..<nItemPerBucket] = Some i" "slot_freq (g_table g1 ! (b + i)) = n"
    "f \<le> MAX_FREQ"
  shows "\<exists>g' g''. ghost_insert (\<lambda>_. True) True key f g = Inr g' \<and>
    ghost_contains cas key g' = Inr (min MAX_FREQ (1 + min MAX_FREQ (n + f + 1)), g'')"
proof -
  note t1 = insert_time_ok [OF assms(1,3)]
  have bd: "\<forall>j \<in> set [0..<nItemPerBucket]. b + j < length (g_table g1)"
    using bucket_in_table [OF t1(1)] assms(4) by auto
  obtain g2 where g2: "insert_loop (\<lambda>_. True) key (f + 1) b t [0..<nItemPerBucket] None g1 =
      Inr (Inl (insert_hit True key (f + 1) (b + i) (g_table g1 ! (b + i)) g2))"
    "probed g1 g2" "g_table g2 ! (b + i) = g_table g1 ! (b + i)"
    using insert_loop_hit [OF assms(5) bd distinct_upt] by blast
  have i: "i < nItemPerBucket" "hit g1 t key (g_table g1 ! (b + i))" "\<forall>j<i. \<not> hit g1 t key (g_table g1 ! (b + j))"
    using assms(5) by (auto simp: find_upt_iff)
  have "n \<le> MAX_FREQ"
    using t1(1) bd i(1) assms(6) nth_mem [of "b + i" "g_table g1"] by (auto simp: ghost_table_ok_def slot_freqs_ok_def)
  define m where "m = min (n + f + 1) MAX_FREQ"
  define nv where "nv = (if n = MAX_FREQ then g_table g1 ! (b + i)
     else genHashtableVal key (getInsertionTime (g_table g1 ! (b + i))) (of_nat m))"
  have m: "m \<le> MAX_FREQ" "n = MAX_FREQ \<Longrightarrow> m = n"
    by (simp_all add: m_def)
  have nv: "hit g1 t key nv" "slot_freq nv = m"
    using hit_updated [OF i(2) m(1) assms(2)] i(2) assms(6) m by (auto simp: nv_def)
  define g3 where "g3 = insert_hit True key (f + 1) (b + i) (g_table g1 ! (b + i)) g2"
  have "(g_table g2)[b + i := g_table g1 ! (b + i)] = g_table g2"
    using g2(3) by (metis list_update_id)
  then have g3: "g_table g3 = (g_table g2)[b + i := nv]" "g_fifoSize g3 = g_fifoSize g1" "g_numElem g3 = g_numElem g1"
    "g_numInserts g3 = t"
    using g2(2) assms(6) t1(2) by (simp_all add: g3_def insert_hit_def nv_def m_def Let_def probed_def)
  have ins: "ghost_insert (\<lambda>_. True) True key f g = Inr g3"
    using g2(1) by (simp add: ghost_insert_def assms(3,4) Let_def g3_def)
  then have ok3: "ghost_table_ok g3"
    using ghost_insert_ok [OF assms(1,7), of "\<lambda>_. True" True key] by auto
  have h: "hit g3 = hit g1" by (rule hit_cong) (rule g3)
  have len: "b + i < length (g_table g2)"
    using bd i(1) g2(2) by (simp add: probed_def)
  have "\<not> hit g1 t key (g_table g2 ! (b + j))" if "j < i" for j
    using i(3) that g2(2) not_hit_0 unfolding probed_def by metis
  then have "find (\<lambda>j. hit g3 (g_numInserts g3) key (g_table g3 ! (b + j))) [0..<nItemPerBucket] = Some i"
    using nv i(1) len unfolding find_upt_iff h g3 by simp
  then show ?thesis
    using ghost_contains_hit [OF ok3, of key i m cas] ins nv len m(1) g3 assms(4) by (simp add: m_def min.commute add.commute)
qed

lemma insert_put_slot:
  assumes "ghost_table_ok g" "b = getBucketIdx key (g_numElem g)"
    "case e of None \<Rightarrow> True | Some i \<Rightarrow> i < nItemPerBucket \<and> g_table g ! (b + i) = 0"
  shows "\<exists>i g'. i < nItemPerBucket \<and> insert_put True key f b e g = Inr g' \<and> g_numInserts g' = g_numInserts g + 1 \<and>
    g_fifoSize g' = g_fifoSize g \<and> g_numElem g' = g_numElem g \<and>
    g_table g' = (g_table g)[b + i := genHashtableVal key (word_of_int (g_numInserts g)) (of_nat f)]"
proof (cases e)
  case None
  define m where "m = unat key mod g_numElem g"
  have m: "m < length (g_table g)" "b + m mod 8 = m"
    using assms(1,2) by (simp_all add: m_def ghost_table_ok_def loadFactorInv_def getBucketIdx_eq)
  then show ?thesis
    using None by (intro exI [of _ "m mod 8"])
      (simp add: insert_put_def Let_def m_def [symmetric] ghost_load_def dist_enter_def dist_leave_def nItemPerBucket_def)
next
  case (Some i)
  then show ?thesis
    using bucket_in_table [OF assms(1), of i key] assms(2,3)
    by (intro exI [of _ i]) (simp add: insert_put_def Let_def ghost_load_def dist_enter_def)
qed

lemma roundtrip_miss:
  assumes "ghost_table_ok g" "key \<noteq> 0" "insert_time g = (t, g1)" "b = getBucketIdx key (g_numElem g1)"
    "find (\<lambda>i. hit g1 t key (g_table g1 ! (b + i))) [0..<nItemPerBucket] = None" "f \<le> MAX_FREQ"
  shows "\<exists>g' g''. ghost_insert (\<lambda>_. True) True key f g = Inr g' \<and> ghost_contains cas key g' = Inr (min MAX_FREQ (1 + f), g'')"
proof -
  note t1 = insert_time_ok [OF assms(1,3)]
  have bd: "\<forall>j \<in> set [0..<nItemPerBucket]. b + j < length (g_table g1)"
    using bucket_in_table [OF t1(1)] assms(4) by auto
  obtain e g2 where g2: "insert_loop (\<lambda>_. True) key (f + 1) b t [0..<nItemPerBucket] None g1 = Inr (Inr (e, g2))" "probed g1 g2"
      "\<forall>j \<in> set [0..<nItemPerBucket]. g_table g2 ! (b + j) \<noteq> 0 \<longrightarrow> \<not> matchKey (g_table g2 ! (b + j)) key"
      "case e of None \<Rightarrow> True | Some i \<Rightarrow> i < nItemPerBucket \<and> g_table g2 ! (b + i) = 0"
    using insert_loop_miss [OF assms(5) bd distinct_upt, of "f + 1" None]
    by (elim exE conjE) (rule that, auto split: option.splits)
  have "ghost_keeps g1 g2"
    using insert_loop_keeps [OF bd, of "\<lambda>_. True" key "f + 1" t None] g2(1) by (simp add: insert_state_def)
  then have ok2: "ghost_table_ok g2"
    using t1(1) by (rule ghost_keeps_ok)
  have p2: "g_numElem g2 = g_numElem g1" "g_numInserts g2 = t" "g_fifoSize g2 = g_fifoSize g1" "length (g_table g2) = length (g_table g1)"
    using g2(2) t1(2) by (simp_all add: probed_def)
  define nv where "nv = genHashtableVal key (word_of_int t) (of_nat f)"
  obtain i g3 where g3: "i < nItemPerBucket" "insert_put True key f b e g2 = Inr g3" "g_numInserts g3 = t + 1"
    "g_fifoSize g3 = g_fifoSize g1" "g_numElem g3 = g_numElem g1" "g_table g3 = (g_table g2)[b + i := nv]"
    using insert_put_slot [OF ok2, of b key e f] g2(4) assms(4) p2 unfolding nv_def by auto
  have ins: "ghost_insert (\<lambda>_. True) True key f g = Inr g3"
    using g2(1) g3(2) by (simp add: ghost_insert_def assms(3,4) Let_def)
  then have ok3: "ghost_table_ok g3"
    using ghost_insert_ok [OF assms(1,6), of "\<lambda>_. True" True key] by auto
  have len: "b + i < length (g_table g2)"
    using bd g3(1) p2 by simp
  have h: "hit g3 = hit g1" by (rule hit_cong) (rule g3)
  have nv: "hit g1 (t + 1) key nv" "slot_freq nv = f"
    using hit_new [OF t1(3,4) assms(6,2), of g1] slot_freq_new [OF t1(3,4) assms(6)] t1(1)
    by (simp_all add: nv_def ghost_table_ok_def)
  have "\<not> hit g1 (t + 1) key (g_table g3 ! (b + j))" if "j < i" for j
    using g2(3) [rule_format, of j] that g3(1,6) by (auto simp: hit_def)
  then have "find (\<lambda>j. hit g3 (g_numInserts g3) key (g_table g3 ! (b + j))) [0..<nItemPerBucket] = Some i"
    using nv g3 len unfolding find_upt_iff h by simp
  then show ?thesis
    using ghost_contains_hit [OF ok3, of key i f cas] ins nv len assms(4,6) g3 by (simp add: add.commute)
qed

section \<open>The contract of the ghost table\<close>

lemma ghost_table_ok_init:
  assumes "unat fifoSize < 2 ^ 32 - 8"
  shows "ghost_table_ok (MerlinGhost fifoSize dist)"
proof -
  have "unat (drop_bit 3 fifoSize) = unat fifoSize div 8"
    by (simp add: drop_bit_eq_div unat_div)
  moreover have d: "unat fifoSize div 8 < 2 ^ 29 - 1"
    using assms by (simp add: less_mult_imp_div_less)
  define w where "w = drop_bit 3 fifoSize + 1"
  ultimately have w: "unat w = unat fifoSize div 8 + 1"
    using d by (simp add: w_def unat_plus_if_size word_size)
  then have "unat (push_bit 3 w) = (unat fifoSize div 8 + 1) * 8"
    using d by (simp add: push_bit_eq_mult unat_word_ariths(2))
  then have "round_fifoSize fifoSize = (unat fifoSize div 8 + 1) * 8"
    by (simp add: round_fifoSize_def w_def)
  then show ?thesis
    using d by (simp add: ghost_table_ok_def MerlinGhost_def Let_def loadFactorInv_def slot_freqs_ok_def MAX_VALUE_def)
qed

text \<open>The size is rounded up in 32 bits: near the end of their range it wraps, and the table has no slot.\<close>

lemma MerlinGhost_wraps: "g_numElem (MerlinGhost 0xFFFFFFF8 dist) = 0"
  by code_simp

text \<open>The hash zero, evicted with frequency zero at time zero, is stored as an empty slot.\<close>

lemma ghost_loses_zero:
  "case ghost_insert (\<lambda>_. True) True 0 0 (MerlinGhost 8 (\<lambda>_. 0)) of
     Inl e \<Rightarrow> False
   | Inr g \<Rightarrow> (case ghost_contains (\<lambda>_. True) 0 g of Inl e \<Rightarrow> False | Inr (r, _) \<Rightarrow> r = 0)"
  by code_simp

text \<open>
  C1: the ghost table of a cache gives back what was put in. Whatever frequency an item had when it was evicted,
  a lookup of its hash after the insertion finds it, and returns one more than the frequency the entry then has: that of the
  eviction when the hash was not in the table, one more than the sum with the frequency it had otherwise, and never
  more than \<open>MAX_FREQ\<close>. The packing of the three fields into a word loses none of them. (The hash zero is
  excluded: with the time zero and the frequency zero its entry is the word that means an empty slot.)
\<close>

theorem ghost_insert_contains:
  assumes "ghost_table_ok g" "freq \<le> MAX_FREQ" "key \<noteq> 0"
  shows "\<exists>g' g''. ghost_insert (\<lambda>_. True) True key freq g = Inr g' \<and>
    ghost_contains cas key g' =
      Inr (min MAX_FREQ (1 + (case live_freq g (fst (insert_time g)) key of
                                None \<Rightarrow> freq
                              | Some n \<Rightarrow> min MAX_FREQ (n + freq + 1))), g'')"
proof -
  obtain t g1 where t: "insert_time g = (t, g1)" by (cases "insert_time g")
  have g1: "g_table g1 = g_table g" "g_numElem g1 = g_numElem g" "hit g1 = hit g"
    using t by (auto simp: insert_time_def intro!: hit_cong split: if_splits)
  define b where "b = getBucketIdx key (g_numElem g1)"
  show ?thesis
  proof (cases "find (\<lambda>i. hit g1 t key (g_table g1 ! (b + i))) [0..<nItemPerBucket]")
    case None
    then show ?thesis
      using roundtrip_miss [OF assms(1,3) t b_def None assms(2)] t g1
      by (simp add: live_freq_def b_def Let_def)
  next
    case (Some i)
    then show ?thesis
      using roundtrip_hit [OF assms(1,3) t b_def Some refl assms(2)] t g1
      by (simp add: live_freq_def b_def Let_def)
  qed
qed

theorem ghost_insert_contains_witness:
  "let g = MerlinGhost 8 (\<lambda>_. 0) in
   ghost_table_ok g \<and> (\<exists>g' g''. ghost_insert (\<lambda>_. True) True 42 3 g = Inr g' \<and> ghost_contains (\<lambda>_. False) 42 g' = Inr (4, g''))"
proof -
  have ok: "ghost_table_ok (MerlinGhost 8 (\<lambda>_. 0))"
    by (rule ghost_table_ok_init) simp
  have "live_freq (MerlinGhost 8 (\<lambda>_. 0)) (fst (insert_time (MerlinGhost 8 (\<lambda>_. 0)))) 42 = None"
    by code_simp
  then show ?thesis
    using ok ghost_insert_contains [OF ok, of 3 42 "\<lambda>_. False"] by (simp add: Let_def MAX_FREQ_def)
qed

text \<open>
  C2: whichever of the compare-and-exchanges succeed, lookups and insertions stay inside the table, keep its
  frequencies at most \<open>MAX_FREQ\<close> and the logical time within 28 bits, and change the two counters by exactly the change in
  the number of slots with a frequency of at least one and of at least two.
\<close>

theorem ghost_counters_correct:
  assumes "ghost_table_ok g" "freq \<le> MAX_FREQ"
  shows "(\<exists>r g'. ghost_contains cas key g = Inr (r, g') \<and> ghost_table_ok g' \<and>
      (\<forall>k \<in> {1, 2}. g_dist g' k - g_dist g k = ghost_count k g' - ghost_count k g)) \<and>
    (\<exists>g'. ghost_insert cas cas' key freq g = Inr g' \<and> ghost_table_ok g' \<and>
      (\<forall>k \<in> {1, 2}. g_dist g' k - g_dist g k = ghost_count k g' - ghost_count k g))"
proof
  show "\<exists>r g'. ghost_contains cas key g = Inr (r, g') \<and> ghost_table_ok g' \<and>
      (\<forall>k \<in> {1, 2}. g_dist g' k - g_dist g k = ghost_count k g' - ghost_count k g)"
    using ghost_contains_keeps [OF assms(1), of cas key] by (fastforce simp: ghost_keeps_def ghost_gap_def)
  show "\<exists>g'. ghost_insert cas cas' key freq g = Inr g' \<and> ghost_table_ok g' \<and>
      (\<forall>k \<in> {1, 2}. g_dist g' k - g_dist g k = ghost_count k g' - ghost_count k g)"
    using ghost_insert_ok [OF assms, of cas cas' key] by (fastforce simp: ghost_gap_def)
qed

theorem ghost_counters_correct_witness:
  "ghost_table_ok (MerlinGhost 100 (\<lambda>_. 0)) \<and>
   (\<exists>g'. ghost_insert (\<lambda>_. False) True 7 5 (MerlinGhost 100 (\<lambda>_. 0)) = Inr g' \<and> ghost_table_ok g')"
proof -
  have ok: "ghost_table_ok (MerlinGhost 100 (\<lambda>_. 0))"
    by (rule ghost_table_ok_init) simp
  then show ?thesis
    using ghost_counters_correct [OF ok, of 5 "\<lambda>_. False" 7 True] by (auto simp: MAX_FREQ_def)
qed

section \<open>The sketch\<close>

record merlin_sketch =
  s_numElem :: nat
  s_fifoSize :: nat
  s_numInserts :: int
  s_table :: "32 word list"

definition MerlinSketch :: "32 word \<Rightarrow> merlin_sketch" where
  "MerlinSketch fifoSize =
     (let size = round_fifoSize fifoSize; numElem = size * loadFactorInv
      in \<lparr>s_numElem = numElem, s_fifoSize = size, s_numInserts = 0, s_table = replicate numElem 0\<rparr>)"

definition sketch_setFIFOSize :: "32 word \<Rightarrow> merlin_sketch \<Rightarrow> merlin_sketch" where
  "sketch_setFIFOSize fifoSize s =
     (let size = round_fifoSize fifoSize in s\<lparr>s_fifoSize := size, s_numElem := size * loadFactorInv\<rparr>)"

definition sketch_initHashtable :: "merlin_sketch \<Rightarrow> merlin_sketch" where
  "sketch_initHashtable s = s\<lparr>s_table := replicate (s_numElem s) 0\<rparr>"

definition sketch_getBucketIdx :: "32 word \<Rightarrow> merlin_sketch \<Rightarrow> nat" where
  "sketch_getBucketIdx key s = unat key mod s_numElem s"

definition getEstimate :: "32 word \<Rightarrow> merlin_sketch \<Rightarrow> 64 word result" where
  "getEstimate key s =
     (let bucketIdx = sketch_getBucketIdx key s
      in if bucketIdx < length (s_table s) then Inr (ucast (s_table s ! bucketIdx)) else Inl OutOfBounds)"

definition halve_slot :: "nat \<Rightarrow> merlin_sketch \<Rightarrow> merlin_sketch result" where
  "halve_slot cleanid s =
     (if cleanid < length (s_table s)
      then let val = sint (s_table s ! cleanid); val = val sdiv 2
           in Inr (s\<lparr>s_table := (s_table s)[cleanid := word_of_int val]\<rparr>)
      else Inl OutOfBounds)"

definition estimate :: "32 word \<Rightarrow> merlin_sketch \<Rightarrow> merlin_sketch result" where
  "estimate key s =
     (let bucketIdx = sketch_getBucketIdx key s
      in if bucketIdx < length (s_table s)
         then let s = s\<lparr>s_table := (s_table s)[bucketIdx := s_table s ! bucketIdx + 1]\<rparr>;
                  id = s_numInserts s;
                  s = s\<lparr>s_numInserts := id + 1\<rparr>
              in bindE (if id AND 0x1f = 0x1f then halve_slot (nat (drop_bit 5 id) mod s_numElem s) s else Inr s) (\<lambda>s.
                   Inr (if id > MAX_VALUE then s\<lparr>s_numInserts := 0\<rparr> else s))
         else Inl OutOfBounds)"

definition sketch_ok :: "merlin_sketch \<Rightarrow> bool" where
  "sketch_ok s \<longleftrightarrow> length (s_table s) = s_numElem s \<and> 0 < s_numElem s \<and> 0 \<le> s_numInserts s"

fun estimates :: "32 word list \<Rightarrow> merlin_sketch \<Rightarrow> merlin_sketch result" where
  "estimates [] s = Inr s"
| "estimates (k # ks) s = bindE (estimate k s) (estimates ks)"

text \<open>The number of touches of a slot.\<close>

definition touches :: "nat \<Rightarrow> nat \<Rightarrow> 32 word list \<Rightarrow> nat" where
  "touches n j ks = length (filter (\<lambda>k. unat k mod n = j) ks)"

lemma unat_halve: "unat (word_of_int (sint v sdiv 2) :: 32 word) = unat v div 2" if "unat v < 2 ^ 31" for v :: "32 word"
proof -
  have v: "uint v = int (unat v)" by simp
  have "sint v = int (unat v)"
    using that unfolding sint_uint v by (intro signed_take_bit_int_eq_self) (simp_all del: of_nat_unat)
  then have "sint v sdiv 2 = int (unat v div 2)"
    by (simp add: signed_divide_int_def zdiv_int sgn_if del: of_nat_unat)
  then have "word_of_int (sint v sdiv 2) = (of_nat (unat v div 2) :: 32 word)"
    by (metis of_int_of_nat_eq)
  then show ?thesis
    using that by (simp add: unat_of_nat)
qed

text \<open>
  One call counts the key's slot up, and halves one slot at every 32nd call, in turn.
\<close>

lemma estimate_correct:
  assumes "sketch_ok s" "\<forall>v \<in> set (s_table s). unat v < 2 ^ 31 - 1"
  shows "\<exists>s'. estimate key s = Inr s' \<and> sketch_ok s' \<and> s_numElem s' = s_numElem s \<and>
    (\<forall>j < s_numElem s. unat (s_table s' ! j) =
       (let c = unat (s_table s ! j) + of_bool (unat key mod s_numElem s = j)
        in if s_numInserts s mod 32 = 31 \<and> j = nat (s_numInserts s div 32) mod s_numElem s then c div 2 else c))"
proof -
  let ?n = "s_numElem s" and ?id = "s_numInserts s"
  define b where "b = unat key mod ?n"
  define T where "T = (s_table s)[b := s_table s ! b + 1]"
  have len: "length (s_table s) = ?n" "0 < ?n" "b < ?n" "0 \<le> ?id"
    using assms(1) by (simp_all add: sketch_ok_def b_def)
  have mask: "?id AND 0x1f = 0x1f \<longleftrightarrow> ?id mod 32 = 31" "drop_bit 5 ?id = ?id div 32"
    using take_bit_eq_mask [of 5 ?id] by (simp_all add: take_bit_eq_mod mask_eq_exp_minus_1 drop_bit_eq_div)
  have lt: "unat (s_table s ! j) < 2 ^ 31 - 1" if "j < ?n" for j
    using assms(2) len(1) that by simp
  have T: "length T = ?n" "unat (T ! j) = unat (s_table s ! j) + of_bool (b = j)" "unat (T ! j) < 2 ^ 31" if "j < ?n" for j
    using lt [OF that] that len by (auto simp: T_def nth_list_update unat_plus_if_size word_size)
  define c where "c = nat (?id div 32) mod ?n"
  define T' where "T' = (if ?id mod 32 = 31 then T[c := word_of_int (sint (T ! c) sdiv 2)] else T)"
  have "c < ?n" using len by (simp add: c_def)
  then have e: "estimate key s = Inr (s\<lparr>s_table := T', s_numInserts := (if ?id > MAX_VALUE then 0 else ?id + 1)\<rparr>)"
    using len T(1) by (simp add: estimate_def sketch_getBucketIdx_def Let_def b_def [symmetric] T_def [symmetric]
        mask halve_slot_def c_def [symmetric] T'_def)
  have "unat (T' ! j) = (let k = unat (s_table s ! j) + of_bool (b = j) in if ?id mod 32 = 31 \<and> j = c then k div 2 else k)"
    if "j < ?n" for j
    using T [OF that] unat_halve [OF T(3) [OF that]] that by (auto simp add: T'_def nth_list_update Let_def)
  then show ?thesis
    unfolding e using len T(1) by (auto simp: sketch_ok_def T'_def b_def c_def)
qed

text \<open>
  An estimate never exceeds the number of touches of the key's slot, so what the sketch reports for a key is at
  most the touches of the keys that share its slot.
\<close>

lemma estimates_le:
  assumes "sketch_ok s" "\<forall>j < s_numElem s. unat (s_table s ! j) \<le> c j" "\<forall>j < s_numElem s. c j + length ks < 2 ^ 31 - 1"
  shows "\<exists>s'. estimates ks s = Inr s' \<and> sketch_ok s' \<and> s_numElem s' = s_numElem s \<and>
    (\<forall>j < s_numElem s. unat (s_table s' ! j) \<le> c j + touches (s_numElem s) j ks)"
  using assms
proof (induction ks arbitrary: s c)
  case (Cons k ks)
  let ?n = "s_numElem s"
  define c' where "c' = (\<lambda>j. c j + of_bool (unat k mod ?n = j))"
  have "\<forall>v \<in> set (s_table s). unat v < 2 ^ 31 - 1"
    using Cons.prems by (fastforce simp: in_set_conv_nth sketch_ok_def)
  from estimate_correct [OF Cons.prems(1) this, of k] obtain s1 where
    s0: "estimate k s = Inr s1" "sketch_ok s1" "s_numElem s1 = ?n"
      "\<forall>j < ?n. unat (s_table s1 ! j) =
       (let c = unat (s_table s ! j) + of_bool (unat k mod ?n = j)
        in if s_numInserts s mod 32 = 31 \<and> j = nat (s_numInserts s div 32) mod ?n then c div 2 else c)"
    by blast
  have "unat (s_table s1 ! j) \<le> unat (s_table s ! j) + of_bool (unat k mod ?n = j)" if "j < ?n" for j
    using s0(4) [rule_format, OF that] by (simp add: Let_def)
  note s1 = s0(1-3) this
  have "\<exists>s'. estimates ks s1 = Inr s' \<and> sketch_ok s' \<and> s_numElem s' = s_numElem s1 \<and>
      (\<forall>j < s_numElem s1. unat (s_table s' ! j) \<le> c' j + touches (s_numElem s1) j ks)"
    using s1 Cons.prems by (intro Cons.IH) (fastforce simp: c'_def)+
  moreover have "c' j + touches ?n j ks = c j + touches ?n j (k # ks)" for j
    by (simp add: c'_def touches_def)
  ultimately show ?case
    using s1(1,3) by simp
qed (simp add: touches_def)

lemma getEstimate_le_touches:
  assumes "unat fifoSize < 2 ^ 32 - 8" "length ks < 2 ^ 31 - 1"
  shows "\<exists>s v. estimates ks (MerlinSketch fifoSize) = Inr s \<and> getEstimate key s = Inr v \<and>
    unat v \<le> touches (s_numElem s) (unat key mod s_numElem s) ks"
proof -
  let ?s = "MerlinSketch fifoSize"
  have "ghost_table_ok (MerlinGhost fifoSize (\<lambda>_. 0))"
    using assms(1) by (rule ghost_table_ok_init)
  then have ok: "sketch_ok ?s"
    by (simp add: ghost_table_ok_def sketch_ok_def MerlinGhost_def MerlinSketch_def Let_def loadFactorInv_def)
  have z: "\<forall>j < s_numElem ?s. unat (s_table ?s ! j) \<le> 0"
    by (simp add: MerlinSketch_def Let_def)
  obtain s where s: "estimates ks ?s = Inr s" "sketch_ok s" "s_numElem s = s_numElem ?s"
    "\<forall>j < s_numElem ?s. unat (s_table s ! j) \<le> touches (s_numElem ?s) j ks"
    using estimates_le [OF ok z, of ks] assms(2) by auto
  have "unat key mod s_numElem s < s_numElem s"
    using s(2) by (simp add: sketch_ok_def)
  then show ?thesis
    using s by (auto simp: getEstimate_def sketch_getBucketIdx_def sketch_ok_def Let_def unsigned_ucast_eq
        take_bit_nat_eq_self_iff intro!: order_trans [OF _ s(4) [rule_format]])
qed

end
