(* ===== verification/Merlin_FIFO.thy ===== *)
theory Merlin_FIFO
  imports Sim_Prelude "HOL-Library.Word"
begin

text \<open>
  The intrusive list of Merlin's queues in CacheLib (\<open>datastruct/MerlinFIFO.h\<close>): nodes are linked at the head and
  removed at the tail, with the links in a hook inside the node. The hooks of all nodes are one store, so that
  a link into another list is visible. Pointer compression is lossless and left out; \<open>XDCHECK\<close> is checked in
  debug builds only, which is an argument.
\<close>

section \<open>Nodes and lists\<close>

type_synonym fnode = nat

record fifo_hook =
  hk_next :: "fnode option"
  hk_prev :: "fnode option"

type_synonym hooks = "fnode \<Rightarrow> fifo_hook"

record merlin_fifo =
  q_head :: "fnode option"
  q_tail :: "fnode option"
  head_insert_size :: "64 word"
  tail_remove_size :: "64 word"
  q_size :: "64 word"

definition MerlinFIFO :: merlin_fifo where
  "MerlinFIFO = \<lparr>q_head = None, q_tail = None, head_insert_size = 0, tail_remove_size = 0, q_size = 0\<rparr>"

definition fifo_size :: "merlin_fifo \<Rightarrow> 64 word" where
  "fifo_size q = head_insert_size q - tail_remove_size q"

definition getNext :: "fnode \<Rightarrow> hooks \<Rightarrow> fnode option" where
  "getNext n h = hk_next (h n)"

definition getPrev :: "fnode \<Rightarrow> hooks \<Rightarrow> fnode option" where
  "getPrev n h = hk_prev (h n)"

definition setNext :: "fnode \<Rightarrow> fnode option \<Rightarrow> hooks \<Rightarrow> hooks" where
  "setNext n p h = h(n := (h n)\<lparr>hk_next := p\<rparr>)"

definition setPrev :: "fnode \<Rightarrow> fnode option \<Rightarrow> hooks \<Rightarrow> hooks" where
  "setPrev n p h = h(n := (h n)\<lparr>hk_prev := p\<rparr>)"

definition setNextFrom :: "fnode \<Rightarrow> fnode \<Rightarrow> hooks \<Rightarrow> hooks" where
  "setNextFrom n other h = setNext n (getNext other h) h"

definition setPrevFrom :: "fnode \<Rightarrow> fnode \<Rightarrow> hooks \<Rightarrow> hooks" where
  "setPrevFrom n other h = setPrev n (getPrev other h) h"

section \<open>Operations\<close>

text \<open>
  The loop that installs the first tail retries a weak exchange that fails spuriously and stops when another
  thread has installed a tail, so that it sets the tail when there is none.
\<close>

definition linkAtHead :: "bool \<Rightarrow> fnode \<Rightarrow> hooks \<times> merlin_fifo \<Rightarrow> (hooks \<times> merlin_fifo) result" where
  "linkAtHead debug n = (\<lambda>(h, q).
     let h = setPrev n None h;
         oldHead = q_head q;
         h = setNext n oldHead h;
         q = q\<lparr>q_head := Some n\<rparr>
     in bindE
          (case oldHead of
             None \<Rightarrow>
               if debug \<and> q_tail q \<noteq> None then Inl AssertFail
               else Inr (h, if q_tail q = None then q\<lparr>q_tail := Some n\<rparr> else q)
           | Some old \<Rightarrow> Inr (setPrev old (Some n) h, q))
          (\<lambda>(h, q). Inr (h, q\<lparr>head_insert_size := head_insert_size q + 1\<rparr>)))"

text \<open>
  \<open>removeTail\<close> takes the tail with one exchange, without the lock of the head, and then repairs the head and
  the hook of the node; other threads may link nodes in between.
\<close>

definition removeTail_take :: "hooks \<times> merlin_fifo \<Rightarrow> fnode option \<times> hooks \<times> merlin_fifo" where
  "removeTail_take = (\<lambda>(h, q).
     case q_tail q of
       None \<Rightarrow> (None, h, q)
     | Some tail \<Rightarrow> (Some tail, h, q\<lparr>q_tail := getPrev tail h\<rparr>))"

definition removeTail_finish :: "fnode \<Rightarrow> hooks \<times> merlin_fifo \<Rightarrow> hooks \<times> merlin_fifo" where
  "removeTail_finish tail = (\<lambda>(h, q).
     let prev = getPrev tail h;
         q = (if prev = None \<and> q_head q = Some tail then q\<lparr>q_head := None\<rparr> else q);
         h = setPrev tail None (setNext tail None h)
     in (h, q\<lparr>tail_remove_size := tail_remove_size q + 1\<rparr>))"

definition removeTail :: "hooks \<times> merlin_fifo \<Rightarrow> fnode option \<times> hooks \<times> merlin_fifo" where
  "removeTail s =
     (case removeTail_take s of
        (None, s) \<Rightarrow> (None, s)
      | (Some tail, s) \<Rightarrow> (Some tail, removeTail_finish tail s))"

definition fifo_unlink :: "bool \<Rightarrow> fnode \<Rightarrow> hooks \<times> merlin_fifo \<Rightarrow> (hooks \<times> merlin_fifo) result" where
  "fifo_unlink debug n = (\<lambda>(h, q).
     if debug \<and> \<not> q_size q > 0 then Inl AssertFail
     else
       let next = getNext n h;
           q = (if q_head q = Some n then q\<lparr>q_head := next\<rparr> else q);
           h = (case next of None \<Rightarrow> h | Some x \<Rightarrow> setPrevFrom x n h);
           prev = getPrev n h;
           q = (if q_tail q = Some n then q\<lparr>q_tail := prev\<rparr> else q);
           h = (case prev of None \<Rightarrow> h | Some x \<Rightarrow> setNextFrom x n h)
       in Inr (h, q\<lparr>tail_remove_size := tail_remove_size q + 1\<rparr>))"

definition fifo_remove :: "bool \<Rightarrow> fnode \<Rightarrow> hooks \<times> merlin_fifo \<Rightarrow> (hooks \<times> merlin_fifo) result" where
  "fifo_remove debug n = (\<lambda>(h, q).
     let prev = getPrev n h; next = getNext n h
     in if prev = None \<and> next = None then Inr (h, q)
        else bindE (fifo_unlink debug n (h, q)) (\<lambda>(h, q). Inr (setPrev n None (setNext n None h), q)))"

definition fifo_replace :: "fnode \<Rightarrow> fnode \<Rightarrow> hooks \<times> merlin_fifo \<Rightarrow> hooks \<times> merlin_fifo" where
  "fifo_replace oldNode newNode = (\<lambda>(h, q).
     let q = (if q_head q = Some oldNode then q\<lparr>q_head := Some newNode\<rparr> else q);
         q = (if q_tail q = Some oldNode then q\<lparr>q_tail := Some newNode\<rparr> else q);
         prev = getPrev oldNode h;
         next = getNext oldNode h;
         h = (case prev of None \<Rightarrow> h | Some x \<Rightarrow> setNext x (Some newNode) h);
         h = (case next of None \<Rightarrow> h | Some x \<Rightarrow> setPrev x (Some newNode) h);
         h = setNext newNode next (setPrev newNode prev h)
     in (setNext oldNode None (setPrev oldNode None h), q))"

text \<open>The saved state, and a list restored from it.\<close>

record fifo_object =
  compressedHead :: "fnode option"
  compressedTail :: "fnode option"
  object_size :: "64 word"

definition fifo_saveState :: "merlin_fifo \<Rightarrow> fifo_object" where
  "fifo_saveState q = \<lparr>compressedHead = q_head q, compressedTail = q_tail q, object_size = q_size q\<rparr>"

definition fifo_restore :: "fifo_object \<Rightarrow> merlin_fifo" where
  "fifo_restore object =
     \<lparr>q_head = compressedHead object, q_tail = compressedTail object, head_insert_size = 0, tail_remove_size = 0,
      q_size = object_size object\<rparr>"

text \<open>Iteration in either direction.\<close>

datatype direction = FROM_HEAD | FROM_TAIL

definition goForward :: "direction \<Rightarrow> fnode \<Rightarrow> hooks \<Rightarrow> fnode option" where
  "goForward dir curr_node h = (if dir = FROM_TAIL then getPrev curr_node h else getNext curr_node h)"

definition goBackward :: "direction \<Rightarrow> fnode \<Rightarrow> hooks \<Rightarrow> fnode option" where
  "goBackward dir curr_node h = (if dir = FROM_TAIL then getNext curr_node h else getPrev curr_node h)"

definition resetToBegin :: "direction \<Rightarrow> merlin_fifo \<Rightarrow> fnode option" where
  "resetToBegin dir q = (if dir = FROM_HEAD then q_head q else q_tail q)"

definition iterator_inc :: "bool \<Rightarrow> direction \<Rightarrow> hooks \<Rightarrow> fnode option \<Rightarrow> fnode option result" where
  "iterator_inc debug dir h it =
     (case it of None \<Rightarrow> if debug then Inl AssertFail else Inr None | Some n \<Rightarrow> Inr (goForward dir n h))"

definition iterator_dec :: "bool \<Rightarrow> direction \<Rightarrow> hooks \<Rightarrow> fnode option \<Rightarrow> fnode option result" where
  "iterator_dec debug dir h it =
     (case it of None \<Rightarrow> if debug then Inl AssertFail else Inr None | Some n \<Rightarrow> Inr (goBackward dir n h))"

section \<open>The list a state stands for\<close>

fun fdll :: "hooks \<Rightarrow> fnode option \<Rightarrow> fnode list \<Rightarrow> bool" where
  "fdll h p [] \<longleftrightarrow> True"
| "fdll h p (x # xs) \<longleftrightarrow> getPrev x h = p \<and> (xs \<noteq> [] \<longrightarrow> getNext x h = Some (hd xs)) \<and> fdll h (Some x) xs"

text \<open>
  The \<open>next\<close> of the tail is not part of it: the code leaves it as it is when it removes the node behind it.
\<close>

definition fifo_rep :: "hooks \<times> merlin_fifo \<Rightarrow> fnode list \<Rightarrow> bool" where
  "fifo_rep = (\<lambda>(h, q) xs.
     distinct xs \<and> fdll h None xs \<and>
     q_head q = (if xs = [] then None else Some (hd xs)) \<and> q_tail q = (if xs = [] then None else Some (last xs)))"

lemma hook_simps [simp]:
  "getNext m (setNext n p h) = (if m = n then p else getNext m h)"
  "getPrev m (setNext n p h) = getPrev m h"
  "getNext m (setPrev n p h) = getNext m h"
  "getPrev m (setPrev n p h) = (if m = n then p else getPrev m h)"
  by (simp_all add: getNext_def getPrev_def setNext_def setPrev_def)

lemma hook_other [simp]: "m \<noteq> n \<Longrightarrow> setNext n p h m = h m" "m \<noteq> n \<Longrightarrow> setPrev n p h m = h m"
  by (simp_all add: setNext_def setPrev_def)

lemma fdll_append:
  "fdll h p (xs @ ys) \<longleftrightarrow> fdll h p xs \<and> fdll h (if xs = [] then p else Some (last xs)) ys \<and>
     (xs \<noteq> [] \<and> ys \<noteq> [] \<longrightarrow> getNext (last xs) h = Some (hd ys))"
  by (induction xs arbitrary: p) auto

lemma fdll_cong:
  assumes "\<And>x. x \<in> set xs \<Longrightarrow> getPrev x h' = getPrev x h" "\<And>x. x \<in> set (butlast xs) \<Longrightarrow> getNext x h' = getNext x h"
  shows "fdll h' p xs = fdll h p xs"
  using assms
proof (induction xs arbitrary: p)
  case (Cons x xs)
  have "fdll h' (Some x) xs = fdll h (Some x) xs"
    using Cons.prems by (intro Cons.IH; cases xs) auto
  then show ?case
    using Cons.prems by (cases xs) auto
qed simp

lemma linkAtHead_rep:
  assumes "fifo_rep (h, q) xs" "n \<notin> set xs"
  shows "\<exists>h' q'. linkAtHead debug n (h, q) = Inr (h', q') \<and> fifo_rep (h', q') (n # xs) \<and>
    fifo_size q' = fifo_size q + 1 \<and> (xs \<noteq> [] \<longrightarrow> getNext (last xs) h' = getNext (last xs) h) \<and>
    (xs = [] \<longrightarrow> getNext n h' = None) \<and> (\<forall>m. m \<notin> set xs \<and> m \<noteq> n \<longrightarrow> h' m = h m)"
proof (cases xs)
  case Nil
  then show ?thesis
    using assms by (auto simp: fifo_rep_def linkAtHead_def Let_def fifo_size_def)
next
  case (Cons x ys)
  have "fdll (setPrev x (Some n) (setNext n (Some x) (setPrev n None h))) (Some x) ys = fdll h (Some x) ys"
    using assms Cons by (intro fdll_cong) (auto simp: fifo_rep_def dest: in_set_butlastD)
  then show ?thesis
    using assms Cons by (auto simp: fifo_rep_def linkAtHead_def Let_def fifo_size_def)
qed

lemma removeTail_rep:
  assumes "fifo_rep (h, q) (xs @ [t])"
  shows "\<exists>h' q'. removeTail (h, q) = (Some t, h', q') \<and> fifo_rep (h', q') xs \<and> fifo_size q' = fifo_size q - 1 \<and>
    (xs \<noteq> [] \<longrightarrow> getNext (last xs) h' = Some t) \<and> getNext t h' = None \<and> getPrev t h' = None \<and> (\<forall>m. m \<noteq> t \<longrightarrow> h' m = h m)"
proof -
  have "fdll (setPrev t None (setNext t None h)) None xs = fdll h None xs"
    using assms by (intro fdll_cong) (auto simp: fifo_rep_def dest: in_set_butlastD)
  then show ?thesis
    using assms by (cases xs) (auto simp: fifo_rep_def removeTail_def removeTail_take_def removeTail_finish_def
        Let_def fdll_append fifo_size_def)
qed

lemma removeTail_empty: "fifo_rep (h, q) [] \<Longrightarrow> removeTail (h, q) = (None, h, q)"
  by (simp add: fifo_rep_def removeTail_def removeTail_take_def)

text \<open>
  A node in the middle of a list, or at its head: the node before it and the node after it are linked to each other.
\<close>

lemma fifo_remove_head:
  assumes "fifo_rep (h, q) (n # y # ys)" "debug \<longrightarrow> q_size q > 0"
  shows "\<exists>h' q'. fifo_remove debug n (h, q) = Inr (h', q') \<and> fifo_rep (h', q') (y # ys) \<and> fifo_size q' = fifo_size q - 1 \<and>
    getNext n h' = None \<and> getPrev n h' = None \<and> getNext (last (y # ys)) h' = getNext (last (y # ys)) h \<and>
    (\<forall>m. m \<notin> set (n # y # ys) \<longrightarrow> h' m = h m)"
proof -
  have d: "n \<noteq> y" "n \<notin> set ys" "y \<notin> set ys" "last (y # ys) \<noteq> n"
    using assms(1) by (auto simp: fifo_rep_def)
  have "fdll (setPrev n None (setNext n None (setPrev y None h))) (Some y) ys = fdll h (Some y) ys"
    using d by (intro fdll_cong) (auto dest: in_set_butlastD)
  then show ?thesis
    using assms d by (simp add: fifo_rep_def fifo_remove_def fifo_unlink_def Let_def fifo_size_def setPrevFrom_def)
qed

lemma fifo_remove_middle:
  assumes "fifo_rep (h, q) (xs @ p # n # y # ys)" "debug \<longrightarrow> q_size q > 0"
  shows "\<exists>h' q'. fifo_remove debug n (h, q) = Inr (h', q') \<and> fifo_rep (h', q') (xs @ p # y # ys) \<and> fifo_size q' = fifo_size q - 1 \<and>
    getNext n h' = None \<and> getPrev n h' = None \<and> getNext (last (y # ys)) h' = getNext (last (y # ys)) h \<and>
    (\<forall>m. m \<notin> set (xs @ p # n # y # ys) \<longrightarrow> h' m = h m)"
proof -
  let ?h = "setPrev n None (setNext n None (setNext p (Some y) (setPrev y (Some p) h)))"
  have d: "n \<noteq> y" "n \<notin> set ys" "y \<notin> set ys" "last (y # ys) \<noteq> n" "p \<noteq> n" "p \<noteq> y" "n \<notin> set xs" "y \<notin> set xs" "p \<notin> set xs" "p \<notin> set ys"
    "last (y # ys) \<noteq> p" "q_head q \<noteq> Some n"
    using assms(1) by (auto simp: fifo_rep_def hd_append)
  have l: "getPrev n h = Some p" "getNext n h = Some y"
    using assms(1) by (simp_all add: fifo_rep_def fdll_append)
  have "fifo_remove debug n (h, q) = Inr (?h, q\<lparr>tail_remove_size := tail_remove_size q + 1\<rparr>)"
    using assms d l by (simp add: fifo_rep_def fifo_remove_def fifo_unlink_def Let_def setPrevFrom_def setNextFrom_def)
  moreover have "fdll ?h (Some y) ys = fdll h (Some y) ys" "fdll ?h None xs = fdll h None xs"
    using d by (auto intro!: fdll_cong dest: in_set_butlastD)
  then have "fifo_rep (?h, q\<lparr>tail_remove_size := tail_remove_size q + 1\<rparr>) (xs @ p # y # ys)"
    using assms d by (auto simp: fifo_rep_def fdll_append hd_append)
  ultimately show ?thesis
    using d by (simp add: fifo_size_def)
qed

lemma fifo_remove_tail:
  assumes "fifo_rep (h, q) (xs @ [p, n])" "getNext n h = None" "debug \<longrightarrow> q_size q > 0"
  shows "\<exists>h' q'. fifo_remove debug n (h, q) = Inr (h', q') \<and> fifo_rep (h', q') (xs @ [p]) \<and> fifo_size q' = fifo_size q - 1 \<and>
    getNext n h' = None \<and> getPrev n h' = None \<and> getNext p h' = None \<and> (\<forall>m. m \<notin> set (xs @ [p, n]) \<longrightarrow> h' m = h m)"
proof -
  let ?h = "setPrev n None (setNext n None (setNext p None h))"
  have d: "p \<noteq> n" "n \<notin> set xs" "p \<notin> set xs" "q_head q \<noteq> Some n"
    using assms(1) by (auto simp: fifo_rep_def hd_append)
  have l: "getPrev n h = Some p"
    using assms(1) by (simp add: fifo_rep_def fdll_append)
  have "fifo_remove debug n (h, q) = Inr (?h, q\<lparr>q_tail := Some p, tail_remove_size := tail_remove_size q + 1\<rparr>)"
    using assms d l by (simp add: fifo_rep_def fifo_remove_def fifo_unlink_def Let_def setNextFrom_def)
  moreover have "fdll ?h None xs = fdll h None xs"
    using d by (auto intro!: fdll_cong dest: in_set_butlastD)
  then have "fifo_rep (?h, q\<lparr>q_tail := Some p, tail_remove_size := tail_remove_size q + 1\<rparr>) (xs @ [p])"
    using assms d by (auto simp: fifo_rep_def fdll_append hd_append)
  ultimately show ?thesis
    using d by (simp add: fifo_size_def)
qed

text \<open>A node that is not the tail, or the tail of two or more nodes with nothing behind it.\<close>

lemma fifo_remove_rep:
  assumes "fifo_rep (h, q) xs" "n \<in> set xs" "n = last xs \<longrightarrow> getNext n h = None \<and> xs \<noteq> [n]" "debug \<longrightarrow> q_size q > 0"
  shows "\<exists>h' q'. fifo_remove debug n (h, q) = Inr (h', q') \<and> fifo_rep (h', q') (remove1 n xs) \<and> fifo_size q' = fifo_size q - 1 \<and>
    getNext n h' = None \<and> getPrev n h' = None \<and> (\<forall>m. m \<notin> set xs \<longrightarrow> h' m = h m)"
proof -
  obtain us vs where xs: "xs = us @ n # vs" "n \<notin> set us"
    using split_list_first [OF assms(2)] by auto
  have r: "remove1 n xs = us @ vs"
    using xs by (simp add: remove1_append)
  show ?thesis
  proof (cases vs)
    case Nil
    then obtain us' p where "us = us' @ [p]"
      using assms(3) xs by (cases us rule: rev_cases) auto
    then show ?thesis
      using fifo_remove_tail [of h q us' p n debug] assms xs Nil r by auto
  next
    case (Cons y ys)
    then show ?thesis
      using fifo_remove_head [of h q n y ys debug] fifo_remove_middle [of h q "butlast us" "last us" n y ys debug] assms xs r
      by (cases us rule: rev_cases) auto
  qed
qed

section \<open>What the removal of the tail leaves behind\<close>

text \<open>The only node of a list cannot be removed: the call returns and the node stays linked.\<close>

lemma fifo_remove_only:
  assumes "fifo_rep (h, q) [n]" "getNext n h = None"
  shows "fifo_remove debug n (h, q) = Inr (h, q)"
  using assms by (simp add: fifo_rep_def fifo_remove_def)

text \<open>
  A tail behind which a node was removed still points to that node, which has left the list: removing such a tail
  writes to the hook of the other node, and makes it the head when the tail was the only node.
\<close>

lemma fifo_remove_stale:
  assumes "fifo_rep (h, q) [n]" "getNext n h = Some s" "s \<noteq> n"
  shows "\<exists>h' q'. fifo_remove False n (h, q) = Inr (h', q') \<and> q_head q' = Some s \<and> q_tail q' = None \<and> getPrev s h' = None"
  using assms by (simp add: fifo_rep_def fifo_remove_def fifo_unlink_def Let_def setPrevFrom_def)

lemma fifo_remove_debug:
  assumes "q_size q = 0" "getPrev n h \<noteq> None \<or> getNext n h \<noteq> None"
  shows "fifo_remove True n (h, q) = Inl AssertFail"
  using assms by (auto simp: fifo_remove_def fifo_unlink_def Let_def)

lemma q_size_never_set:
  "linkAtHead debug n (h, q) = Inr (h', q') \<Longrightarrow> q_size q' = q_size q"
  "removeTail (h, q) = (r, h', q') \<Longrightarrow> q_size q' = q_size q"
  by (auto simp: linkAtHead_def removeTail_def removeTail_take_def removeTail_finish_def Let_def
      split: option.splits if_splits prod.splits)

text \<open>A restored list reports no nodes, and after one removal \<open>2\<^sup>6\<^sup>4 - 1\<close> of them.\<close>

lemma fifo_restore_size:
  assumes "fifo_rep (h, q) (xs @ [t])"
  shows "fifo_rep (h, fifo_restore (fifo_saveState q)) (xs @ [t]) \<and> fifo_size (fifo_restore (fifo_saveState q)) = 0 \<and>
    fifo_size (snd (snd (removeTail (h, fifo_restore (fifo_saveState q))))) = - 1"
proof -
  have r: "fifo_rep (h, fifo_restore (fifo_saveState q)) (xs @ [t])"
    using assms by (auto simp: fifo_rep_def fifo_restore_def fifo_saveState_def)
  from removeTail_rep [OF r] r show ?thesis
    by (auto simp: fifo_size_def fifo_restore_def)
qed

section \<open>Queues as lists\<close>

text \<open>
  What a client of the list sees: the nodes, head first, and the node the tail still points to. The removal of a
  tail that points to a node which has left the list is an error; the removal of the only node does nothing.
\<close>

record lqueue =
  lq_items :: "fnode list"
  lq_next :: "fnode option"

definition lq_empty :: lqueue where
  "lq_empty = \<lparr>lq_items = [], lq_next = None\<rparr>"

definition lq_link :: "fnode \<Rightarrow> lqueue \<Rightarrow> lqueue" where
  "lq_link n q = q\<lparr>lq_items := n # lq_items q, lq_next := (if lq_items q = [] then None else lq_next q)\<rparr>"

definition lq_removeTail :: "lqueue \<Rightarrow> fnode option \<times> lqueue" where
  "lq_removeTail q =
     (if lq_items q = [] then (None, q)
      else (Some (last (lq_items q)), q\<lparr>lq_items := butlast (lq_items q), lq_next := Some (last (lq_items q))\<rparr>))"

definition lq_remove :: "fnode \<Rightarrow> lqueue \<Rightarrow> lqueue result" where
  "lq_remove n q =
     (if lq_items q \<noteq> [] \<and> n = last (lq_items q)
      then if lq_next q \<noteq> None then Inl ListCorrupt
           else if lq_items q = [n] then Inr q
           else Inr (q\<lparr>lq_items := butlast (lq_items q)\<rparr>)
      else Inr (q\<lparr>lq_items := remove1 n (lq_items q)\<rparr>))"

definition fifo_abs :: "hooks \<times> merlin_fifo \<Rightarrow> lqueue \<Rightarrow> bool" where
  "fifo_abs = (\<lambda>(h, q) l.
     fifo_rep (h, q) (lq_items l) \<and> fifo_size q = of_nat (length (lq_items l)) \<and>
     (lq_items l \<noteq> [] \<longrightarrow> getNext (last (lq_items l)) h = lq_next l))"

lemma fifo_abs_link:
  assumes "fifo_abs s l" "n \<notin> set (lq_items l)"
  shows "\<exists>s'. linkAtHead debug n s = Inr s' \<and> fifo_abs s' (lq_link n l)"
  using linkAtHead_rep [of "fst s" "snd s" "lq_items l" n debug] assms
  by (cases s) (auto simp: fifo_abs_def lq_link_def)

lemma fifo_abs_removeTail:
  assumes "fifo_abs s l"
  shows "\<exists>s'. removeTail s = (fst (lq_removeTail l), s') \<and> fifo_abs s' (snd (lq_removeTail l))"
proof (cases "lq_items l" rule: rev_cases)
  case Nil
  then show ?thesis
    using removeTail_empty [of "fst s" "snd s"] assms by (cases s) (auto simp: fifo_abs_def lq_removeTail_def)
next
  case (snoc xs t)
  then show ?thesis
    using removeTail_rep [of "fst s" "snd s" xs t] assms by (cases s) (auto simp: fifo_abs_def lq_removeTail_def)
qed

lemma fifo_abs_remove_tail:
  assumes "fifo_abs (h, q) \<lparr>lq_items = xs @ [p, n], lq_next = None\<rparr>"
  shows "\<exists>s'. fifo_remove False n (h, q) = Inr s' \<and> fifo_abs s' \<lparr>lq_items = xs @ [p], lq_next = None\<rparr>"
proof -
  have "fifo_rep (h, q) (xs @ [p, n])" "getNext n h = None"
    using assms by (simp_all add: fifo_abs_def)
  from fifo_remove_tail [OF this, of False] assms show ?thesis
    by (auto simp: fifo_abs_def)
qed

lemma fifo_abs_remove_other:
  assumes "fifo_abs (h, q) \<lparr>lq_items = us @ n # y # ys, lq_next = N\<rparr>"
  shows "\<exists>s'. fifo_remove False n (h, q) = Inr s' \<and> fifo_abs s' \<lparr>lq_items = us @ y # ys, lq_next = N\<rparr>"
proof (cases us rule: rev_cases)
  case Nil
  then have "fifo_rep (h, q) (n # y # ys)"
    using assms by (simp add: fifo_abs_def)
  from fifo_remove_head [OF this, of False] assms show ?thesis
    unfolding Nil fifo_abs_def by auto
next
  case (snoc us' p)
  then have "fifo_rep (h, q) (us' @ p # n # y # ys)"
    using assms by (simp add: fifo_abs_def)
  from fifo_remove_middle [OF this, of False] assms show ?thesis
    unfolding snoc fifo_abs_def by auto
qed

lemma fifo_abs_remove:
  assumes "fifo_abs s l" "n \<in> set (lq_items l)" "lq_remove n l = Inr l'"
  shows "\<exists>s'. fifo_remove False n s = Inr s' \<and> fifo_abs s' l'"
proof -
  obtain h q where s: "s = (h, q)" by (cases s)
  obtain us vs N where l: "l = \<lparr>lq_items = us @ n # vs, lq_next = N\<rparr>" "n \<notin> set us"
    using split_list_first [OF assms(2)] by (cases l) auto
  have d: "n \<notin> set vs"
    using assms(1) by (simp add: s l fifo_abs_def fifo_rep_def)
  show ?thesis
  proof (cases vs)
    case (Cons y ys)
    have "l' = \<lparr>lq_items = us @ y # ys, lq_next = N\<rparr>"
      using assms(3) d l(2) by (auto simp: l Cons lq_remove_def remove1_append split: if_splits)
    then show ?thesis
      using fifo_abs_remove_other assms(1) by (simp add: s l Cons)
  next
    case Nil
    show ?thesis
    proof (cases us rule: rev_cases)
      case us: Nil
      show ?thesis
        using assms(1,3) fifo_remove_only [of h q n False]
        by (auto simp: s l Nil us lq_remove_def fifo_abs_def split: if_splits)
    next
      case (snoc xs p)
      have "N = None" "l' = \<lparr>lq_items = xs @ [p], lq_next = None\<rparr>"
        using assms(3) by (auto simp: l Nil snoc lq_remove_def butlast_append split: if_splits)
      then show ?thesis
        using fifo_abs_remove_tail assms(1) by (simp add: s l Nil snoc)
    qed
  qed
qed

section \<open>The contract of a queue\<close>

text \<open>What any implementation of a queue promises: nodes come out in the order in which they went in.\<close>

fun link_all :: "(fnode \<Rightarrow> 's \<Rightarrow> 's result) \<Rightarrow> fnode list \<Rightarrow> 's \<Rightarrow> 's result" where
  "link_all link [] s = Inr s"
| "link_all link (n # ns) s = bindE (link n s) (link_all link ns)"

fun takes :: "('s \<Rightarrow> fnode option \<times> 's) \<Rightarrow> nat \<Rightarrow> 's \<Rightarrow> fnode option list \<times> 's" where
  "takes take_tail 0 s = ([], s)"
| "takes take_tail (Suc k) s = (let (r, s) = take_tail s; (rs, s) = takes take_tail k s in (r # rs, s))"

locale fifo_queue =
  fixes rep :: "'s \<Rightarrow> fnode list \<Rightarrow> bool"
    and link :: "fnode \<Rightarrow> 's \<Rightarrow> 's result"
    and take_tail :: "'s \<Rightarrow> fnode option \<times> 's"
  assumes link_rep: "rep s xs \<Longrightarrow> n \<notin> set xs \<Longrightarrow> \<exists>s'. link n s = Inr s' \<and> rep s' (n # xs)"
    and take_rep: "rep s (xs @ [t]) \<Longrightarrow> \<exists>s'. take_tail s = (Some t, s') \<and> rep s' xs"
    and take_empty: "rep s [] \<Longrightarrow> take_tail s = (None, s)"
begin

lemma link_all_rep:
  "rep s xs \<Longrightarrow> distinct (ns @ xs) \<Longrightarrow> \<exists>s'. link_all link ns s = Inr s' \<and> rep s' (rev ns @ xs)"
proof (induction ns arbitrary: s xs)
  case (Cons n ns)
  then obtain s1 where "link n s = Inr s1" "rep s1 (n # xs)"
    using link_rep [of s xs n] by auto
  then show ?case
    using Cons.IH [of s1 "n # xs"] Cons.prems by auto
qed simp

lemma takes_rep: "rep s (rev ns) \<Longrightarrow> \<exists>s'. takes take_tail (length ns) s = (map Some ns, s') \<and> rep s' []"
proof (induction ns arbitrary: s)
  case (Cons n ns)
  then obtain s1 where "take_tail s = (Some n, s1)" "rep s1 (rev ns)"
    using take_rep [of s "rev ns" n] by auto
  then show ?case
    using Cons.IH [of s1] by auto
qed simp

lemma fifo_order:
  assumes "rep s []" "distinct ns"
  shows "\<exists>s' s''. link_all link ns s = Inr s' \<and> takes take_tail (length ns) s' = (map Some ns, s'') \<and> take_tail s'' = (None, s'')"
  using link_all_rep [OF assms(1), of ns] assms(2) takes_rep [of _ ns] take_empty by fastforce

end

interpretation mfifo: fifo_queue fifo_rep "linkAtHead debug" removeTail for debug
proof
  show "\<exists>s'. linkAtHead debug n s = Inr s' \<and> fifo_rep s' (n # xs)" if "fifo_rep s xs" "n \<notin> set xs" for s xs n
    using linkAtHead_rep [of "fst s" "snd s" xs n debug] that by (cases s) auto
  show "\<exists>s'. removeTail s = (Some t, s') \<and> fifo_rep s' xs" if "fifo_rep s (xs @ [t])" for s xs t
    using removeTail_rep [of "fst s" "snd s" xs t] that by (cases s) auto
  show "removeTail s = (None, s)" if "fifo_rep s []" for s
    using removeTail_empty [of "fst s" "snd s"] that by (cases s) auto
qed

interpretation lfifo: fifo_queue "\<lambda>q xs. lq_items q = xs" "\<lambda>n q. Inr (lq_link n q)" lq_removeTail
  by unfold_locales (auto simp: lq_link_def lq_removeTail_def)

section \<open>The list implements the queue\<close>

lemma fifo_abs_init: "fifo_abs (h, MerlinFIFO) lq_empty"
  by (simp add: fifo_abs_def fifo_rep_def MerlinFIFO_def lq_empty_def fifo_size_def)

text \<open>
  C1: the intrusive list is a queue. Whatever nodes are linked into an empty list come out of its tail in the
  same order, and every link, every removal of the tail and every removal of a node that is not behind a removed one does
  to the pointers what the queue does to the list of nodes, with \<open>size\<close> the number of nodes.
\<close>

theorem merlin_fifo_refines:
  assumes "fifo_abs s l"
  shows "(n \<notin> set (lq_items l) \<longrightarrow> (\<exists>s'. linkAtHead debug n s = Inr s' \<and> fifo_abs s' (lq_link n l))) \<and>
    (\<exists>s'. removeTail s = (fst (lq_removeTail l), s') \<and> fifo_abs s' (snd (lq_removeTail l))) \<and>
    (\<forall>l'. m \<in> set (lq_items l) \<and> lq_remove m l = Inr l' \<longrightarrow> (\<exists>s'. fifo_remove False m s = Inr s' \<and> fifo_abs s' l')) \<and>
    (lq_items l = [] \<and> distinct ns \<longrightarrow> (\<exists>s' s''. link_all (linkAtHead debug) ns s = Inr s' \<and>
       takes removeTail (length ns) s' = (map Some ns, s'')))"
proof (intro conjI impI allI)
  show "\<exists>s'. linkAtHead debug n s = Inr s' \<and> fifo_abs s' (lq_link n l)" if "n \<notin> set (lq_items l)"
    using assms that by (rule fifo_abs_link)
  show "\<exists>s'. removeTail s = (fst (lq_removeTail l), s') \<and> fifo_abs s' (snd (lq_removeTail l))"
    using assms by (rule fifo_abs_removeTail)
  show "\<exists>s'. fifo_remove False m s = Inr s' \<and> fifo_abs s' l'" if "m \<in> set (lq_items l) \<and> lq_remove m l = Inr l'" for l'
    using fifo_abs_remove [OF assms] that by blast
  show "\<exists>s' s''. link_all (linkAtHead debug) ns s = Inr s' \<and> takes removeTail (length ns) s' = (map Some ns, s'')"
    if "lq_items l = [] \<and> distinct ns"
    using mfifo.fifo_order [of s ns debug] assms that by (cases s) (auto simp: fifo_abs_def)
qed

theorem merlin_fifo_refines_witness:
  "fifo_abs (\<lambda>_. \<lparr>hk_next = None, hk_prev = None\<rparr>, MerlinFIFO) lq_empty \<and>
   (\<exists>s' s''. link_all (linkAtHead True) [3, 1, 2] (\<lambda>_. \<lparr>hk_next = None, hk_prev = None\<rparr>, MerlinFIFO) = Inr s' \<and>
      takes removeTail 3 s' = ([Some 3, Some 1, Some 2], s''))"
proof -
  have a: "fifo_abs (\<lambda>_. \<lparr>hk_next = None, hk_prev = None\<rparr>, MerlinFIFO) lq_empty"
    by (rule fifo_abs_init)
  then show ?thesis
    using merlin_fifo_refines [OF a, where n = 1 and debug = True and m = 1 and ns = "[3, 1, 2]"]
    by (simp add: lq_empty_def eval_nat_numeral)
qed

section \<open>Removal of the tail beside an insertion\<close>

text \<open>
  \<open>removeTail\<close> does not take the lock that insertions hold. With two nodes or more, an insertion between its two
  halves has the same effect as one before or after it.
\<close>

lemma interleaved_safe:
  assumes "fifo_rep (h, q) (xs @ [t])" "xs \<noteq> []" "n \<notin> set (xs @ [t])"
  shows "\<exists>h1 q1 h2 q2. removeTail_take (h, q) = (Some t, h1, q1) \<and> linkAtHead debug n (h1, q1) = Inr (h2, q2) \<and>
    fifo_rep (removeTail_finish t (h2, q2)) (n # xs)"
proof -
  obtain x ys where xs: "xs = x # ys"
    using assms(2) by (cases xs) auto
  have t: "getPrev t h = Some (last xs)" "q_tail q = Some t" "q_head q = Some x" "fdll h None xs"
    using assms(1,2) xs by (auto simp: fifo_rep_def fdll_append)
  let ?h = "setPrev x (Some n) (setNext n (Some x) (setPrev n None h))"
  have d: "n \<noteq> x" "n \<noteq> t" "x \<noteq> t" "t \<notin> set ys" "x \<notin> set ys" "n \<notin> set ys"
    using assms xs by (auto simp: fifo_rep_def)
  have "fdll (setPrev t None (setNext t None ?h)) (Some x) ys = fdll h (Some x) ys"
    using d by (intro fdll_cong) (auto dest: in_set_butlastD)
  then show ?thesis
    using assms t d xs by (auto simp: removeTail_take_def linkAtHead_def removeTail_finish_def Let_def fifo_rep_def)
qed

text \<open>With one node the queue loses its tail.\<close>

datatype fifo_op = Link fnode | RemoveTail

fun fifo_run :: "fifo_op list \<Rightarrow> hooks \<times> merlin_fifo \<Rightarrow> (fnode list \<times> hooks \<times> merlin_fifo) result" where
  "fifo_run [] s = Inr ([], s)"
| "fifo_run (Link n # ops) s = bindE (linkAtHead False n s) (fifo_run ops)"
| "fifo_run (RemoveTail # ops) s =
     (let (r, s) = removeTail s
      in bindE (fifo_run ops s) (\<lambda>(ns, s). Inr (case r of None \<Rightarrow> ns | Some n \<Rightarrow> n # ns, s)))"

definition lost :: "merlin_fifo \<Rightarrow> bool" where
  "lost q \<longleftrightarrow> q_head q \<noteq> None \<and> q_tail q = None"

lemma lost_link: "lost q \<Longrightarrow> \<exists>h' q'. linkAtHead debug n (h, q) = Inr (h', q') \<and> lost q'"
  by (auto simp: lost_def linkAtHead_def Let_def)

lemma lost_removeTail: "lost q \<Longrightarrow> removeTail (h, q) = (None, h, q)"
  by (simp add: lost_def removeTail_def removeTail_take_def)

lemma lost_run: "lost q \<Longrightarrow> \<exists>h' q'. fifo_run ops (h, q) = Inr ([], h', q') \<and> lost q'"
proof (induction ops arbitrary: h q)
  case (Cons op ops)
  show ?case
  proof (cases op)
    case (Link n)
    then show ?thesis
      using lost_link [OF Cons.prems, of False n h] Cons.IH by fastforce
  next
    case RemoveTail
    then show ?thesis
      using lost_removeTail [OF Cons.prems, of h] Cons.IH [OF Cons.prems, of h] by auto
  qed
qed simp

text \<open>
  C2: an insertion between the two halves of a removal of the only node loses the queue. The removing thread
  takes the tail without the lock of the head; another thread then links its node in front of the node that is being removed;
  the queue is left with a head and no tail, and from then on, whatever is linked and however often the tail is
  asked for, no node is ever returned.
\<close>

theorem removeTail_race_loses_queue:
  assumes "fifo_rep (h, q) [t]" "n \<noteq> t"
  shows "\<exists>h1 q1 h2 q2 h3 q3. removeTail_take (h, q) = (Some t, h1, q1) \<and> linkAtHead debug n (h1, q1) = Inr (h2, q2) \<and>
    removeTail_finish t (h2, q2) = (h3, q3) \<and> q_head q3 = Some n \<and>
    (\<forall>ops. \<exists>h' q'. fifo_run ops (h3, q3) = Inr ([], h', q'))"
proof -
  have t: "getPrev t h = None" "q_tail q = Some t" "q_head q = Some t"
    using assms(1) by (simp_all add: fifo_rep_def)
  obtain h3 q3 where "removeTail_take (h, q) = (Some t, h, q\<lparr>q_tail := None\<rparr>) \<and>
      linkAtHead debug n (h, q\<lparr>q_tail := None\<rparr>) =
        Inr (setPrev t (Some n) (setNext n (Some t) (setPrev n None h)),
             q\<lparr>q_tail := None, q_head := Some n, head_insert_size := head_insert_size q + 1\<rparr>) \<and>
      removeTail_finish t (setPrev t (Some n) (setNext n (Some t) (setPrev n None h)),
             q\<lparr>q_tail := None, q_head := Some n, head_insert_size := head_insert_size q + 1\<rparr>) = (h3, q3) \<and>
      q_head q3 = Some n \<and> lost q3"
    using t assms(2) by (simp add: removeTail_take_def linkAtHead_def removeTail_finish_def Let_def lost_def)
  then show ?thesis
    using lost_run [of q3 _ h3] by blast
qed

theorem removeTail_race_loses_queue_witness:
  "\<exists>h q h1 q1 h2 q2 h3 q3. fifo_rep (h, q) [7] \<and> removeTail_take (h, q) = (Some 7, h1, q1) \<and>
     linkAtHead True 8 (h1, q1) = Inr (h2, q2) \<and> removeTail_finish 7 (h2, q2) = (h3, q3) \<and>
     (\<exists>h' q'. fifo_run [Link 9, RemoveTail, RemoveTail] (h3, q3) = Inr ([], h', q'))"
proof -
  obtain h q where r: "fifo_rep (h, q) [7]"
    using linkAtHead_rep [of "\<lambda>_. \<lparr>hk_next = None, hk_prev = None\<rparr>" MerlinFIFO "[]" 7 False]
    by (auto simp: fifo_rep_def MerlinFIFO_def)
  have "(8 :: nat) \<noteq> 7" by simp
  from removeTail_race_loses_queue [OF r this, of True] obtain h1 q1 h2 q2 h3 q3 where
    e: "removeTail_take (h, q) = (Some 7, h1, q1)" "linkAtHead True 8 (h1, q1) = Inr (h2, q2)"
      "removeTail_finish 7 (h2, q2) = (h3, q3)" "\<forall>ops. \<exists>h' q'. fifo_run ops (h3, q3) = Inr ([], h', q')"
    by (elim exE conjE) (rule that)
  from e(4) [THEN spec, of "[Link 9, RemoveTail, RemoveTail]"] obtain h' q' where
    e4: "fifo_run [Link 9, RemoveTail, RemoveTail] (h3, q3) = Inr ([], h', q')"
    by (elim exE) (rule that)
  show ?thesis
    by (intro exI conjI) (rule r, rule e(1), rule e(2), rule e(3), rule e4)
qed

end
