(* ===== verification/Merlin_List.thy ===== *)
theory Merlin_List
  imports Refcount Merlin_Ghost Merlin_FIFO
begin

text \<open>
  Merlin's resident queues in CacheLib (\<open>datastruct/MerlinList.h\<close>): for every worker a shard and a paired
  ``cuckoo'' shard, each with a filter, a staging and a core queue; the frequency of an item lives in flag bits of its
  reference count. Each call is one step. What the model leaves to the environment is an argument: whether
  the lock of a queue's head is free at the first try and which compare-and-exchanges of the ghost table succeed.
  \<open>hashNode\<close> (\<open>folly::hasher\<close> of the key) is a field of the node: any function of the key.
\<close>

section \<open>The frequency in the reference count\<close>

definition kFreqMask :: ref_value where
  "kFreqMask = push_bit (flag_bit kMMFlag2) 7"

definition incFreq_word :: "ref_value \<Rightarrow> nat \<times> ref_value" where
  "incFreq_word v =
     (let res = v AND kFreqMask;
          u = updated v (update (\<lambda>curValue. Inr (curValue AND kFreqMask \<noteq> kFreqMask))
                (\<lambda>curValue. Inr (curValue + push_bit (flag_bit kMMFlag2) 1)) v)
      in (unat (drop_bit (flag_bit kMMFlag2) res) + 1, case u of Inl _ \<Rightarrow> v | Inr (_, v') \<Rightarrow> v'))"

definition decFreq_word :: "ref_value \<Rightarrow> nat \<times> ref_value" where
  "decFreq_word v =
     (let res = v AND kFreqMask;
          u = updated v (update (\<lambda>curValue. Inr (curValue AND kFreqMask \<noteq> 0))
                (\<lambda>curValue. Inr (curValue - push_bit (flag_bit kMMFlag2) 1)) v)
      in (unat (drop_bit (flag_bit kMMFlag2) res), case u of Inl _ \<Rightarrow> v | Inr (_, v') \<Rightarrow> v'))"

definition clearFreq_word :: "ref_value \<Rightarrow> nat \<times> ref_value" where
  "clearFreq_word v =
     (let res = v AND kFreqMask;
          u = updated v (update (\<lambda>curValue. Inr (curValue AND kFreqMask \<noteq> 0))
                (\<lambda>curValue. Inr (curValue AND NOT kFreqMask)) v)
      in (unat (drop_bit (flag_bit kMMFlag2) res), case u of Inl _ \<Rightarrow> v | Inr (_, v') \<Rightarrow> v'))"

definition getFreq_word :: "ref_value \<Rightarrow> nat" where
  "getFreq_word ret = unat (drop_bit (flag_bit kMMFlag2) ret AND of_nat MAX_FREQ)"

definition resetFreq_word :: "ref_value \<Rightarrow> ref_value" where
  "resetFreq_word v = v AND (- 1 - kFreqMask)"

definition setFreq_word :: "nat \<Rightarrow> ref_value \<Rightarrow> ref_value" where
  "setFreq_word freq v =
     resetFreq_word v OR push_bit (flag_bit kMMFlag2) (of_nat freq AND of_nat MAX_FREQ)"

lemma flag2: "flag_bit kMMFlag2 = 21"
  by (simp add: flag_bit.simps kNumAccessRefBits_def kNumAdminRefBits_def)

lemma kFreqMask_eq: "kFreqMask = push_bit 21 (mask 3)"
  by (simp add: kFreqMask_def flag2 mask_eq_exp_minus_1)

text \<open>The bits outside the frequency.\<close>

definition same_rest :: "ref_value \<Rightarrow> ref_value \<Rightarrow> bool" where
  "same_rest v w \<longleftrightarrow> take_bit 21 v = take_bit 21 w \<and> drop_bit 24 v = drop_bit 24 w"

lemma getFreq_take: "getFreq_word v = unat (take_bit 3 (drop_bit 21 v))"
proof -
  have "drop_bit 21 v AND (of_nat MAX_FREQ :: ref_value) = take_bit 3 (drop_bit 21 v)"
    by (simp add: MAX_FREQ_def take_bit_eq_mask mask_eq_exp_minus_1)
  then show ?thesis
    by (simp add: getFreq_word_def flag2)
qed

lemma getFreq_nat: "getFreq_word v = unat v div 2 ^ 21 mod 8"
  unfolding getFreq_take by (simp only: unsigned_take_bit_eq unsigned_drop_bit_eq take_bit_eq_mod drop_bit_eq_div)
    (simp add: unat_mod unat_div)

lemma getFreq_le: "getFreq_word v \<le> MAX_FREQ"
proof -
  have "unat v div 2 ^ 21 mod 8 < 8" by simp
  then show ?thesis by (simp only: getFreq_nat MAX_FREQ_def)
qed

lemma res_eq: "unat (drop_bit 21 (v AND kFreqMask)) = getFreq_word v"
proof -
  have "drop_bit 21 (v AND kFreqMask) = take_bit 3 (drop_bit 21 v)"
    unfolding kFreqMask_eq by (rule bit_eqI) (auto simp: bit_simps)
  then show ?thesis
    by (simp only: getFreq_take)
qed

lemma res_eq': "unat (drop_bit 21 v AND drop_bit 21 kFreqMask) = getFreq_word v"
  using res_eq [of v] by (simp only: drop_bit_and)

lemma res_0_iff: "v AND kFreqMask = 0 \<longleftrightarrow> getFreq_word v = 0"
proof
  assume *: "getFreq_word v = 0"
  have "v AND kFreqMask = push_bit 21 (drop_bit 21 (v AND kFreqMask))"
    unfolding kFreqMask_eq by (rule bit_eqI) (auto simp: bit_simps)
  also have "drop_bit 21 (v AND kFreqMask) = 0"
    using * by (simp add: res_eq [symmetric] unat_eq_zero)
  finally show "v AND kFreqMask = 0" by simp
qed (simp add: res_eq [symmetric])

lemma res_max_iff: "v AND kFreqMask = kFreqMask \<longleftrightarrow> getFreq_word v = MAX_FREQ"
proof -
  have m: "unat (drop_bit 21 kFreqMask) = MAX_FREQ"
    by (simp add: kFreqMask_def flag2 MAX_FREQ_def drop_bit_push_bit)
  have s: "w AND kFreqMask = push_bit 21 (drop_bit 21 (w AND kFreqMask))" for w
    unfolding kFreqMask_eq by (rule bit_eqI) (auto simp: bit_simps)
  show ?thesis
  proof
    assume "getFreq_word v = MAX_FREQ"
    then have "drop_bit 21 (v AND kFreqMask) = drop_bit 21 (kFreqMask AND kFreqMask)"
      using m by (simp add: res_eq [symmetric] word_unat_eq_iff)
    then show "v AND kFreqMask = kFreqMask"
      using s [of v] s [of kFreqMask] by simp
  next
    assume "v AND kFreqMask = kFreqMask"
    then show "getFreq_word v = MAX_FREQ"
      using m by (simp add: res_eq [symmetric])
  qed
qed

lemma same_rest_refl [simp]: "same_rest v v"
  by (simp add: same_rest_def)

lemma same_rest_trans: "same_rest u v \<Longrightarrow> same_rest v w \<Longrightarrow> same_rest u w"
  by (simp add: same_rest_def)

lemma same_rest_bit:
  assumes "same_rest v w" "n < 21 \<or> 24 \<le> n"
  shows "bit v n = bit w n"
proof (cases "n < 21")
  case True
  have "bit (take_bit 21 v) n = bit (take_bit 21 w) n"
    using assms(1) by (simp only: same_rest_def)
  then show ?thesis
    using True by (simp only: bit_take_bit_iff) simp
next
  case False
  have "bit (drop_bit 24 v) (n - 24) = bit (drop_bit 24 w) (n - 24)"
    using assms(1) by (simp only: same_rest_def)
  then show ?thesis
    using False assms(2) by (simp add: bit_drop_bit_eq)
qed

lemma freq_add:
  assumes "getFreq_word v < 7"
  shows "getFreq_word (v + 2 ^ 21) = getFreq_word v + 1" "same_rest (v + 2 ^ 21) v"
proof -
  define k where "k = unat v div 2 ^ 21"
  define r where "r = unat v mod 2 ^ 21"
  have uv: "unat v = 2 ^ 21 * k + r" "r < 2 ^ 21"
    by (simp_all add: k_def r_def)
  have k: "k mod 8 < 7"
    using assms by (simp add: getFreq_nat k_def)
  have "2 ^ 21 * k < 2 ^ 32"
    using uv unsigned_less [of v, where ?'a = nat] by simp
  then have "k < 2 ^ 11" by simp
  moreover have "k \<noteq> 2 ^ 11 - 1"
    using k by auto
  ultimately have "2 ^ 21 * k + 2 ^ 21 + r < 2 ^ 32"
    using uv(2) by simp
  then have u: "unat (v + 2 ^ 21) = 2 ^ 21 * (k + 1) + r"
    using uv(1) by (simp add: unat_plus_if_size word_size)
  have d: "(2 ^ 21 * j + r) div 2 ^ 21 = j" "(2 ^ 21 * j + r) mod 2 ^ 21 = r" for j
    using uv(2) by simp_all
  show "getFreq_word (v + 2 ^ 21) = getFreq_word v + 1"
    unfolding getFreq_nat u uv(1) d using k by (simp add: mod_Suc)
  have dd: "(2 ^ 21 * j + r) div 2 ^ 24 = j div 8" for j
    using d(1) [of j] div_mult2_eq [of "2 ^ 21 * j + r" "2 ^ 21" 8] by simp
  have "(k + 1) div 8 = k div 8"
    using k by (simp add: div_Suc mod_Suc)
  then have "unat (v + 2 ^ 21) div 2 ^ 24 = unat v div 2 ^ 24"
    unfolding u uv(1) by (simp only: dd)
  moreover have "unat (v + 2 ^ 21) mod 2 ^ 21 = unat v mod 2 ^ 21"
    unfolding u uv(1) d by simp
  ultimately show "same_rest (v + 2 ^ 21) v"
    unfolding same_rest_def word_unat_eq_iff take_bit_eq_mod drop_bit_eq_div by (simp add: unat_mod unat_div)
qed

lemma freq_sub:
  assumes "getFreq_word v > 0"
  shows "getFreq_word (v - 2 ^ 21) = getFreq_word v - 1" "same_rest (v - 2 ^ 21) v"
proof -
  define k where "k = unat v div 2 ^ 21"
  have k: "k mod 8 > 0"
    using assms by (simp add: getFreq_nat k_def)
  then have "k \<ge> 1" by (cases k) simp_all
  then have "2 ^ 21 \<le> unat v"
    unfolding k_def by (metis div_less leI not_one_le_zero)
  then have "unat (v - 2 ^ 21) = unat v - 2 ^ 21"
    by (subst unat_sub) (simp_all add: word_le_nat_alt)
  then have "unat (v - 2 ^ 21) div 2 ^ 21 = k - 1"
    using \<open>2 ^ 21 \<le> unat v\<close> by (simp add: k_def div_if [of "unat v"])
  then have "getFreq_word (v - 2 ^ 21) = (k - 1) mod 8"
    by (simp only: getFreq_nat)
  also have "\<dots> = k mod 8 - 1"
    using k by (cases k) (simp_all add: mod_Suc split: if_splits)
  finally have "getFreq_word (v - 2 ^ 21) < 7"
    using mod_less_divisor [of 8 k] by simp
  from freq_add [OF this] show "getFreq_word (v - 2 ^ 21) = getFreq_word v - 1" "same_rest (v - 2 ^ 21) v"
    by (simp_all add: same_rest_def)
qed

text \<open>What the operations do to the frequency; no other bit of the word changes.\<close>

lemma incFreq_word_correct:
  "fst (incFreq_word v) = getFreq_word v + 1"
  "getFreq_word (snd (incFreq_word v)) = min MAX_FREQ (getFreq_word v + 1)"
  "same_rest (snd (incFreq_word v)) v"
proof -
  have f: "fst (incFreq_word v) = getFreq_word v + 1"
    and s: "snd (incFreq_word v) = (if getFreq_word v = MAX_FREQ then v else v + 2 ^ 21)"
    by (simp_all add: incFreq_word_def flag2 Let_def updated_update res_eq' res_max_iff)
  show "fst (incFreq_word v) = getFreq_word v + 1" by (rule f)
  show "getFreq_word (snd (incFreq_word v)) = min MAX_FREQ (getFreq_word v + 1)" "same_rest (snd (incFreq_word v)) v"
    using freq_add [of v] getFreq_le [of v] unfolding s by (auto simp: MAX_FREQ_def)
qed

lemma decFreq_word_correct:
  "fst (decFreq_word v) = getFreq_word v"
  "getFreq_word (snd (decFreq_word v)) = getFreq_word v - 1"
  "same_rest (snd (decFreq_word v)) v"
proof -
  have f: "fst (decFreq_word v) = getFreq_word v"
    and s: "snd (decFreq_word v) = (if getFreq_word v = 0 then v else v - 2 ^ 21)"
    by (simp_all add: decFreq_word_def flag2 Let_def updated_update res_eq' res_0_iff)
  show "fst (decFreq_word v) = getFreq_word v" by (rule f)
  show "getFreq_word (snd (decFreq_word v)) = getFreq_word v - 1" "same_rest (snd (decFreq_word v)) v"
    using freq_sub [of v] unfolding s by auto
qed

lemma getFreq_and_not: "getFreq_word (v AND NOT kFreqMask) = 0" "same_rest (v AND NOT kFreqMask) v"
proof -
  have "(v AND NOT kFreqMask) AND kFreqMask = 0"
    by (simp add: and.assoc)
  then show "getFreq_word (v AND NOT kFreqMask) = 0"
    by (simp only: res_0_iff)
  have "n < 8" if "bit v (24 + n)" for n
    using bit_imp_le_length [OF that] by simp
  then show "same_rest (v AND NOT kFreqMask) v"
    unfolding same_rest_def kFreqMask_eq by (auto intro!: bit_eqI simp: bit_simps)
qed

lemma clearFreq_word_correct:
  "fst (clearFreq_word v) = getFreq_word v" "getFreq_word (snd (clearFreq_word v)) = 0" "same_rest (snd (clearFreq_word v)) v"
proof -
  have f: "fst (clearFreq_word v) = getFreq_word v"
    and s: "snd (clearFreq_word v) = (if getFreq_word v = 0 then v else v AND NOT kFreqMask)"
    by (simp_all add: clearFreq_word_def flag2 Let_def updated_update res_eq' res_0_iff)
  show "fst (clearFreq_word v) = getFreq_word v" by (rule f)
  show "getFreq_word (snd (clearFreq_word v)) = 0" "same_rest (snd (clearFreq_word v)) v"
    using getFreq_and_not [of v] unfolding s by auto
qed

lemma resetFreq_word_correct: "getFreq_word (resetFreq_word v) = 0" "same_rest (resetFreq_word v) v"
proof -
  have "- 1 - kFreqMask = NOT kFreqMask"
    by (simp add: not_eq_complement)
  then have "resetFreq_word v = v AND NOT kFreqMask"
    by (simp only: resetFreq_word_def)
  then show "getFreq_word (resetFreq_word v) = 0" "same_rest (resetFreq_word v) v"
    using getFreq_and_not [of v] by simp_all
qed

lemma setFreq_word_correct:
  assumes "freq \<le> MAX_FREQ"
  shows "getFreq_word (setFreq_word freq v) = freq" "same_rest (setFreq_word freq v) v"
proof -
  define f where "f = (of_nat freq AND of_nat MAX_FREQ :: ref_value)"
  define w where "w = resetFreq_word v"
  have "f = take_bit 3 (of_nat freq)"
    by (simp add: f_def MAX_FREQ_def take_bit_eq_mask mask_eq_exp_minus_1)
  moreover from this have "unat f = freq"
    using assms by (simp add: MAX_FREQ_def take_bit_eq_mod unat_mod unat_of_nat)
  ultimately have f: "take_bit 3 f = f" "unat f = freq" by simp_all
  have s: "setFreq_word freq v = w OR push_bit 21 f"
    by (simp add: setFreq_word_def f_def w_def flag2)
  have "take_bit 3 (drop_bit 21 w) = 0"
    using resetFreq_word_correct(1) [of v] by (simp add: getFreq_take w_def unat_eq_zero)
  moreover have "take_bit 3 (drop_bit 21 (push_bit 21 f)) = take_bit 3 f"
    by (rule bit_eqI) (auto simp: bit_simps)
  ultimately have "take_bit 3 (drop_bit 21 (w OR push_bit 21 f)) = f"
    using f(1) by simp
  then show "getFreq_word (setFreq_word freq v) = freq"
    using f(2) by (simp only: getFreq_take s)
  have nb: "\<not> bit f n" if "3 \<le> n" for n
    using that arg_cong [OF f(1), of "\<lambda>x. bit x n"] by (simp add: bit_take_bit_iff)
  have "take_bit 21 (w OR push_bit 21 f) = take_bit 21 w"
    by (rule bit_eqI) (auto simp: bit_simps)
  moreover have "drop_bit 24 (w OR push_bit 21 f) = drop_bit 24 w"
    by (rule bit_eqI) (simp add: bit_simps nb)
  ultimately have "same_rest (setFreq_word freq v) w"
    by (simp add: same_rest_def s)
  then show "same_rest (setFreq_word freq v) v"
    using resetFreq_word_correct(2) [of v] unfolding w_def by (rule same_rest_trans)
qed

section \<open>State\<close>

definition QUEUE_NUM :: nat where
  "QUEUE_NUM = 128"

definition THREAD_NUM :: nat where
  "THREAD_NUM = 65"

definition MAX_RETRIES :: nat where
  "MAX_RETRIES = 8"

record mnode =
  nd_ref :: ref_value
  nd_hash :: "32 word"
  nd_time :: "32 word"

text \<open>
  The cached sizes are \<open>size_t\<close>; only the one of the core can go below zero, so it alone is a word.
\<close>

record queue_info =
  filterfifo :: lqueue
  corefifo :: lqueue
  stagingfifo :: lqueue
  qi_ghost :: merlin_ghost
  qi_sketch :: merlin_sketch
  gs_initialized :: bool
  freq_distribution :: "nat \<Rightarrow> int"
  filter_size :: nat
  core_size :: "64 word"
  staging_size :: nat
  total_size :: nat

record thread_info =
  th_numInserts :: nat
  target_queue :: nat
  total_threads :: nat
  hotness_threshold :: nat

text \<open>The environment: the outcome of the first try of a head lock, and of the exchanges of a ghost insertion or lookup.\<close>

record merlin_env =
  try_lock :: "nat \<Rightarrow> bool"
  ghost_cas :: "nat \<Rightarrow> nat \<Rightarrow> bool"
  ghost_cas' :: "nat \<Rightarrow> bool"

record merlin_list =
  ml_nodes :: "fnode \<Rightarrow> mnode"
  ml_queues :: "nat \<Rightarrow> queue_info"
  ml_threads :: "nat \<Rightarrow> thread_info"
  initialized_gs :: bool
  ml_env :: merlin_env
  ml_tick :: nat

datatype qkind = Filter | Staging | Core

primrec fifo_of :: "qkind \<Rightarrow> queue_info \<Rightarrow> lqueue" where
  "fifo_of Filter q = filterfifo q"
| "fifo_of Staging q = stagingfifo q"
| "fifo_of Core q = corefifo q"

primrec set_fifo :: "qkind \<Rightarrow> lqueue \<Rightarrow> queue_info \<Rightarrow> queue_info" where
  "set_fifo Filter l q = q\<lparr>filterfifo := l\<rparr>"
| "set_fifo Staging l q = q\<lparr>stagingfifo := l\<rparr>"
| "set_fifo Core l q = q\<lparr>corefifo := l\<rparr>"

definition upd_queue :: "nat \<Rightarrow> (queue_info \<Rightarrow> queue_info) \<Rightarrow> merlin_list \<Rightarrow> merlin_list" where
  "upd_queue i f s = s\<lparr>ml_queues := (ml_queues s)(i := f (ml_queues s i))\<rparr>"

definition upd_ref :: "fnode \<Rightarrow> (ref_value \<Rightarrow> ref_value) \<Rightarrow> merlin_list \<Rightarrow> merlin_list" where
  "upd_ref n f s = s\<lparr>ml_nodes := (ml_nodes s)(n := (ml_nodes s n)\<lparr>nd_ref := f (nd_ref (ml_nodes s n))\<rparr>)\<rparr>"

definition ref_of :: "fnode \<Rightarrow> merlin_list \<Rightarrow> ref_value" where
  "ref_of n s = nd_ref (ml_nodes s n)"

definition hashNode :: "fnode \<Rightarrow> merlin_list \<Rightarrow> 32 word" where
  "hashNode n s = nd_hash (ml_nodes s n)"

definition freq_add_to :: "nat \<Rightarrow> nat \<Rightarrow> int \<Rightarrow> merlin_list \<Rightarrow> merlin_list" where
  "freq_add_to i k d s = upd_queue i (\<lambda>q. q\<lparr>freq_distribution := (freq_distribution q)(k := freq_distribution q k + d)\<rparr>) s"

section \<open>Flags and frequencies of nodes\<close>

definition setFilter :: "fnode \<Rightarrow> merlin_list \<Rightarrow> merlin_list" where
  "setFilter n = upd_ref n (setFlag kMMFlag0)"

definition unSetFilter :: "fnode \<Rightarrow> merlin_list \<Rightarrow> merlin_list" where
  "unSetFilter n = upd_ref n (unSetFlag kMMFlag0)"

definition isFilter :: "fnode \<Rightarrow> merlin_list \<Rightarrow> bool" where
  "isFilter n s = isFlagSet kMMFlag0 (ref_of n s)"

definition setCore :: "fnode \<Rightarrow> merlin_list \<Rightarrow> merlin_list" where
  "setCore n = upd_ref n (setFlag kMMFlag1)"

definition unSetCore :: "fnode \<Rightarrow> merlin_list \<Rightarrow> merlin_list" where
  "unSetCore n = upd_ref n (unSetFlag kMMFlag1)"

definition isCore :: "fnode \<Rightarrow> merlin_list \<Rightarrow> bool" where
  "isCore n s = isFlagSet kMMFlag1 (ref_of n s)"

definition setCuckoo :: "fnode \<Rightarrow> merlin_list \<Rightarrow> merlin_list" where
  "setCuckoo n = upd_ref n (setFlag kMMFlag5)"

definition unSetCuckoo :: "fnode \<Rightarrow> merlin_list \<Rightarrow> merlin_list" where
  "unSetCuckoo n = upd_ref n (unSetFlag kMMFlag5)"

definition isCuckoo :: "fnode \<Rightarrow> merlin_list \<Rightarrow> bool" where
  "isCuckoo n s = isFlagSet kMMFlag5 (ref_of n s)"

definition getQueueID :: "fnode \<Rightarrow> nat \<Rightarrow> merlin_list \<Rightarrow> nat" where
  "getQueueID n thread_id s =
     (let hashed_key = hashNode n s;
          queue_id = unat hashed_key mod total_threads (ml_threads s thread_id)
      in if isCuckoo n s then queue_id + total_threads (ml_threads s thread_id) else queue_id)"

definition incFreq :: "fnode \<Rightarrow> nat \<Rightarrow> merlin_list \<Rightarrow> nat \<times> merlin_list" where
  "incFreq n thread_id s =
     (let queue_id = getQueueID n thread_id s;
          retval = fst (incFreq_word (ref_of n s));
          s = upd_ref n (\<lambda>v. snd (incFreq_word v)) s;
          s = (if retval = 2 then freq_add_to queue_id retval 1 s else s);
          s = (if retval = 1 then freq_add_to queue_id retval 1 s else s)
      in (retval, s))"

definition decFreq :: "fnode \<Rightarrow> nat \<Rightarrow> merlin_list \<Rightarrow> int \<times> merlin_list" where
  "decFreq n thread_id s =
     (let queue_id = getQueueID n thread_id s;
          retval = fst (decFreq_word (ref_of n s));
          s = upd_ref n (\<lambda>v. snd (decFreq_word v)) s;
          s = (if retval = 2 then freq_add_to queue_id retval (- 1) s else s);
          s = (if retval = 1 then freq_add_to queue_id retval (- 1) s else s)
      in (int retval - 1, s))"

definition getFreq :: "fnode \<Rightarrow> merlin_list \<Rightarrow> nat" where
  "getFreq n s = getFreq_word (ref_of n s)"

definition clearFreq :: "fnode \<Rightarrow> nat \<Rightarrow> merlin_list \<Rightarrow> int \<times> merlin_list" where
  "clearFreq n thread_id s =
     (let queue_id = getQueueID n thread_id s;
          retval = fst (clearFreq_word (ref_of n s));
          s = upd_ref n (\<lambda>v. snd (clearFreq_word v)) s;
          s = (if retval \<ge> 2 then freq_add_to queue_id 2 (- 1) s else s);
          s = (if retval \<ge> 1 then freq_add_to queue_id 1 (- 1) s else s)
      in (int retval - 1, s))"

definition resetFreq :: "fnode \<Rightarrow> merlin_list \<Rightarrow> merlin_list" where
  "resetFreq n = upd_ref n resetFreq_word"

definition setFreq :: "fnode \<Rightarrow> nat \<Rightarrow> nat \<Rightarrow> merlin_list \<Rightarrow> merlin_list" where
  "setFreq n freq thread_id s =
     (let queue_id = getQueueID n thread_id s;
          s = upd_ref n (setFreq_word freq) s;
          s = (if freq \<ge> 2 then freq_add_to queue_id 2 1 s else s)
      in if freq \<ge> 1 then freq_add_to queue_id 1 1 s else s)"

section \<open>Construction, sizes and thresholds\<close>

definition new_queue :: "queue_info \<Rightarrow> queue_info" where
  "new_queue junk = junk\<lparr>filterfifo := lq_empty, corefifo := lq_empty, stagingfifo := lq_empty,
     qi_ghost := \<lparr>g_numElem = 0, g_fifoSize = 0, g_numInserts = 0, g_table = [], g_dist = g_dist (qi_ghost junk)\<rparr>,
     qi_sketch := \<lparr>s_numElem = 0, s_fifoSize = 0, s_numInserts = 0, s_table = []\<rparr>, gs_initialized := False,
     freq_distribution := (\<lambda>k. if k < MAX_FREQ then 0 else freq_distribution junk k)\<rparr>"

text \<open>The members that the constructors leave uninitialised have the values of \<open>junk\<close>.\<close>

definition MerlinList :: "nat \<Rightarrow> (fnode \<Rightarrow> mnode) \<Rightarrow> (nat \<Rightarrow> queue_info) \<Rightarrow> merlin_env \<Rightarrow> merlin_list result" where
  "MerlinList total_thread_num nodes junk env =
     (if \<not> total_thread_num \<le> THREAD_NUM then Inl AssertFail
      else if \<not> total_thread_num * 2 \<le> QUEUE_NUM then Inl AssertFail
      else Inr \<lparr>ml_nodes = nodes, ml_queues = (\<lambda>i. new_queue (junk i)),
        ml_threads = (\<lambda>i. \<lparr>th_numInserts = 0, target_queue = i mod total_thread_num, total_threads = total_thread_num,
                            hotness_threshold = 1\<rparr>),
        initialized_gs = False, ml_env = env, ml_tick = 0\<rparr>)"

definition lq_size :: "lqueue \<Rightarrow> nat" where
  "lq_size q = length (lq_items q)"

definition queue_sizes :: "queue_info \<Rightarrow> nat" where
  "queue_sizes q = lq_size (filterfifo q) + lq_size (corefifo q) + lq_size (stagingfifo q)"

definition ml_size :: "merlin_list \<Rightarrow> nat" where
  "ml_size s = sum_list (map (\<lambda>i. queue_sizes (ml_queues s i)) [0..<QUEUE_NUM])"

definition refresh_sizes :: "queue_info \<Rightarrow> queue_info" where
  "refresh_sizes q = q\<lparr>filter_size := lq_size (filterfifo q), core_size := of_nat (lq_size (corefifo q)),
     staging_size := lq_size (stagingfifo q), total_size := queue_sizes q\<rparr>"

text \<open>The counters are signed and are compared with an unsigned size.\<close>

definition exceeds :: "int \<Rightarrow> nat \<Rightarrow> bool" where
  "exceeds freq queue_size \<longleftrightarrow> (word_of_int freq :: 64 word) > of_nat queue_size"

definition updateLocal :: "nat \<Rightarrow> merlin_list \<Rightarrow> merlin_list" where
  "updateLocal thread_id s =
     (let target = target_queue (ml_threads s thread_id);
          s = upd_queue target refresh_sizes s;
          cuckoo = target + total_threads (ml_threads s thread_id);
          s = upd_queue cuckoo refresh_sizes s;
          tq = ml_queues s target;
          cq = ml_queues s cuckoo;
          freq1 = freq_distribution tq 1 + g_dist (qi_ghost tq) 1 + freq_distribution cq 1;
          freq2 = freq_distribution tq 2 + g_dist (qi_ghost tq) 2 + freq_distribution cq 2;
          queue_size = total_size tq + total_size cq;
          threshold = (if exceeds freq2 queue_size then 3 else if exceeds freq1 queue_size then 2 else 1)
      in s\<lparr>ml_threads := (ml_threads s)(thread_id := (ml_threads s thread_id)\<lparr>hotness_threshold := threshold\<rparr>)\<rparr>)"

section \<open>Eviction\<close>

definition pop_tail :: "nat \<Rightarrow> qkind \<Rightarrow> merlin_list \<Rightarrow> fnode option \<times> merlin_list" where
  "pop_tail i k s =
     (let (r, l) = lq_removeTail (fifo_of k (ml_queues s i)) in (r, upd_queue i (set_fifo k l) s))"

definition link_head :: "nat \<Rightarrow> qkind \<Rightarrow> fnode \<Rightarrow> merlin_list \<Rightarrow> merlin_list" where
  "link_head i k n s = upd_queue i (\<lambda>q. set_fifo k (lq_link n (fifo_of k q)) q) s"

text \<open>
  The loops of \<open>cuckooInsert\<close> end as soon as one of the two locks is free: the node goes to the preferred queue
  when its lock is free at the first try, and otherwise to one of the two; which one is up to the environment.
\<close>

definition cuckooInsert :: "fnode \<Rightarrow> qkind \<Rightarrow> nat \<Rightarrow> nat \<Rightarrow> bool \<Rightarrow> merlin_list \<Rightarrow> nat \<times> merlin_list" where
  "cuckooInsert n k fifo cuckoofifo cuckoofirst s =
     (let first = try_lock (ml_env s) (ml_tick s);
          s = s\<lparr>ml_tick := ml_tick s + 1\<rparr>
      in if cuckoofirst \<longleftrightarrow> first
         then (1, setCuckoo n (link_head cuckoofifo k n s))
         else (0, link_head fifo k n s))"

definition sketch_estimate :: "nat \<Rightarrow> fnode \<Rightarrow> merlin_list \<Rightarrow> merlin_list result" where
  "sketch_estimate i n s =
     bindE (estimate (hashNode n s) (qi_sketch (ml_queues s i))) (\<lambda>sk. Inr (upd_queue i (\<lambda>q. q\<lparr>qi_sketch := sk\<rparr>) s))"

definition sketch_getEstimate :: "nat \<Rightarrow> fnode \<Rightarrow> merlin_list \<Rightarrow> int result" where
  "sketch_getEstimate i n s =
     bindE (getEstimate (hashNode n s) (qi_sketch (ml_queues s i))) (\<lambda>v. Inr (sint (ucast v :: 32 word)))"

definition ghost_insert_node :: "nat \<Rightarrow> fnode \<Rightarrow> nat \<Rightarrow> merlin_list \<Rightarrow> merlin_list result" where
  "ghost_insert_node i n freq s =
     bindE (ghost_insert (ghost_cas (ml_env s) (ml_tick s)) (ghost_cas' (ml_env s) (ml_tick s)) (hashNode n s) freq (qi_ghost (ml_queues s i)))
       (\<lambda>g. Inr (upd_queue i (\<lambda>q. q\<lparr>qi_ghost := g\<rparr>) (s\<lparr>ml_tick := ml_tick s + 1\<rparr>)))"

definition core_size_inc :: "nat \<Rightarrow> merlin_list \<Rightarrow> merlin_list" where
  "core_size_inc i = upd_queue i (\<lambda>q. q\<lparr>core_size := core_size q + 1\<rparr>)"

text \<open>
  The ratios are 0.1 and 0.05 as doubles. Both constants are a little above the decimal value, by less than half a unit in
  the last place of a product, so below \<open>2\<^sup>4\<^sup>9\<close> nodes the comparisons are those of the exact ratios.
\<close>

definition filter_over :: "nat \<Rightarrow> merlin_list \<Rightarrow> bool" where
  "filter_over target s \<longleftrightarrow> filter_size (ml_queues s target) * 10 > total_size (ml_queues s target)"

definition staging_over :: "nat \<Rightarrow> merlin_list \<Rightarrow> bool" where
  "staging_over target s \<longleftrightarrow>
     staging_size (ml_queues s target) > 32 \<or> staging_size (ml_queues s target) * 20 > total_size (ml_queues s target)"

text \<open>A stage of the loop returns a victim, starts the next round, or goes on to the next stage with the count of retries.\<close>

datatype evict_step = Victim fnode merlin_list | Round nat merlin_list | Stage nat merlin_list

text \<open>What happens to a hot node of the filter.\<close>

definition filter_promote :: "nat \<Rightarrow> nat \<Rightarrow> nat \<Rightarrow> nat \<Rightarrow> fnode \<Rightarrow> merlin_list \<Rightarrow> merlin_list" where
  "filter_promote target thread_id ori cuckoo n s =
     (let s = unSetFilter n s;
          (ret, s) = cuckooInsert n Core ori cuckoo (target = cuckoo) s;
          s = setCore n s;
          (_, s) = clearFreq n thread_id s
      in core_size_inc (if ret = 0 then ori else cuckoo) s)"

text \<open>Whether a cold node of the filter takes the place of the cold tail of the staging queue.\<close>

definition filter_wins :: "nat \<Rightarrow> fnode \<Rightarrow> fnode \<Rightarrow> merlin_list \<Rightarrow> bool result" where
  "filter_wins ori n tailptr s =
     (if getFreq tailptr s = 0
      then bindE (sketch_getEstimate ori n s) (\<lambda>est_curr.
             if est_curr < 0x3f then bindE (sketch_getEstimate ori tailptr s) (\<lambda>est_tail. Inr (est_curr > est_tail))
             else Inr False)
      else Inr False)"

definition filter_demote :: "nat \<Rightarrow> nat \<Rightarrow> nat \<Rightarrow> fnode \<Rightarrow> nat \<Rightarrow> merlin_list \<Rightarrow> (fnode \<times> merlin_list) result" where
  "filter_demote target ori cuckoo n curr_freq s =
     (let s = (if curr_freq \<ge> 2 then freq_add_to target 2 (- 1) s else s);
          s = (if curr_freq \<ge> 1 then freq_add_to target 1 (- 1) s else s)
      in bindE (ghost_insert_node ori n curr_freq s) (\<lambda>s.
           let (tailptr, s) = (if staging_over target s then pop_tail target Staging s else (None, s))
           in case tailptr of
                None \<Rightarrow> Inr (n, s)
              | Some tail \<Rightarrow>
                  bindE (filter_wins ori n tail s) (\<lambda>wins.
                    if wins
                    then let s = unSetFilter n s;
                             (_, s) = cuckooInsert n Staging ori cuckoo (target = cuckoo) s
                         in bindE (sketch_estimate ori n s) (\<lambda>s. Inr (tail, resetFreq n s))
                    else Inr (n, snd (cuckooInsert tail Staging ori cuckoo (target = cuckoo) s)))))"

definition filter_stage :: "nat \<Rightarrow> nat \<Rightarrow> nat \<Rightarrow> nat \<Rightarrow> nat \<Rightarrow> merlin_list \<Rightarrow> evict_step result" where
  "filter_stage target thread_id ori cuckoo i s =
     (if filter_over target s
      then case pop_tail target Filter s of
             (None, s) \<Rightarrow> Inr (Stage (i + 1) s)
           | (Some n, s) \<Rightarrow>
               let s = upd_queue target (\<lambda>q. q\<lparr>filter_size := filter_size q - 1\<rparr>) s;
                   curr_freq = getFreq n s
               in bindE (sketch_estimate ori n s) (\<lambda>s.
                    if curr_freq \<ge> hotness_threshold (ml_threads s thread_id)
                    then Inr (Round i (filter_promote target thread_id ori cuckoo n s))
                    else bindE (filter_demote target ori cuckoo n curr_freq s) (\<lambda>(v, s). Inr (Victim v s)))
      else Inr (Stage i s))"

definition staging_stage :: "nat \<Rightarrow> nat \<Rightarrow> nat \<Rightarrow> nat \<Rightarrow> nat \<Rightarrow> merlin_list \<Rightarrow> evict_step result" where
  "staging_stage target thread_id ori cuckoo i s =
     (if staging_over target s
      then case pop_tail target Staging s of
             (None, s) \<Rightarrow> Inr (Stage (i + 1) s)
           | (Some n, s) \<Rightarrow>
               let s = upd_queue target (\<lambda>q. q\<lparr>staging_size := staging_size q - 1\<rparr>) s;
                   (retval, s) = decFreq n thread_id s
               in if retval = - 1 then Inr (Victim n s)
                  else let (ret, s) = cuckooInsert n Core ori cuckoo (target = cuckoo) s;
                           s = core_size_inc (if ret = 0 then ori else cuckoo) s;
                           s = setCore n s
                       in bindE (sketch_estimate ori n s) (\<lambda>s. Inr (Round i s))
      else Inr (Stage i s))"

definition core_stage :: "nat \<Rightarrow> nat \<Rightarrow> nat \<Rightarrow> nat \<Rightarrow> nat \<Rightarrow> merlin_list \<Rightarrow> evict_step" where
  "core_stage target thread_id ori cuckoo i s =
     (case pop_tail target Core s of
        (None, s) \<Rightarrow> Round (i + 1) s
      | (Some n, s) \<Rightarrow>
          let s = upd_queue target (\<lambda>q. q\<lparr>core_size := core_size q - 1\<rparr>) s;
              (retval, s) = decFreq n thread_id s
          in if retval = - 1 then Victim n s
             else let s = core_size_inc target s;
                      (ret, s) = cuckooInsert n Core ori cuckoo (target = cuckoo) s
                  in Round i (core_size_inc (if ret = 0 then ori else cuckoo) s))"

definition evict_round :: "nat \<Rightarrow> nat \<Rightarrow> nat \<Rightarrow> nat \<Rightarrow> nat \<Rightarrow> merlin_list \<Rightarrow> evict_step result" where
  "evict_round target thread_id ori cuckoo i s =
     bindE (filter_stage target thread_id ori cuckoo i s) (\<lambda>r.
       case r of
         Stage i s \<Rightarrow>
           bindE (staging_stage target thread_id ori cuckoo i s) (\<lambda>r.
             case r of Stage i s \<Rightarrow> Inr (core_stage target thread_id ori cuckoo i s) | r \<Rightarrow> Inr r)
       | r \<Rightarrow> Inr r)"

partial_function (option) evict_loop ::
  "nat \<Rightarrow> nat \<Rightarrow> nat \<Rightarrow> nat \<Rightarrow> nat \<Rightarrow> merlin_list \<Rightarrow> (fnode option \<times> merlin_list) outcome" where
  "evict_loop target thread_id ori cuckoo i s =
     (if i < MAX_RETRIES
      then bindO (Some (evict_round target thread_id ori cuckoo i s)) (\<lambda>r.
             case r of
               Victim n s \<Rightarrow> Some (Inr (Some n, s))
             | Round i s \<Rightarrow> evict_loop target thread_id ori cuckoo i s
             | Stage i s \<Rightarrow> evict_loop target thread_id ori cuckoo i s)
      else Some (Inr (None, s)))"

definition getEviction_fromqueue ::
  "nat \<Rightarrow> nat \<Rightarrow> nat \<Rightarrow> nat \<Rightarrow> merlin_list \<Rightarrow> (fnode option \<times> merlin_list) outcome" where
  "getEviction_fromqueue target thread_id ori cuckoo s = evict_loop target thread_id ori cuckoo 0 s"

definition evict_shard :: "nat \<Rightarrow> merlin_list \<Rightarrow> nat" where
  "evict_shard thread_id s =
     (let queue_id = target_queue (ml_threads s thread_id);
          cuckoo_queue_id = queue_id + total_threads (ml_threads s thread_id)
      in if total_size (ml_queues s queue_id) > total_size (ml_queues s cuckoo_queue_id) then queue_id else cuckoo_queue_id)"

partial_function (option) getEviction_threadlocal :: "nat \<Rightarrow> merlin_list \<Rightarrow> (fnode \<times> merlin_list) outcome" where
  "getEviction_threadlocal thread_id s =
     (let queue_id = target_queue (ml_threads s thread_id);
          cuckoo_queue_id = queue_id + total_threads (ml_threads s thread_id)
      in bindO (getEviction_fromqueue (evict_shard thread_id s) thread_id queue_id cuckoo_queue_id s) (\<lambda>(r, s).
           case r of Some n \<Rightarrow> Some (Inr (n, s)) | None \<Rightarrow> getEviction_threadlocal thread_id s))"

definition init_gs :: "nat \<Rightarrow> merlin_list \<Rightarrow> merlin_list" where
  "init_gs thread_id s =
     (let total = total_threads (ml_threads s thread_id);
          average_size = ml_size s div total + 1;
          qs = ml_queues s
      in s\<lparr>ml_queues := (\<lambda>i.
             if i < total
             then let size = of_nat (max average_size (queue_sizes (qs i) + queue_sizes (qs (i + total))))
                  in (qs i)\<lparr>qi_ghost := ghost_initHashtable (ghost_setFIFOSize size (qi_ghost (qs i))),
                            qi_sketch := sketch_initHashtable (sketch_setFIFOSize size (qi_sketch (qs i))),
                            gs_initialized := True\<rparr>
             else qs i),
           initialized_gs := True\<rparr>)"

definition prepare :: "nat \<Rightarrow> merlin_list \<Rightarrow> merlin_list" where
  "prepare thread_id s =
     (let s = (if \<not> initialized_gs s then init_gs thread_id s else s);
          s = (if th_numInserts (ml_threads s thread_id) mod 1024 = 0 then updateLocal thread_id s else s)
      in s\<lparr>ml_threads := (ml_threads s)(thread_id := (ml_threads s thread_id)\<lparr>th_numInserts := th_numInserts (ml_threads s thread_id) + 1\<rparr>)\<rparr>)"

definition getEvictionCandidate :: "nat \<Rightarrow> merlin_list \<Rightarrow> (fnode \<times> merlin_list) outcome" where
  "getEvictionCandidate thread_id s = getEviction_threadlocal thread_id (prepare thread_id s)"

section \<open>Insertion and removal\<close>

definition ghost_history :: "nat \<Rightarrow> fnode \<Rightarrow> merlin_list \<Rightarrow> (nat \<times> merlin_list) result" where
  "ghost_history i n s =
     (if gs_initialized (ml_queues s i)
      then bindE (ghost_contains (ghost_cas (ml_env s) (ml_tick s)) (hashNode n s) (qi_ghost (ml_queues s i))) (\<lambda>(r, g).
             Inr (r, upd_queue i (\<lambda>q. q\<lparr>qi_ghost := g\<rparr>) (s\<lparr>ml_tick := ml_tick s + 1\<rparr>)))
      else Inr (0, s))"

definition ml_add :: "fnode \<Rightarrow> nat \<Rightarrow> merlin_list \<Rightarrow> merlin_list result" where
  "ml_add n thread_id s =
     (let total = total_threads (ml_threads s thread_id);
          queue_id = getQueueID n thread_id s;
          cuckoo_queue_id = queue_id + total
      in if cuckoo_queue_id \<ge> QUEUE_NUM then Inl OutOfBounds
         else bindE (ghost_history (queue_id mod total) n s) (\<lambda>(hist_freq, s).
           Inr (if hist_freq > 0
                then if hist_freq \<ge> hotness_threshold (ml_threads s thread_id)
                     then let (_, s) = cuckooInsert n Core queue_id cuckoo_queue_id False s
                          in setFreq n hist_freq thread_id (unSetFilter n (setCore n s))
                     else let (_, s) = cuckooInsert n Staging queue_id cuckoo_queue_id False s
                          in resetFreq n (unSetFilter n (unSetCore n s))
                else let (_, s) = cuckooInsert n Filter queue_id cuckoo_queue_id False s
                     in resetFreq n (unSetCore n (setFilter n s)))))"

text \<open>
  The list that \<open>remove\<close> asks for the node is the one its flags name. A node that is in no list has an empty
  hook, and its removal does nothing; one that is in another list is unlinked from that list through its hook, behind the
  back of the list's own head and tail.
\<close>

definition in_some_queue :: "fnode \<Rightarrow> merlin_list \<Rightarrow> bool" where
  "in_some_queue n s \<longleftrightarrow>
     list_ex (\<lambda>i. list_ex (\<lambda>k. n \<in> set (lq_items (fifo_of k (ml_queues s i)))) [Filter, Staging, Core]) [0..<QUEUE_NUM]"

definition kind_of :: "fnode \<Rightarrow> merlin_list \<Rightarrow> qkind" where
  "kind_of n s = (if isFilter n s then Filter else if isCore n s then Core else Staging)"

definition ml_remove :: "fnode \<Rightarrow> nat \<Rightarrow> merlin_list \<Rightarrow> merlin_list result" where
  "ml_remove n thread_id s =
     (let queue_id = getQueueID n thread_id s;
          freq = getFreq n s;
          k = kind_of n s;
          l = fifo_of k (ml_queues s queue_id)
      in bindE (if n \<in> set (lq_items l) then lq_remove n l
                else if in_some_queue n s then Inl ListCorrupt else Inr l) (\<lambda>l.
           let s = upd_queue queue_id (set_fifo k l) s;
               s = (if freq \<ge> 2 then freq_add_to queue_id 2 (- 1) s else s)
           in Inr (if freq \<ge> 1 then freq_add_to queue_id 1 (- 1) s else s)))"

end
