(* ===== verification/Merlin_List_Evict.thy ===== *)
theory Merlin_List_Evict
  imports Merlin_List "HOL-Library.Multiset"
begin

text \<open>
  What the operations of \<open>MerlinList\<close> do to the resident nodes. A search for a victim ends, moves nodes between the
  queues without losing or duplicating any, and takes exactly the victim away; when it can and when it cannot find one.
\<close>

section \<open>The resident nodes\<close>

definition qi_mset :: "queue_info \<Rightarrow> fnode multiset" where
  "qi_mset q = mset (lq_items (filterfifo q)) + mset (lq_items (corefifo q)) + mset (lq_items (stagingfifo q))"

definition ml_mset :: "merlin_list \<Rightarrow> fnode multiset" where
  "ml_mset s = (\<Sum>i<QUEUE_NUM. qi_mset (ml_queues s i))"

definition gs_ok :: "nat \<Rightarrow> merlin_list \<Rightarrow> bool" where
  "gs_ok i s \<longleftrightarrow> ghost_table_ok (qi_ghost (ml_queues s i)) \<and> sketch_ok (qi_sketch (ml_queues s i))"

text \<open>What no operation of a search changes.\<close>

definition static :: "merlin_list \<Rightarrow> merlin_list \<Rightarrow> bool" where
  "static s s' \<longleftrightarrow>
     ml_threads s' = ml_threads s \<and> ml_env s' = ml_env s \<and> (\<forall>n. hashNode n s' = hashNode n s) \<and>
     initialized_gs s' = initialized_gs s \<and> (\<forall>i. gs_initialized (ml_queues s' i) = gs_initialized (ml_queues s i)) \<and>
     (\<forall>i. total_size (ml_queues s' i) = total_size (ml_queues s i)) \<and> (\<forall>i. gs_ok i s \<longrightarrow> gs_ok i s')"

lemma static_refl [simp]: "static s s"
  by (simp add: static_def)

lemma static_trans: "static s s' \<Longrightarrow> static s' s'' \<Longrightarrow> static s s''"
  by (simp add: static_def)

named_theorems ml_simps \<open>what the elementary updates do to the resident nodes and to the lists\<close>

lemma ml_mset_upd_queue:
  assumes "i < QUEUE_NUM"
  shows "ml_mset (upd_queue i f s) + qi_mset (ml_queues s i) = ml_mset s + qi_mset (f (ml_queues s i))"
proof -
  have "{..<QUEUE_NUM} = insert i ({..<QUEUE_NUM} - {i})" using assms by auto
  then have split: "(\<Sum>j<QUEUE_NUM. g j) = g i + (\<Sum>j \<in> {..<QUEUE_NUM} - {i}. g j)" for g :: "nat \<Rightarrow> fnode multiset"
    by (metis finite_Diff finite_lessThan insert_Diff_single sum.insert_remove)
  have "(\<Sum>j \<in> {..<QUEUE_NUM} - {i}. qi_mset (ml_queues (upd_queue i f s) j)) =
    (\<Sum>j \<in> {..<QUEUE_NUM} - {i}. qi_mset (ml_queues s j))"
    by (rule sum.cong) (simp_all add: upd_queue_def)
  then show ?thesis
    unfolding ml_mset_def split [of "\<lambda>j. qi_mset (ml_queues s j)"] split [of "\<lambda>j. qi_mset (ml_queues (upd_queue i f s) j)"]
    by (simp add: upd_queue_def)
qed

lemma ml_mset_upd_keep: "(\<And>q. qi_mset (f q) = qi_mset q) \<Longrightarrow> ml_mset (upd_queue i f s) = ml_mset s"
  unfolding ml_mset_def by (rule sum.cong) (simp_all add: upd_queue_def)

lemma ml_mset_cong [ml_simps]:
  "ml_mset (upd_ref n f s) = ml_mset s" "ml_mset (s\<lparr>ml_tick := t\<rparr>) = ml_mset s"
  by (simp_all add: ml_mset_def upd_ref_def)

lemma ml_mset_link [ml_simps]: "i < QUEUE_NUM \<Longrightarrow> ml_mset (link_head i k n s) = add_mset n (ml_mset s)"
  using ml_mset_upd_queue [of i "\<lambda>q. set_fifo k (lq_link n (fifo_of k q)) q" s]
  by (cases k) (simp_all add: link_head_def qi_mset_def lq_link_def)

lemma pop_tail_None: "pop_tail i k s = (None, s') \<longleftrightarrow> lq_items (fifo_of k (ml_queues s i)) = [] \<and> s' = s"
proof -
  have *: "upd_queue i (set_fifo k (fifo_of k (ml_queues s i))) s = s"
    by (cases k) (simp_all add: upd_queue_def)
  show ?thesis
    by (auto simp: pop_tail_def lq_removeTail_def * split: if_splits)
qed

lemma pop_tail_Some:
  assumes "pop_tail i k s = (Some n, s')"
  obtains xs where "lq_items (fifo_of k (ml_queues s i)) = xs @ [n]"
    "s' = upd_queue i (set_fifo k \<lparr>lq_items = xs, lq_next = Some n\<rparr>) s"
proof (cases "lq_items (fifo_of k (ml_queues s i))" rule: rev_cases)
  case Nil
  then show ?thesis using assms by (simp add: pop_tail_def lq_removeTail_def)
next
  case (snoc xs x)
  then have "x = n" "s' = upd_queue i (set_fifo k ((fifo_of k (ml_queues s i))\<lparr>lq_items := xs, lq_next := Some n\<rparr>)) s"
    using assms by (auto simp: pop_tail_def lq_removeTail_def)
  then show ?thesis
    using snoc that by (cases "fifo_of k (ml_queues s i)") simp
qed

lemma ml_mset_pop:
  assumes "i < QUEUE_NUM" "pop_tail i k s = (Some n, s')"
  shows "ml_mset s = add_mset n (ml_mset s')"
proof -
  obtain xs where xs: "lq_items (fifo_of k (ml_queues s i)) = xs @ [n]"
    "s' = upd_queue i (set_fifo k \<lparr>lq_items = xs, lq_next = Some n\<rparr>) s"
    using assms(2) by (rule pop_tail_Some)
  have "qi_mset (ml_queues s i) = add_mset n (qi_mset (set_fifo k \<lparr>lq_items = xs, lq_next = Some n\<rparr> (ml_queues s i)))"
    using xs(1) by (cases k) (simp_all add: qi_mset_def)
  then show ?thesis
    using ml_mset_upd_queue [OF assms(1), of "set_fifo k \<lparr>lq_items = xs, lq_next = Some n\<rparr>" s] xs(2) by simp
qed

lemma static_upd_queue:
  assumes "\<And>q. total_size (f q) = total_size q" "\<And>q. qi_ghost (f q) = qi_ghost q" "\<And>q. qi_sketch (f q) = qi_sketch q"
    "\<And>q. gs_initialized (f q) = gs_initialized q"
  shows "static s (upd_queue i f s)"
  using assms by (auto simp: static_def upd_queue_def hashNode_def gs_ok_def)

lemma static_upd_ref: "static s (upd_ref n f s)"
  by (auto simp: static_def upd_ref_def hashNode_def gs_ok_def)

lemma static_tick: "static s (s\<lparr>ml_tick := t\<rparr>)"
  by (simp add: static_def hashNode_def gs_ok_def)

lemma static_set_fifo: "static s (upd_queue i (\<lambda>q. set_fifo k (g q) q) s)"
  by (cases k) (auto intro: static_upd_queue)

lemma static_pop: "pop_tail i k s = (r, s') \<Longrightarrow> static s s'"
  using static_set_fifo [of s i k "\<lambda>_. _"] by (auto simp: pop_tail_def split: prod.splits)

text \<open>The flags and frequencies of nodes: only the words change, and the counters.\<close>

lemma ref_of_simps [ml_simps]:
  "ref_of m (upd_ref n f s) = (if m = n then f (ref_of m s) else ref_of m s)"
  "ref_of m (upd_queue i g s) = ref_of m s" "ref_of m (s\<lparr>ml_tick := t\<rparr>) = ref_of m s"
  by (simp_all add: ref_of_def upd_ref_def upd_queue_def)

lemma ml_queues_simps [ml_simps]:
  "ml_queues (upd_ref n f s) = ml_queues s" "ml_queues (s\<lparr>ml_tick := t\<rparr>) = ml_queues s"
  "ml_queues (upd_queue i g s) j = (if j = i then g (ml_queues s i) else ml_queues s j)"
  by (simp_all add: upd_ref_def upd_queue_def)

lemma static_freq_add: "static s (freq_add_to i k d s)"
  unfolding freq_add_to_def by (rule static_upd_queue) simp_all

lemma freq_add_simps [ml_simps]:
  "ref_of m (freq_add_to i k d s) = ref_of m s" "ml_mset (freq_add_to i k d s) = ml_mset s"
  "fifo_of kd (ml_queues (freq_add_to i k d s) j) = fifo_of kd (ml_queues s j)"
  "filter_size (ml_queues (freq_add_to i k d s) j) = filter_size (ml_queues s j)"
  "staging_size (ml_queues (freq_add_to i k d s) j) = staging_size (ml_queues s j)"
  by (cases kd; auto simp: freq_add_to_def ml_simps qi_mset_def intro!: ml_mset_upd_keep)+

text \<open>
  The elementary operations keep everything but the words: the lists of nodes, and what \<open>static\<close> says.
\<close>

definition relabels :: "merlin_list \<Rightarrow> merlin_list \<Rightarrow> bool" where
  "relabels s s' \<longleftrightarrow>
     static s s' \<and> ml_mset s' = ml_mset s \<and> (\<forall>k j. fifo_of k (ml_queues s' j) = fifo_of k (ml_queues s j))"

lemma relabels_refl [simp]: "relabels s s"
  by (simp add: relabels_def)

lemma relabels_trans: "relabels s s' \<Longrightarrow> relabels s' s'' \<Longrightarrow> relabels s s''"
  using static_trans by (auto simp: relabels_def)

lemma relabels_upd_ref: "relabels s (upd_ref n f s)"
  by (simp add: relabels_def static_upd_ref ml_simps)

lemma relabels_freq_add: "relabels s (freq_add_to i k d s)"
  by (simp add: relabels_def static_freq_add ml_simps)

lemma relabels_flags:
  "relabels s (setFilter n s)" "relabels s (unSetFilter n s)" "relabels s (setCore n s)" "relabels s (unSetCore n s)"
  "relabels s (setCuckoo n s)" "relabels s (resetFreq n s)"
  by (simp_all add: setFilter_def unSetFilter_def setCore_def unSetCore_def setCuckoo_def resetFreq_def relabels_upd_ref)

lemma decFreq_relabels:
  assumes "decFreq n t s = (r, s')"
  shows "relabels s s'" "r = int (getFreq n s) - 1" "getFreq n s' = getFreq n s - 1" "m \<noteq> n \<Longrightarrow> ref_of m s' = ref_of m s"
proof -
  have s': "r = int (getFreq n s) - 1"
    "s' = (let s1 = upd_ref n (\<lambda>v. snd (decFreq_word v)) s;
               s2 = (if getFreq n s = 2 then freq_add_to (getQueueID n t s) 2 (- 1) s1 else s1)
           in if getFreq n s = 1 then freq_add_to (getQueueID n t s) 1 (- 1) s2 else s2)"
    using assms by (auto simp: decFreq_def Let_def decFreq_word_correct(1) getFreq_def)
  show "relabels s s'"
    unfolding s' Let_def by (auto intro: relabels_upd_ref relabels_trans [OF relabels_upd_ref relabels_freq_add])
  show "r = int (getFreq n s) - 1" by (rule s')
  show "getFreq n s' = getFreq n s - 1" "m \<noteq> n \<Longrightarrow> ref_of m s' = ref_of m s"
    unfolding s' by (auto simp: Let_def getFreq_def ml_simps decFreq_word_correct(2))
qed

lemma clearFreq_relabels:
  assumes "clearFreq n t s = (r, s')"
  shows "relabels s s'" "getFreq n s' = 0" "m \<noteq> n \<Longrightarrow> ref_of m s' = ref_of m s"
proof -
  have s': "s' = (let s1 = upd_ref n (\<lambda>v. snd (clearFreq_word v)) s;
               s2 = (if getFreq n s \<ge> 2 then freq_add_to (getQueueID n t s) 2 (- 1) s1 else s1)
           in if getFreq n s \<ge> 1 then freq_add_to (getQueueID n t s) 1 (- 1) s2 else s2)"
    using assms by (auto simp: clearFreq_def Let_def clearFreq_word_correct(1) getFreq_def)
  show "relabels s s'"
    unfolding s' Let_def
    by (auto intro: relabels_upd_ref relabels_trans [OF relabels_upd_ref relabels_freq_add]
        relabels_trans [OF relabels_trans [OF relabels_upd_ref relabels_freq_add] relabels_freq_add])
  show "getFreq n s' = 0" "m \<noteq> n \<Longrightarrow> ref_of m s' = ref_of m s"
    unfolding s' by (auto simp: Let_def getFreq_def ml_simps clearFreq_word_correct(2))
qed

lemma getFreq_cong:
  assumes "\<And>n. 21 \<le> n \<Longrightarrow> n < 24 \<Longrightarrow> bit v n = bit w n"
  shows "getFreq_word v = getFreq_word w"
proof -
  have "take_bit 3 (drop_bit 21 v) = take_bit 3 (drop_bit 21 w)"
    by (rule bit_eqI) (auto simp: bit_simps assms)
  then show ?thesis
    by (simp only: getFreq_take)
qed

lemma flag_bits: "flag_bit kMMFlag0 = 19" "flag_bit kMMFlag1 = 20" "flag_bit kMMFlag5 = 24"
  by (simp_all add: flag_bit.simps kNumAccessRefBits_def kNumAdminRefBits_def)

lemma getFreq_flags [ml_simps]:
  "f \<in> {kMMFlag0, kMMFlag1, kMMFlag5} \<Longrightarrow> getFreq_word (setFlag f v) = getFreq_word v"
  "f \<in> {kMMFlag0, kMMFlag1, kMMFlag5} \<Longrightarrow> getFreq_word (unSetFlag f v) = getFreq_word v"
  by (auto intro!: getFreq_cong simp: ref_simps flag_bits)

lemma getFreq_node_flags [ml_simps]:
  "getFreq m (setFilter n s) = getFreq m s" "getFreq m (unSetFilter n s) = getFreq m s" "getFreq m (setCore n s) = getFreq m s"
  "getFreq m (unSetCore n s) = getFreq m s" "getFreq m (setCuckoo n s) = getFreq m s" "getFreq m (upd_queue i g s) = getFreq m s"
  by (simp_all add: getFreq_def setFilter_def unSetFilter_def setCore_def unSetCore_def setCuckoo_def ml_simps)

text \<open>The two tables beside the queues.\<close>

lemma estimate_ok: "sketch_ok sk \<Longrightarrow> \<exists>sk'. estimate key sk = Inr sk' \<and> sketch_ok sk'"
  by (auto simp: estimate_def sketch_ok_def Let_def sketch_getBucketIdx_def halve_slot_def)

lemma sketch_estimate_relabels:
  assumes "gs_ok i s"
  shows "\<exists>s'. sketch_estimate i n s = Inr s' \<and> relabels s s' \<and> (\<forall>m. ref_of m s' = ref_of m s)"
proof -
  obtain sk where sk: "estimate (hashNode n s) (qi_sketch (ml_queues s i)) = Inr sk" "sketch_ok sk"
    using assms estimate_ok by (auto simp: gs_ok_def)
  let ?s = "upd_queue i (\<lambda>q. q\<lparr>qi_sketch := sk\<rparr>) s"
  have "static s ?s"
    using sk(2) by (auto simp: static_def hashNode_def upd_queue_def gs_ok_def)
  moreover have "ml_mset ?s = ml_mset s"
    by (rule ml_mset_upd_keep) (simp add: qi_mset_def)
  moreover have "fifo_of k (ml_queues ?s j) = fifo_of k (ml_queues s j)" for k j
    by (cases k) (simp_all add: ml_simps)
  ultimately have "relabels s ?s"
    by (simp add: relabels_def)
  then show ?thesis
    by (simp add: sketch_estimate_def sk(1) ml_simps)
qed

lemma sketch_getEstimate_ok: "gs_ok i s \<Longrightarrow> \<exists>v. sketch_getEstimate i n s = Inr v"
  by (auto simp: gs_ok_def sketch_ok_def sketch_getEstimate_def getEstimate_def sketch_getBucketIdx_def Let_def)

lemma ghost_insert_relabels:
  assumes "gs_ok i s" "freq \<le> MAX_FREQ"
  shows "\<exists>s'. ghost_insert_node i n freq s = Inr s' \<and> relabels s s' \<and> (\<forall>m. ref_of m s' = ref_of m s)"
proof -
  obtain g where g: "ghost_insert (ghost_cas (ml_env s) (ml_tick s)) (ghost_cas' (ml_env s) (ml_tick s)) (hashNode n s) freq
      (qi_ghost (ml_queues s i)) = Inr g" "ghost_table_ok g"
    using ghost_insert_ok [OF _ assms(2)] assms(1) by (fastforce simp: gs_ok_def)
  let ?s = "upd_queue i (\<lambda>q. q\<lparr>qi_ghost := g\<rparr>) (s\<lparr>ml_tick := ml_tick s + 1\<rparr>)"
  have "static s ?s"
    using g(2) by (auto simp: static_def hashNode_def upd_queue_def gs_ok_def)
  moreover have "ml_mset ?s = ml_mset s"
    by (subst ml_mset_upd_keep) (simp_all add: qi_mset_def ml_simps)
  moreover have "fifo_of k (ml_queues ?s j) = fifo_of k (ml_queues s j)" for k j
    by (cases k) (simp_all add: ml_simps)
  ultimately have "relabels s ?s"
    by (simp add: relabels_def)
  then show ?thesis
    by (simp add: ghost_insert_node_def g(1) ml_simps)
qed

text \<open>Where a node goes.\<close>

lemma cuckooInsert_links:
  assumes "cuckooInsert n k a b c s = (ret, s')" "a < QUEUE_NUM" "b < QUEUE_NUM"
  shows "static s s'" "ml_mset s' = add_mset n (ml_mset s)" "getFreq m s' = getFreq m s"
    "\<exists>j \<in> {a, b}. \<forall>kd i. lq_items (fifo_of kd (ml_queues s' i)) =
       (if kd = k \<and> i = j then n # lq_items (fifo_of kd (ml_queues s i)) else lq_items (fifo_of kd (ml_queues s i)))"
proof -
  have sl: "static s (link_head j k n (s\<lparr>ml_tick := ml_tick s + 1\<rparr>))" for j
    unfolding link_head_def by (rule static_trans [OF static_tick static_set_fifo])
  have it: "lq_items (fifo_of kd (ml_queues (link_head j k n (s\<lparr>ml_tick := ml_tick s + 1\<rparr>)) i)) =
       (if kd = k \<and> i = j then n # lq_items (fifo_of kd (ml_queues s i)) else lq_items (fifo_of kd (ml_queues s i)))" for j kd i
    by (cases k; cases kd) (simp_all add: link_head_def ml_simps lq_link_def)
  have fr: "getFreq m (link_head j k n (s\<lparr>ml_tick := ml_tick s + 1\<rparr>)) = getFreq m s" for j
    by (simp add: link_head_def getFreq_def ml_simps)
  note rc = relabels_flags(5) [of _ n, unfolded relabels_def]
  show "static s s'"
    using assms(1) sl static_trans [OF sl] rc by (auto simp: cuckooInsert_def Let_def split: if_splits)
  show "ml_mset s' = add_mset n (ml_mset s)"
    using assms rc by (auto simp: cuckooInsert_def Let_def ml_simps split: if_splits)
  show "getFreq m s' = getFreq m s"
    using assms(1) fr by (auto simp: cuckooInsert_def Let_def ml_simps split: if_splits)
  show "\<exists>j \<in> {a, b}. \<forall>kd i. lq_items (fifo_of kd (ml_queues s' i)) =
       (if kd = k \<and> i = j then n # lq_items (fifo_of kd (ml_queues s i)) else lq_items (fifo_of kd (ml_queues s i)))"
    using assms(1) it rc by (auto simp: cuckooInsert_def Let_def split: if_splits)
qed

section \<open>The stages of a search\<close>

text \<open>What bounds the search in a shard: the nodes outside its core, and the frequencies in it.\<close>

definition outside :: "nat \<Rightarrow> merlin_list \<Rightarrow> nat" where
  "outside i s = length (lq_items (filterfifo (ml_queues s i))) + length (lq_items (stagingfifo (ml_queues s i)))"

definition warmth :: "nat \<Rightarrow> merlin_list \<Rightarrow> nat" where
  "warmth i s = sum_list (map (\<lambda>n. getFreq n s) (lq_items (corefifo (ml_queues s i))))"

lemma outside_fifo: "outside i s = length (lq_items (fifo_of Filter (ml_queues s i))) + length (lq_items (fifo_of Staging (ml_queues s i)))"
  by (simp add: outside_def)

lemma relabelsD:
  assumes "relabels s s'"
  shows "static s s'" "ml_mset s' = ml_mset s" "fifo_of k (ml_queues s' j) = fifo_of k (ml_queues s j)" "outside i s' = outside i s"
  using assms by (simp_all add: relabels_def outside_fifo)

definition step_ok :: "nat \<Rightarrow> nat \<Rightarrow> merlin_list \<Rightarrow> nat \<Rightarrow> evict_step \<Rightarrow> bool" where
  "step_ok target hot s i r \<longleftrightarrow>
     (case r of
        Victim v s' \<Rightarrow> static s s' \<and> ml_mset s = add_mset v (ml_mset s') \<and> getFreq v s' < hot
      | Round i' s' \<Rightarrow> i' = i \<and> static s s' \<and> ml_mset s' = ml_mset s \<and> outside target s' < outside target s
      | Stage i' s' \<Rightarrow> s' = s \<and> (i' = i \<or> i' = i + 1))"

lemma getFreq_le_MAX: "getFreq n s \<le> MAX_FREQ"
  by (simp add: getFreq_def getFreq_le)

lemma cuckooInsert_outside:
  assumes "cuckooInsert n Core a b c s = (ret, s')" "a < QUEUE_NUM" "b < QUEUE_NUM"
  shows "outside i s' = outside i s"
proof -
  obtain j where j: "lq_items (fifo_of kd (ml_queues s' i)) =
       (if kd = Core \<and> i = j then n # lq_items (fifo_of kd (ml_queues s i)) else lq_items (fifo_of kd (ml_queues s i)))" for kd i
    using cuckooInsert_links(4) [OF assms] by blast
  show ?thesis
    using j [of Filter i] j [of Staging i] by (simp add: outside_def)
qed

lemma filter_promote_ok:
  assumes "ori < QUEUE_NUM" "cuckoo < QUEUE_NUM"
  shows "static s (filter_promote target t ori cuckoo n s)" "ml_mset (filter_promote target t ori cuckoo n s) = add_mset n (ml_mset s)"
    "outside i (filter_promote target t ori cuckoo n s) = outside i s"
proof -
  obtain ret s1 where s1: "cuckooInsert n Core ori cuckoo (target = cuckoo) (unSetFilter n s) = (ret, s1)"
    by (cases "cuckooInsert n Core ori cuckoo (target = cuckoo) (unSetFilter n s)")
  obtain r s2 where s2: "clearFreq n t (setCore n s1) = (r, s2)"
    by (cases "clearFreq n t (setCore n s1)")
  note c = cuckooInsert_links [OF s1 assms]
  have p: "filter_promote target t ori cuckoo n s = core_size_inc (if ret = 0 then ori else cuckoo) s2"
    by (simp add: filter_promote_def Let_def s1 s2)
  have k: "relabels s2 (core_size_inc j s2)" for j
    unfolding core_size_inc_def relabels_def
    by (auto intro!: static_upd_queue ml_mset_upd_keep simp: qi_mset_def ml_simps) (case_tac k; simp)+
  have r: "relabels s1 (filter_promote target t ori cuckoo n s)"
    unfolding p by (rule relabels_trans [OF relabels_trans [OF relabels_flags(3) clearFreq_relabels(1) [OF s2]] k])
  note u = relabelsD [OF relabels_flags(2) [of s n]]
  show "static s (filter_promote target t ori cuckoo n s)"
    by (rule static_trans [OF static_trans [OF u(1) c(1)] relabelsD(1) [OF r]])
  show "ml_mset (filter_promote target t ori cuckoo n s) = add_mset n (ml_mset s)"
    using relabelsD(2) [OF r] c(2) u(2) by simp
  have "outside i s1 = outside i (unSetFilter n s)"
    using cuckooInsert_outside [OF s1 assms] .
  then show "outside i (filter_promote target t ori cuckoo n s) = outside i s"
    using relabelsD(4) [OF r] u(4) by simp
qed

lemma filter_wins_ok: "gs_ok ori s \<Longrightarrow> \<exists>b. filter_wins ori n m s = Inr b"
  using sketch_getEstimate_ok [of ori s n] sketch_getEstimate_ok [of ori s m] by (auto simp: filter_wins_def)

lemma filter_wins_cold: "filter_wins ori n m s = Inr True \<Longrightarrow> getFreq m s = 0"
  by (auto simp: filter_wins_def split: if_splits)

lemma freq_sub_relabels:
  "relabels s (let s1 = (if f \<ge> 2 then freq_add_to i 2 d s else s) in if f \<ge> 1 then freq_add_to i 1 d s1 else s1)"
  "ref_of m (let s1 = (if f \<ge> 2 then freq_add_to i 2 d s else s) in if f \<ge> 1 then freq_add_to i 1 d s1 else s1) = ref_of m s" for f :: nat
  by (auto simp: Let_def ml_simps intro: relabels_freq_add relabels_trans [OF relabels_freq_add relabels_freq_add])

text \<open>
  The place of a cold filter node in the staging queue, or the eviction of the node.
\<close>

lemma demote_win:
  assumes "gs_ok ori s" "ori < QUEUE_NUM" "cuckoo < QUEUE_NUM" "getFreq m s = 0"
    "cuckooInsert n Staging ori cuckoo b (unSetFilter n s) = (ret, s1)"
  shows "\<exists>s'. bindE (sketch_estimate ori n s1) (\<lambda>s. Inr (m, resetFreq n s)) = Inr (m, s') \<and> static s s' \<and>
    ml_mset s' = add_mset n (ml_mset s) \<and> getFreq m s' = 0"
proof -
  note c = cuckooInsert_links [OF assms(5,2,3)]
  note u = relabelsD [OF relabels_flags(2) [of s n]]
  have st: "static s s1" by (rule static_trans [OF u(1) c(1)])
  then have "gs_ok ori s1" using assms(1) by (simp add: static_def)
  from sketch_estimate_relabels [OF this, of n] obtain s2 where
    s2: "sketch_estimate ori n s1 = Inr s2" "relabels s1 s2" "\<forall>x. ref_of x s2 = ref_of x s1" by blast
  note r = relabelsD [OF relabels_flags(6) [of s2 n]]
  have "getFreq m (resetFreq n s2) = 0"
    using s2(3) c(3) [of m] assms(4) by (auto simp: resetFreq_def getFreq_def ml_simps resetFreq_word_correct(1))
      (simp add: unSetFilter_def ml_simps)
  moreover have "static s (resetFreq n s2)"
    by (rule static_trans [OF static_trans [OF st relabelsD(1) [OF s2(2)]] r(1)])
  moreover have "ml_mset (resetFreq n s2) = add_mset n (ml_mset s)"
    using r(2) relabelsD(2) [OF s2(2)] c(2) u(2) by simp
  ultimately show ?thesis
    using s2(1) by simp
qed

lemma filter_demote_ok:
  assumes "gs_ok ori s" "target < QUEUE_NUM" "ori < QUEUE_NUM" "cuckoo < QUEUE_NUM" "getFreq n s < hot"
  shows "\<exists>v s'. filter_demote target ori cuckoo n (getFreq n s) s = Inr (v, s') \<and> static s s' \<and>
    add_mset n (ml_mset s) = add_mset v (ml_mset s') \<and> getFreq v s' < hot"
proof -
  let ?f = "getFreq n s"
  define s1 where "s1 = (let s1 = (if ?f \<ge> 2 then freq_add_to target 2 (- 1) s else s) in if ?f \<ge> 1 then freq_add_to target 1 (- 1) s1 else s1)"
  have s1: "relabels s s1" "ref_of m s1 = ref_of m s" for m
    unfolding s1_def by (rule freq_sub_relabels)+
  then have "gs_ok ori s1" using assms(1) by (simp add: relabels_def static_def)
  from ghost_insert_relabels [OF this getFreq_le_MAX] obtain s2 where
    s2: "ghost_insert_node ori n ?f s1 = Inr s2" "relabels s1 s2" "\<forall>m. ref_of m s2 = ref_of m s1" by blast
  have s02: "relabels s s2" by (rule relabels_trans [OF s1(1) s2(2)])
  have f2: "getFreq m s2 = getFreq m s" for m
    using s1(2) s2(3) by (simp add: getFreq_def)
  obtain tailptr s3 where p: "(if staging_over target s2 then pop_tail target Staging s2 else (None, s2)) = (tailptr, s3)"
    by (metis surj_pair)
  have e: "filter_demote target ori cuckoo n ?f s =
    (case tailptr of None \<Rightarrow> Inr (n, s3)
     | Some m \<Rightarrow> bindE (filter_wins ori n m s3) (\<lambda>wins.
         if wins then let s = unSetFilter n s3; (_, s) = cuckooInsert n Staging ori cuckoo (target = cuckoo) s
                      in bindE (sketch_estimate ori n s) (\<lambda>s. Inr (m, resetFreq n s))
         else Inr (n, snd (cuckooInsert m Staging ori cuckoo (target = cuckoo) s3))))"
    using s2(1) p unfolding s1_def by (simp add: filter_demote_def Let_def split: if_splits)
  show ?thesis
  proof (cases tailptr)
    case None
    then have "s3 = s2" using p by (auto simp: pop_tail_None split: if_splits)
    then show ?thesis
      using e None relabelsD [OF s02] f2 assms(5) by simp
  next
    case (Some m)
    then have pop: "pop_tail target Staging s2 = (Some m, s3)" using p by (auto split: if_splits)
    have st: "static s s3" by (rule static_trans [OF relabelsD(1) [OF s02] static_pop [OF pop]])
    then have gs: "gs_ok ori s3" using assms(1) by (simp add: static_def)
    have ms: "ml_mset s = add_mset m (ml_mset s3)"
      using ml_mset_pop [OF assms(2) pop] relabelsD(2) [OF s02] by simp
    have f3: "getFreq x s3 = getFreq x s" for x
      using pop f2 by (elim pop_tail_Some) (simp add: ml_simps)
    obtain b where b: "filter_wins ori n m s3 = Inr b"
      using filter_wins_ok [OF gs] by blast
    show ?thesis
    proof (cases b)
      case True
      obtain ret s4 where s4: "cuckooInsert n Staging ori cuckoo (target = cuckoo) (unSetFilter n s3) = (ret, s4)"
        by (cases "cuckooInsert n Staging ori cuckoo (target = cuckoo) (unSetFilter n s3)")
      have "getFreq m s3 = 0" using b True filter_wins_cold [of ori n m s3] by simp
      from demote_win [OF gs assms(3,4) this s4] show ?thesis
        using e Some b True s4 ms assms(5) static_trans [OF st] by (auto simp: Let_def)
    next
      case False
      obtain ret s4 where s4: "cuckooInsert m Staging ori cuckoo (target = cuckoo) s3 = (ret, s4)"
        by (cases "cuckooInsert m Staging ori cuckoo (target = cuckoo) s3")
      note c = cuckooInsert_links [OF s4 assms(3,4)]
      show ?thesis
        using e Some b False s4 ms static_trans [OF st c(1)] c(2) c(3) [of n] f3 assms(5) by simp
    qed
  qed
qed

lemma filter_stage_ok:
  assumes "gs_ok ori s" "target < QUEUE_NUM" "ori < QUEUE_NUM" "cuckoo < QUEUE_NUM"
  shows "\<exists>r. filter_stage target t ori cuckoo i s = Inr r \<and> step_ok target (hotness_threshold (ml_threads s t)) s i r"
proof (cases "filter_over target s")
  case False
  then show ?thesis by (simp add: filter_stage_def step_ok_def)
next
  case True
  obtain r s1 where p: "pop_tail target Filter s = (r, s1)" by (cases "pop_tail target Filter s")
  show ?thesis
  proof (cases r)
    case None
    then show ?thesis
      using True p pop_tail_None [of target Filter s s1] by (simp add: filter_stage_def step_ok_def)
  next
    case (Some n)
    obtain xs where xs: "lq_items (fifo_of Filter (ml_queues s target)) = xs @ [n]"
      "s1 = upd_queue target (set_fifo Filter \<lparr>lq_items = xs, lq_next = Some n\<rparr>) s"
      using p Some by (auto elim: pop_tail_Some)
    define s2 where "s2 = upd_queue target (\<lambda>q. q\<lparr>filter_size := filter_size q - 1\<rparr>) s1"
    have "static s1 s2" "ml_mset s2 = ml_mset s1"
      unfolding s2_def by (auto intro!: static_upd_queue ml_mset_upd_keep simp: qi_mset_def)
    then have s2: "static s s2" "ml_mset s = add_mset n (ml_mset s2)"
      using static_trans [OF static_pop [OF p]] ml_mset_pop [OF assms(2)] p Some by auto
    have o2: "outside target s2 < outside target s"
      using xs by (simp add: s2_def outside_def ml_simps)
    have "gs_ok ori s2" using s2(1) assms(1) by (simp add: static_def)
    from sketch_estimate_relabels [OF this, of n] obtain s3 where
      s3: "sketch_estimate ori n s2 = Inr s3" "relabels s2 s3" "\<forall>m. ref_of m s3 = ref_of m s2" by blast
    have f3: "getFreq n s3 = getFreq n s2" using s3(3) by (simp add: getFreq_def)
    note r3 = relabelsD [OF s3(2)]
    have st3: "static s s3" by (rule static_trans [OF s2(1) r3(1)])
    then have gs3: "gs_ok ori s3" and hot: "ml_threads s3 = ml_threads s" using assms(1) by (simp_all add: static_def)
    have e: "filter_stage target t ori cuckoo i s =
      (if getFreq n s2 \<ge> hotness_threshold (ml_threads s t) then Inr (Round i (filter_promote target t ori cuckoo n s3))
       else bindE (filter_demote target ori cuckoo n (getFreq n s2) s3) (\<lambda>(v, s). Inr (Victim v s)))"
      using True p Some s3(1) hot by (simp add: filter_stage_def Let_def s2_def)
    show ?thesis
    proof (cases "getFreq n s2 \<ge> hotness_threshold (ml_threads s t)")
      case True
      note pr = filter_promote_ok [OF assms(3,4)]
      show ?thesis
        using e True static_trans [OF st3 pr(1)] pr(2) [of target t n s3] pr(3) [of target target t n s3] r3 s2 o2
        by (simp add: step_ok_def)
    next
      case False
      then have "getFreq n s3 < hotness_threshold (ml_threads s t)" using f3 by simp
      from filter_demote_ok [OF gs3 assms(2-4) this] show ?thesis
        using e False f3 static_trans [OF st3] r3(2) s2(2) by (auto simp: step_ok_def)
    qed
  qed
qed

lemma relabels_core_size: "relabels s (upd_queue j (\<lambda>q. q\<lparr>core_size := f q\<rparr>) s)"
  unfolding relabels_def
  by (auto intro!: static_upd_queue ml_mset_upd_keep simp: qi_mset_def ml_simps) (case_tac k; simp)+

lemma getFreq_core_size [ml_simps]: "getFreq m (core_size_inc j s) = getFreq m s"
  by (simp add: core_size_inc_def ml_simps)

lemma relabels_core_size_inc: "relabels s (core_size_inc j s)"
  unfolding core_size_inc_def by (rule relabels_core_size)

lemma staging_stage_ok:
  assumes "gs_ok ori s" "target < QUEUE_NUM" "ori < QUEUE_NUM" "cuckoo < QUEUE_NUM" "0 < hot"
  shows "\<exists>r. staging_stage target t ori cuckoo i s = Inr r \<and> step_ok target hot s i r"
proof (cases "staging_over target s")
  case False
  then show ?thesis by (simp add: staging_stage_def step_ok_def)
next
  case True
  obtain r s1 where p: "pop_tail target Staging s = (r, s1)" by (cases "pop_tail target Staging s")
  show ?thesis
  proof (cases r)
    case None
    then show ?thesis
      using True p pop_tail_None [of target Staging s s1] by (simp add: staging_stage_def step_ok_def)
  next
    case (Some n)
    obtain xs where xs: "lq_items (fifo_of Staging (ml_queues s target)) = xs @ [n]"
      "s1 = upd_queue target (set_fifo Staging \<lparr>lq_items = xs, lq_next = Some n\<rparr>) s"
      using p Some by (auto elim: pop_tail_Some)
    define s2 where "s2 = upd_queue target (\<lambda>q. q\<lparr>staging_size := staging_size q - 1\<rparr>) s1"
    have "static s1 s2" "ml_mset s2 = ml_mset s1"
      unfolding s2_def by (auto intro!: static_upd_queue ml_mset_upd_keep simp: qi_mset_def)
    then have s2: "static s s2" "ml_mset s = add_mset n (ml_mset s2)"
      using static_trans [OF static_pop [OF p]] ml_mset_pop [OF assms(2)] p Some by auto
    have o2: "outside target s2 < outside target s"
      using xs by (simp add: s2_def outside_def ml_simps)
    obtain d s3 where s3: "decFreq n t s2 = (d, s3)" by (cases "decFreq n t s2")
    note d = decFreq_relabels [OF s3] and r3 = relabelsD [OF decFreq_relabels(1) [OF s3]]
    have st3: "static s s3" by (rule static_trans [OF s2(1) r3(1)])
    obtain ret s4 where s4: "cuckooInsert n Core ori cuckoo (target = cuckoo) s3 = (ret, s4)"
      by (cases "cuckooInsert n Core ori cuckoo (target = cuckoo) s3")
    note c = cuckooInsert_links [OF s4 assms(3,4)]
    define s5 where "s5 = setCore n (core_size_inc (if ret = 0 then ori else cuckoo) s4)"
    have r5: "relabels s4 s5"
      unfolding s5_def by (rule relabels_trans [OF relabels_core_size_inc relabels_flags(3)])
    have st5: "static s s5" by (rule static_trans [OF static_trans [OF st3 c(1)] relabelsD(1) [OF r5]])
    then have "gs_ok ori s5" using assms(1) by (simp add: static_def)
    from sketch_estimate_relabels [OF this, of n] obtain s6 where s6: "sketch_estimate ori n s5 = Inr s6" "relabels s5 s6" by blast
    have e: "staging_stage target t ori cuckoo i s = (if d = - 1 then Inr (Victim n s3) else Inr (Round i s6))"
      using True p Some s3 s4 s6(1) by (simp add: staging_stage_def Let_def s2_def s5_def)
    show ?thesis
    proof (cases "d = - 1")
      case True
      then show ?thesis
        using e st3 r3(2) s2(2) d(2,3) assms(5) by (simp add: step_ok_def)
    next
      case False
      have "outside target s6 = outside target s2"
        using relabelsD(4) [OF s6(2)] relabelsD(4) [OF r5] cuckooInsert_outside [OF s4 assms(3,4)] r3(4) by simp
      then show ?thesis
        using e False static_trans [OF st5 relabelsD(1) [OF s6(2)]] relabelsD(2) [OF s6(2)] relabelsD(2) [OF r5] c(2) r3(2) s2(2) o2
        by (simp add: step_ok_def)
    qed
  qed
qed

text \<open>A round in the core cools its tail, or finds the core empty.\<close>

definition core_ok :: "nat \<Rightarrow> nat \<Rightarrow> merlin_list \<Rightarrow> nat \<Rightarrow> evict_step \<Rightarrow> bool" where
  "core_ok target hot s i r \<longleftrightarrow>
     (case r of
        Victim v s' \<Rightarrow> static s s' \<and> ml_mset s = add_mset v (ml_mset s') \<and> getFreq v s' < hot
      | Round i' s' \<Rightarrow> static s s' \<and> ml_mset s' = ml_mset s \<and> outside target s' = outside target s \<and>
          (i' = i \<and> warmth target s' < warmth target s \<or> i' = i + 1 \<and> s' = s)
      | Stage i' s' \<Rightarrow> False)"

lemma warmth_drop:
  assumes "lq_items (corefifo (ml_queues s i)) = xs @ [n]" "getFreq n s > 0" "getFreq n s' < getFreq n s"
    "\<And>m. m \<noteq> n \<Longrightarrow> getFreq m s' = getFreq m s" "lq_items (corefifo (ml_queues s' i)) \<in> {xs, n # xs}"
  shows "warmth i s' < warmth i s"
proof -
  have "getFreq m s' \<le> getFreq m s" for m
    using assms(3,4) by (cases "m = n") auto
  then have "sum_list (map (\<lambda>m. getFreq m s') xs) \<le> sum_list (map (\<lambda>m. getFreq m s) xs)"
    by (intro sum_list_mono)
  then show ?thesis
    using assms(1,2,3,5) by (auto simp: warmth_def)
qed

lemma core_stage_ok:
  assumes "target < QUEUE_NUM" "ori < QUEUE_NUM" "cuckoo < QUEUE_NUM" "0 < hot"
  shows "core_ok target hot s i (core_stage target t ori cuckoo i s)"
proof -
  obtain r s1 where p: "pop_tail target Core s = (r, s1)" by (cases "pop_tail target Core s")
  show ?thesis
  proof (cases r)
    case None
    then show ?thesis
      using p pop_tail_None [of target Core s s1] by (simp add: core_stage_def core_ok_def)
  next
    case (Some n)
    obtain xs where xs: "lq_items (fifo_of Core (ml_queues s target)) = xs @ [n]"
      "s1 = upd_queue target (set_fifo Core \<lparr>lq_items = xs, lq_next = Some n\<rparr>) s"
      using p Some by (auto elim: pop_tail_Some)
    define s2 where "s2 = upd_queue target (\<lambda>q. q\<lparr>core_size := core_size q - 1\<rparr>) s1"
    have r2: "relabels s1 s2" unfolding s2_def by (rule relabels_core_size)
    have s2: "static s s2" "ml_mset s = add_mset n (ml_mset s2)"
      using static_trans [OF static_pop [OF p] relabelsD(1) [OF r2]] ml_mset_pop [OF assms(1)] p Some relabelsD(2) [OF r2] by auto
    obtain d s3 where s3: "decFreq n t s2 = (d, s3)" by (cases "decFreq n t s2")
    note d = decFreq_relabels [OF s3] and r3 = relabelsD [OF decFreq_relabels(1) [OF s3]]
    have st3: "static s s3" by (rule static_trans [OF s2(1) r3(1)])
    define s4 where "s4 = core_size_inc target s3"
    have r4: "relabels s3 s4" unfolding s4_def by (rule relabels_core_size_inc)
    obtain ret s5 where s5: "cuckooInsert n Core ori cuckoo (target = cuckoo) s4 = (ret, s5)"
      by (cases "cuckooInsert n Core ori cuckoo (target = cuckoo) s4")
    note c = cuckooInsert_links [OF s5 assms(2,3)]
    define s6 where "s6 = core_size_inc (if ret = 0 then ori else cuckoo) s5"
    have r6: "relabels s5 s6" unfolding s6_def by (rule relabels_core_size_inc)
    have e: "core_stage target t ori cuckoo i s = (if d = - 1 then Victim n s3 else Round i s6)"
      using p Some s3 s5 by (simp add: core_stage_def Let_def s2_def s4_def s6_def)
    show ?thesis
    proof (cases "d = - 1")
      case True
      then show ?thesis
        using e st3 r3(2) s2(2) d(2,3) assms(4) by (simp add: core_ok_def)
    next
      case False
      have f2: "getFreq m s2 = getFreq m s" for m
        by (simp add: s2_def xs(2) ml_simps)
      have f6: "getFreq m s6 = getFreq m s3" for m
        using c(3) [of m] by (simp add: s6_def s4_def ml_simps)
      have "warmth target s6 < warmth target s"
      proof (rule warmth_drop)
        show "lq_items (corefifo (ml_queues s target)) = xs @ [n]" using xs(1) by simp
        show "getFreq n s > 0" "getFreq n s6 < getFreq n s"
          using d(2,3) False f2 f6 by auto
        show "getFreq m s6 = getFreq m s" if "m \<noteq> n" for m
          using d(4) [OF that] f2 f6 by (simp add: getFreq_def)
        have "lq_items (fifo_of Core (ml_queues s4 target)) = xs"
          using relabelsD(3) [OF r4, of Core] r3(3) [of Core] relabelsD(3) [OF r2, of Core] by (simp add: xs(2) ml_simps)
        moreover have "lq_items (fifo_of Core (ml_queues s5 target)) \<in> {lq_items (fifo_of Core (ml_queues s4 target)), n # lq_items (fifo_of Core (ml_queues s4 target))}"
          using c(4) by (metis insertCI)
        ultimately show "lq_items (corefifo (ml_queues s6 target)) \<in> {xs, n # xs}"
          using relabelsD(3) [OF r6, of Core target] by simp
      qed
      moreover have "outside target s2 = outside target s"
        using relabelsD(4) [OF r2] by (simp add: xs(2) outside_def ml_simps)
      then have "outside target s6 = outside target s"
        using relabelsD(4) [OF r6] cuckooInsert_outside [OF s5 assms(2,3)] relabelsD(4) [OF r4] r3(4) by simp
      moreover have "static s s6"
        by (rule static_trans [OF static_trans [OF static_trans [OF st3 relabelsD(1) [OF r4]] c(1)] relabelsD(1) [OF r6]])
      moreover have "ml_mset s6 = ml_mset s"
        using relabelsD(2) [OF r6] c(2) relabelsD(2) [OF r4] r3(2) s2(2) by simp
      ultimately show ?thesis
        using e False by (simp add: core_ok_def)
    qed
  qed
qed

section \<open>A search in a shard ends\<close>

definition evict_measure :: "nat \<Rightarrow> (nat \<times> merlin_list) rel" where
  "evict_measure target =
     inv_image (less_than <*lex*> less_than <*lex*> less_than) (\<lambda>(i, s). (outside target s, warmth target s, MAX_RETRIES - i))"

lemma wf_evict_measure: "wf (evict_measure target)"
  unfolding evict_measure_def by (intro wf_inv_image wf_lex_prod wf_less_than)

definition round_ok :: "nat \<Rightarrow> nat \<Rightarrow> merlin_list \<Rightarrow> nat \<Rightarrow> evict_step \<Rightarrow> bool" where
  "round_ok target hot s i r \<longleftrightarrow>
     (case r of
        Victim v s' \<Rightarrow> static s s' \<and> ml_mset s = add_mset v (ml_mset s') \<and> getFreq v s' < hot
      | Round i' s' \<Rightarrow> static s s' \<and> ml_mset s' = ml_mset s \<and> ((i', s'), (i, s)) \<in> evict_measure target
      | Stage i' s' \<Rightarrow> False)"

lemma evict_round_ok:
  assumes "gs_ok ori s" "target < QUEUE_NUM" "ori < QUEUE_NUM" "cuckoo < QUEUE_NUM" "0 < hotness_threshold (ml_threads s t)" "i < MAX_RETRIES"
  shows "\<exists>r. evict_round target t ori cuckoo i s = Inr r \<and> round_ok target (hotness_threshold (ml_threads s t)) s i r"
proof -
  let ?hot = "hotness_threshold (ml_threads s t)"
  obtain r where r: "filter_stage target t ori cuckoo i s = Inr r" "step_ok target ?hot s i r"
    using filter_stage_ok [OF assms(1-4)] by blast
  show ?thesis
  proof (cases r)
    case (Stage j s1)
    then have j: "s1 = s" "j = i \<or> j = i + 1" using r(2) by (auto simp: step_ok_def)
    obtain r' where r': "staging_stage target t ori cuckoo j s = Inr r'" "step_ok target ?hot s j r'"
      using staging_stage_ok [OF assms(1-5)] by blast
    show ?thesis
    proof (cases r')
      case s: (Stage j' s2)
      then have j': "s2 = s" "j' = j \<or> j' = j + 1" using r'(2) by (auto simp: step_ok_def)
      have "core_ok target ?hot s j' (core_stage target t ori cuckoo j' s)"
        by (rule core_stage_ok [OF assms(2-5)])
      then show ?thesis
        using r r' Stage s j j' assms(6)
        by (auto simp: evict_round_def round_ok_def core_ok_def evict_measure_def split: evict_step.splits)
    qed (use r r' Stage j in \<open>auto simp: evict_round_def round_ok_def step_ok_def evict_measure_def\<close>)
  qed (use r in \<open>auto simp: evict_round_def round_ok_def step_ok_def evict_measure_def\<close>)
qed

lemma evict_loop_ok:
  assumes "gs_ok ori s" "target < QUEUE_NUM" "ori < QUEUE_NUM" "cuckoo < QUEUE_NUM" "0 < hotness_threshold (ml_threads s t)"
  shows "\<exists>r s'. evict_loop target t ori cuckoo i s = Some (Inr (r, s')) \<and> static s s' \<and>
    (case r of None \<Rightarrow> ml_mset s' = ml_mset s
     | Some v \<Rightarrow> ml_mset s = add_mset v (ml_mset s') \<and> getFreq v s' < hotness_threshold (ml_threads s t))"
proof -
  have "fst x = i \<Longrightarrow> snd x = s \<Longrightarrow> gs_ok ori s \<Longrightarrow> 0 < hotness_threshold (ml_threads s t) \<Longrightarrow> ?thesis" for x
  proof (induction x arbitrary: i s rule: wf_induct_rule [OF wf_evict_measure [of target]])
    case (1 x)
    show ?case
    proof (cases "i < MAX_RETRIES")
      case False
      then show ?thesis by (subst evict_loop.simps) simp
    next
      case True
      obtain r where r: "evict_round target t ori cuckoo i s = Inr r" "round_ok target (hotness_threshold (ml_threads s t)) s i r"
        using evict_round_ok [OF 1(4) assms(2-4) 1(5) True] by blast
      show ?thesis
      proof (cases r)
        case (Victim v s')
        then show ?thesis
          using True r by (subst evict_loop.simps) (simp add: round_ok_def)
      next
        case (Stage j s')
        then show ?thesis using r(2) by (simp add: round_ok_def)
      next
        case (Round j s1)
        then have s1: "static s s1" "ml_mset s1 = ml_mset s" "((j, s1), x) \<in> evict_measure target"
          using r(2) 1(2,3) by (auto simp: round_ok_def)
        have h: "gs_ok ori s1" "ml_threads s1 = ml_threads s"
          using s1(1) 1(4) by (simp_all add: static_def)
        have "evict_loop target t ori cuckoo i s = evict_loop target t ori cuckoo j s1"
          using True r Round by (subst evict_loop.simps) simp
        moreover obtain r' s' where "evict_loop target t ori cuckoo j s1 = Some (Inr (r', s'))" "static s1 s'"
          "case r' of None \<Rightarrow> ml_mset s' = ml_mset s1
           | Some v \<Rightarrow> ml_mset s1 = add_mset v (ml_mset s') \<and> getFreq v s' < hotness_threshold (ml_threads s1 t)"
          using 1(1) [OF s1(3) _ _ h(1)] h(2) 1(5) by auto
        ultimately show ?thesis
          using h(2) s1(2) static_trans [OF s1(1)] by (intro exI [of _ r'] exI [of _ s']) (simp split: option.splits)
      qed
    qed
  qed
  from this [of "(i, s)"] assms show ?thesis by simp
qed

section \<open>When a search finds a victim\<close>

text \<open>
  A shard has a node that the search can reach: one in the core, or one in a queue whose cached size is over its share.
\<close>

definition ready :: "nat \<Rightarrow> merlin_list \<Rightarrow> bool" where
  "ready i s \<longleftrightarrow>
     lq_items (corefifo (ml_queues s i)) \<noteq> [] \<or>
     filter_over i s \<and> lq_items (filterfifo (ml_queues s i)) \<noteq> [] \<or>
     staging_over i s \<and> lq_items (stagingfifo (ml_queues s i)) \<noteq> []"

lemma not_ready_round:
  assumes "\<not> ready target s"
  shows "\<exists>i' > i. evict_round target t ori cuckoo i s = Inr (Round i' s)"
proof -
  have p: "pop_tail target Core s = (None, s)"
    using assms by (simp add: pop_tail_None ready_def)
  define j where "j = (if filter_over target s then i + 1 else i)"
  have j: "filter_stage target t ori cuckoo i s = Inr (Stage j s)" "i \<le> j"
    using assms pop_tail_None [of target Filter s s] by (auto simp: ready_def filter_stage_def j_def)
  define k where "k = (if staging_over target s then j + 1 else j)"
  have k: "staging_stage target t ori cuckoo j s = Inr (Stage k s)" "j \<le> k"
    using assms pop_tail_None [of target Staging s s] by (auto simp: ready_def staging_stage_def k_def)
  show ?thesis
    using j k p by (simp add: evict_round_def core_stage_def)
qed

lemma not_ready_loop: "\<not> ready target s \<Longrightarrow> evict_loop target t ori cuckoo i s = Some (Inr (None, s))"
proof (induction "MAX_RETRIES - i" arbitrary: i rule: less_induct)
  case less
  obtain j where j: "j > i" "evict_round target t ori cuckoo i s = Inr (Round j s)"
    using not_ready_round [OF less.prems] by blast
  show ?case
    using less.hyps [of j] less.prems j by (subst evict_loop.simps) simp
qed

lemma getEviction_hangs:
  assumes "\<not> ready (evict_shard t s) s"
  shows "getEviction_threadlocal t s = None"
proof -
  have "(t', s') \<noteq> (t, s)" if "getEviction_threadlocal t' s' = Some r" for t' s' r
  proof (rule getEviction_threadlocal.raw_induct [OF _ that])
    fix f t' x y
    assume IH: "\<And>t' x y. f t' x = Some y \<Longrightarrow> (t', x) \<noteq> (t, s)"
      and step: "(let queue_id = target_queue (ml_threads x t');
          cuckoo_queue_id = queue_id + total_threads (ml_threads x t')
      in bindO (getEviction_fromqueue (evict_shard t' x) t' queue_id cuckoo_queue_id x) (\<lambda>(r, s).
           case r of None \<Rightarrow> f t' s | Some n \<Rightarrow> Some (Inr (n, s)))) = Some y"
    show "(t', x) \<noteq> (t, s)"
    proof
      assume "(t', x) = (t, s)"
      then have "f t s = Some y"
        using step not_ready_loop [OF assms] by (simp add: Let_def getEviction_fromqueue_def)
      then show False using IH by blast
    qed
  qed
  then show ?thesis by (cases "getEviction_threadlocal t s") auto
qed

text \<open>
  The other direction: without contention a shard with a reachable node yields a victim.
\<close>

definition uncontended :: "merlin_list \<Rightarrow> bool" where
  "uncontended s \<longleftrightarrow> (\<forall>n. try_lock (ml_env s) n)"

abbreviation core_items :: "nat \<Rightarrow> merlin_list \<Rightarrow> fnode list" where
  "core_items i s \<equiv> lq_items (fifo_of Core (ml_queues s i))"

lemma cuckooInsert_uncontended:
  assumes "cuckooInsert n Core ori cuckoo (target = cuckoo) s = (ret, s')" "uncontended s" "target \<in> {ori, cuckoo}"
  shows "core_items target s' = n # core_items target s"
  using assms by (auto simp: cuckooInsert_def uncontended_def Let_def link_head_def ml_simps setCuckoo_def lq_link_def split: if_splits)

text \<open>What a round without contention does to the core, beyond \<open>round_ok\<close>.\<close>

definition fills :: "nat \<Rightarrow> merlin_list \<Rightarrow> evict_step \<Rightarrow> bool" where
  "fills target s r \<longleftrightarrow>
     (case r of Victim v s' \<Rightarrow> True
      | Round i' s' \<Rightarrow> core_items target s' \<noteq> [] \<and>
          (outside target s' < outside target s \<or> outside target s' = outside target s \<and> warmth target s' < warmth target s)
      | Stage i' s' \<Rightarrow> False)"

lemma uncontended_static: "static s s' \<Longrightarrow> uncontended s' = uncontended s"
  by (simp add: static_def uncontended_def)

lemma filter_promote_core:
  assumes "uncontended s" "target \<in> {ori, cuckoo}"
  shows "core_items target (filter_promote target t ori cuckoo n s) \<noteq> []"
proof -
  obtain ret s1 where s1: "cuckooInsert n Core ori cuckoo (target = cuckoo) (unSetFilter n s) = (ret, s1)"
    by (cases "cuckooInsert n Core ori cuckoo (target = cuckoo) (unSetFilter n s)")
  obtain r s2 where s2: "clearFreq n t (setCore n s1) = (r, s2)"
    by (cases "clearFreq n t (setCore n s1)")
  have "uncontended (unSetFilter n s)"
    using assms(1) by (simp add: unSetFilter_def uncontended_def upd_ref_def)
  from cuckooInsert_uncontended [OF s1 this assms(2)] have "core_items target s1 \<noteq> []" by simp
  moreover have "relabels s1 (filter_promote target t ori cuckoo n s)"
    using relabels_trans [OF relabels_trans [OF relabels_flags(3) clearFreq_relabels(1) [OF s2]] relabels_core_size_inc]
    by (simp add: filter_promote_def Let_def s1 s2)
  from relabelsD(3) [OF this, of Core target] calculation show ?thesis
    by simp
qed

lemma filter_stage_fills:
  assumes "filter_stage target t ori cuckoo i s = Inr r" "gs_ok ori s" "uncontended s" "target \<in> {ori, cuckoo}"
  shows "(\<forall>i' s'. r = Round i' s' \<longrightarrow> core_items target s' \<noteq> []) \<and>
    (\<forall>i' s'. r = Stage i' s' \<longrightarrow> \<not> (filter_over target s \<and> lq_items (filterfifo (ml_queues s target)) \<noteq> []))"
proof (cases "filter_over target s")
  case False
  then show ?thesis using assms(1) by (auto simp: filter_stage_def)
next
  case True
  obtain p s1 where p: "pop_tail target Filter s = (p, s1)" by (cases "pop_tail target Filter s")
  show ?thesis
  proof (cases p)
    case None
    then show ?thesis
      using assms(1) True p pop_tail_None [of target Filter s s1] by (auto simp: filter_stage_def)
  next
    case (Some n)
    define s2 where "s2 = upd_queue target (\<lambda>q. q\<lparr>filter_size := filter_size q - 1\<rparr>) s1"
    have "static s1 s2" unfolding s2_def by (auto intro!: static_upd_queue)
    then have s2: "static s s2" by (rule static_trans [OF static_pop [OF p]])
    then have "gs_ok ori s2" using assms(2) by (simp add: static_def)
    from sketch_estimate_relabels [OF this, of n] obtain s3 where s3: "sketch_estimate ori n s2 = Inr s3" "relabels s2 s3" by blast
    have "uncontended s3"
      using assms(3) uncontended_static [OF static_trans [OF s2 relabelsD(1) [OF s3(2)]]] by simp
    from filter_promote_core [OF this assms(4), of t n] show ?thesis
      using assms(1) True p Some s3(1) by (auto simp: filter_stage_def Let_def s2_def split: if_splits sum.splits)
  qed
qed

lemma staging_stage_fills:
  assumes "staging_stage target t ori cuckoo i s = Inr r" "gs_ok ori s" "uncontended s" "target \<in> {ori, cuckoo}"
    "ori < QUEUE_NUM" "cuckoo < QUEUE_NUM"
  shows "(\<forall>i' s'. r = Round i' s' \<longrightarrow> core_items target s' \<noteq> []) \<and>
    (\<forall>i' s'. r = Stage i' s' \<longrightarrow> \<not> (staging_over target s \<and> lq_items (stagingfifo (ml_queues s target)) \<noteq> []))"
proof (cases "staging_over target s")
  case False
  then show ?thesis using assms(1) by (auto simp: staging_stage_def)
next
  case True
  obtain p s1 where p: "pop_tail target Staging s = (p, s1)" by (cases "pop_tail target Staging s")
  show ?thesis
  proof (cases p)
    case None
    then show ?thesis
      using assms(1) True p pop_tail_None [of target Staging s s1] by (auto simp: staging_stage_def)
  next
    case (Some n)
    define s2 where "s2 = upd_queue target (\<lambda>q. q\<lparr>staging_size := staging_size q - 1\<rparr>) s1"
    have "static s1 s2" unfolding s2_def by (auto intro!: static_upd_queue)
    then have s2: "static s s2" by (rule static_trans [OF static_pop [OF p]])
    obtain d s3 where s3: "decFreq n t s2 = (d, s3)" by (cases "decFreq n t s2")
    have st3: "static s s3" by (rule static_trans [OF s2 relabelsD(1) [OF decFreq_relabels(1) [OF s3]]])
    obtain ret s4 where s4: "cuckooInsert n Core ori cuckoo (target = cuckoo) s3 = (ret, s4)"
      by (cases "cuckooInsert n Core ori cuckoo (target = cuckoo) s3")
    have c4: "core_items target s4 \<noteq> []"
      using cuckooInsert_uncontended [OF s4 _ assms(4)] uncontended_static [OF st3] assms(3) by simp
    define s5 where "s5 = setCore n (core_size_inc (if ret = 0 then ori else cuckoo) s4)"
    have r5: "relabels s4 s5"
      unfolding s5_def by (rule relabels_trans [OF relabels_core_size_inc relabels_flags(3)])
    have "gs_ok ori s5"
      using static_trans [OF static_trans [OF st3 cuckooInsert_links(1) [OF s4 assms(5,6)]] relabelsD(1) [OF r5]] assms(2)
      by (simp add: static_def)
    from sketch_estimate_relabels [OF this, of n] obtain s6 where s6: "sketch_estimate ori n s5 = Inr s6" "relabels s5 s6" by blast
    have "core_items target s6 \<noteq> []"
      using c4 relabelsD(3) [OF r5] relabelsD(3) [OF s6(2)] by simp
    moreover have "staging_stage target t ori cuckoo i s = (if d = - 1 then Inr (Victim n s3) else Inr (Round i s6))"
      using True p Some s3 s4 s6(1) by (simp add: staging_stage_def Let_def s2_def s5_def)
    ultimately show ?thesis
      using assms(1) by (auto split: if_splits)
  qed
qed

lemma core_stage_fills:
  assumes "uncontended s" "target \<in> {ori, cuckoo}" "core_items target s \<noteq> []"
    "core_stage target t ori cuckoo i s = Round i' s'"
  shows "i' = i \<and> core_items target s' \<noteq> []"
proof -
  obtain p s1 where p: "pop_tail target Core s = (p, s1)" by (cases "pop_tail target Core s")
  then obtain n where n: "p = Some n"
    using assms(3) pop_tail_None [of target Core s s1] by (cases p) auto
  define s2 where "s2 = upd_queue target (\<lambda>q. q\<lparr>core_size := core_size q - 1\<rparr>) s1"
  obtain d s3 where s3: "decFreq n t s2 = (d, s3)" by (cases "decFreq n t s2")
  have r2: "relabels s1 s2" unfolding s2_def by (rule relabels_core_size)
  have st3: "static s s3"
    by (rule static_trans [OF static_trans [OF static_pop [OF p] relabelsD(1) [OF r2]] relabelsD(1) [OF decFreq_relabels(1) [OF s3]]])
  define s4 where "s4 = core_size_inc target s3"
  obtain ret s5 where s5: "cuckooInsert n Core ori cuckoo (target = cuckoo) s4 = (ret, s5)"
    by (cases "cuckooInsert n Core ori cuckoo (target = cuckoo) s4")
  have "uncontended s4"
    using assms(1) uncontended_static [OF static_trans [OF st3 relabelsD(1) [OF relabels_core_size_inc]]] by (simp add: s4_def)
  from cuckooInsert_uncontended [OF s5 this assms(2)] have "core_items target s5 \<noteq> []" by simp
  moreover define s6 where "s6 = core_size_inc (if ret = 0 then ori else cuckoo) s5"
  have "relabels s5 s6" unfolding s6_def by (rule relabels_core_size_inc)
  from relabelsD(3) [OF this, of Core target] calculation have "core_items target s6 \<noteq> []" by simp
  moreover have "core_stage target t ori cuckoo i s = (if d = - 1 then Victim n s3 else Round i s6)"
    using p n s3 s5 by (simp add: core_stage_def Let_def s2_def s4_def s6_def)
  ultimately show ?thesis
    using assms(4) by (auto split: if_splits)
qed

lemma ready_round:
  assumes "gs_ok ori s" "target \<in> {ori, cuckoo}" "ori < QUEUE_NUM" "cuckoo < QUEUE_NUM" "0 < hotness_threshold (ml_threads s t)"
    "uncontended s" "ready target s"
  shows "\<exists>r. evict_round target t ori cuckoo i s = Inr r \<and> fills target s r"
proof -
  let ?hot = "hotness_threshold (ml_threads s t)"
  have tq: "target < QUEUE_NUM" using assms(2-4) by auto
  obtain r where r: "filter_stage target t ori cuckoo i s = Inr r" "step_ok target ?hot s i r"
    using filter_stage_ok [OF assms(1) tq assms(3,4)] by blast
  note f = filter_stage_fills [OF r(1) assms(1,6,2)]
  show ?thesis
  proof (cases r)
    case (Stage j s1)
    then have j: "s1 = s" using r(2) by (simp add: step_ok_def)
    obtain r' where r': "staging_stage target t ori cuckoo j s = Inr r'" "step_ok target ?hot s j r'"
      using staging_stage_ok [OF assms(1) tq assms(3-5)] by blast
    note g = staging_stage_fills [OF r'(1) assms(1,6,2-4)]
    show ?thesis
    proof (cases r')
      case s: (Stage j' s2)
      then have j': "s2 = s" using r'(2) by (simp add: step_ok_def)
      have ne: "core_items target s \<noteq> []"
        using assms(7) f g Stage s by (simp add: ready_def)
      have ok: "core_ok target ?hot s j' (core_stage target t ori cuckoo j' s)"
        by (rule core_stage_ok [OF tq assms(3-5)])
      have "fills target s (core_stage target t ori cuckoo j' s)"
        using ok core_stage_fills [OF assms(6,2) ne, of t j'] by (auto simp: fills_def core_ok_def split: evict_step.splits)
      then show ?thesis
        using r r' Stage s j j' by (simp add: evict_round_def)
    qed (use r r' Stage j g in \<open>auto simp: evict_round_def fills_def step_ok_def\<close>)
  qed (use r f in \<open>auto simp: evict_round_def fills_def step_ok_def\<close>)
qed

lemma ready_static_core: "core_items i s \<noteq> [] \<Longrightarrow> ready i s"
  by (simp add: ready_def)

definition progress :: "nat \<Rightarrow> merlin_list \<Rightarrow> merlin_list \<Rightarrow> bool" where
  "progress target s' s \<longleftrightarrow>
     outside target s' < outside target s \<or> outside target s' = outside target s \<and> warmth target s' < warmth target s"

lemma ready_loop:
  assumes "gs_ok ori s" "target \<in> {ori, cuckoo}" "ori < QUEUE_NUM" "cuckoo < QUEUE_NUM" "0 < hotness_threshold (ml_threads s t)"
    "uncontended s" "ready target s" "i < MAX_RETRIES"
  shows "\<exists>r s'. evict_loop target t ori cuckoo i s = Some (Inr (r, s')) \<and>
    (r = None \<longrightarrow> core_items target s' \<noteq> [] \<and> progress target s' s)"
proof -
  have tq: "target < QUEUE_NUM" using assms(2-4) by auto
  have "fst x = i \<Longrightarrow> snd x = s \<Longrightarrow> gs_ok ori s \<Longrightarrow> 0 < hotness_threshold (ml_threads s t) \<Longrightarrow> uncontended s \<Longrightarrow> ready target s \<Longrightarrow>
    i < MAX_RETRIES \<Longrightarrow> ?thesis" for x
  proof (induction x arbitrary: i s rule: wf_induct_rule [OF wf_evict_measure [of target]])
    case (1 x)
    obtain r where r: "evict_round target t ori cuckoo i s = Inr r" "fills target s r"
      using ready_round [OF 1(4) assms(2-4) 1(5,6,7)] by blast
    have ok: "round_ok target (hotness_threshold (ml_threads s t)) s i r"
      using evict_round_ok [OF 1(4) tq assms(3,4) 1(5,8)] r(1) by auto
    show ?case
    proof (cases r)
      case (Victim v s')
      then show ?thesis
        using 1(8) r by (subst evict_loop.simps) simp
    next
      case (Stage j s')
      then show ?thesis using r(2) by (simp add: fills_def)
    next
      case (Round j s1)
      then have s1: "static s s1" "((j, s1), x) \<in> evict_measure target" "core_items target s1 \<noteq> []" "progress target s1 s"
        using r(2) ok 1(2,3) by (auto simp: round_ok_def fills_def progress_def)
      have h: "gs_ok ori s1" "0 < hotness_threshold (ml_threads s1 t)" "uncontended s1"
        using s1(1) 1(4,5,6) by (simp_all add: static_def uncontended_def)
      have e: "evict_loop target t ori cuckoo i s = evict_loop target t ori cuckoo j s1"
        using 1(8) r Round by (subst evict_loop.simps) simp
      show ?thesis
      proof (cases "j < MAX_RETRIES")
        case True
        obtain r' s' where "evict_loop target t ori cuckoo j s1 = Some (Inr (r', s'))"
          "r' = None \<longrightarrow> core_items target s' \<noteq> [] \<and> progress target s' s1"
          using 1(1) [OF s1(2) _ _ h ready_static_core [OF s1(3)] True] by auto
        then show ?thesis
          using e s1(4) by (auto simp: progress_def)
      next
        case False
        then show ?thesis
          using e s1(3,4) by (subst (asm) (2) evict_loop.simps) simp
      qed
    qed
  qed
  from this [of "(i, s)"] assms show ?thesis by simp
qed

section \<open>The contract of an eviction\<close>

text \<open>A thread whose shard and paired shard are in the array, and whose threshold is one of the three.\<close>

definition thread_ok :: "nat \<Rightarrow> merlin_list \<Rightarrow> bool" where
  "thread_ok t s \<longleftrightarrow>
     target_queue (ml_threads s t) < total_threads (ml_threads s t) \<and> 2 * total_threads (ml_threads s t) \<le> QUEUE_NUM \<and>
     0 < hotness_threshold (ml_threads s t) \<and> gs_ok (target_queue (ml_threads s t)) s"

lemma thread_ok_static: "static s s' \<Longrightarrow> thread_ok t s \<Longrightarrow> thread_ok t s'"
  by (simp add: thread_ok_def static_def)

lemma evict_shard_static: "static s s' \<Longrightarrow> evict_shard t s' = evict_shard t s"
  by (simp add: evict_shard_def static_def)

lemma wf_progress: "wf {(s', s). progress target s' s}"
proof -
  have "{(s', s). progress target s' s} = inv_image (less_than <*lex*> less_than) (\<lambda>s. (outside target s, warmth target s))"
    by (auto simp: progress_def inv_image_def)
  then show ?thesis by (simp add: wf_inv_image wf_lex_prod)
qed

lemma getEviction_fromqueue_step:
  assumes "thread_ok t s"
  defines "ori \<equiv> target_queue (ml_threads s t)"
  defines "cuckoo \<equiv> ori + total_threads (ml_threads s t)"
  shows "\<exists>r s'. getEviction_fromqueue (evict_shard t s) t ori cuckoo s = Some (Inr (r, s')) \<and> static s s' \<and>
    (case r of None \<Rightarrow> ml_mset s' = ml_mset s
     | Some v \<Rightarrow> ml_mset s = add_mset v (ml_mset s') \<and> getFreq v s' < hotness_threshold (ml_threads s t)) \<and>
    (uncontended s \<and> ready (evict_shard t s) s \<and> r = None \<longrightarrow>
       core_items (evict_shard t s) s' \<noteq> [] \<and> progress (evict_shard t s) s' s)"
proof -
  have q: "ori < QUEUE_NUM" "cuckoo < QUEUE_NUM" "evict_shard t s \<in> {ori, cuckoo}" "gs_ok ori s"
    "0 < hotness_threshold (ml_threads s t)" "evict_shard t s < QUEUE_NUM"
    using assms(1) by (auto simp: thread_ok_def ori_def cuckoo_def evict_shard_def Let_def)
  obtain r s' where r: "evict_loop (evict_shard t s) t ori cuckoo 0 s = Some (Inr (r, s'))" "static s s'"
    "case r of None \<Rightarrow> ml_mset s' = ml_mset s
     | Some v \<Rightarrow> ml_mset s = add_mset v (ml_mset s') \<and> getFreq v s' < hotness_threshold (ml_threads s t)"
    using evict_loop_ok [OF q(4,6,1,2,5), of 0] by blast
  moreover have "core_items (evict_shard t s) s' \<noteq> [] \<and> progress (evict_shard t s) s' s"
    if "uncontended s \<and> ready (evict_shard t s) s \<and> r = None"
    using ready_loop [OF q(4,3,1,2,5), of 0] that r(1) by (auto simp: MAX_RETRIES_def)
  ultimately show ?thesis
    unfolding getEviction_fromqueue_def by (intro exI [of _ r] exI [of _ s']) simp
qed

lemma getEviction_returns:
  assumes "thread_ok t s" "uncontended s" "ready (evict_shard t s) s"
  shows "\<exists>v s'. getEviction_threadlocal t s = Some (Inr (v, s')) \<and> static s s' \<and> ml_mset s = add_mset v (ml_mset s') \<and>
    getFreq v s' < hotness_threshold (ml_threads s t)"
proof -
  define target where "target = evict_shard t s"
  have "target = evict_shard t s" by (rule target_def)
  then show ?thesis
    using assms
  proof (induction s rule: wf_induct_rule [OF wf_progress [of target]])
    case (1 s)
    obtain r s' where r: "getEviction_fromqueue target t (target_queue (ml_threads s t))
        (target_queue (ml_threads s t) + total_threads (ml_threads s t)) s = Some (Inr (r, s'))" "static s s'"
      "case r of None \<Rightarrow> ml_mset s' = ml_mset s
       | Some v \<Rightarrow> ml_mset s = add_mset v (ml_mset s') \<and> getFreq v s' < hotness_threshold (ml_threads s t)"
      "r = None \<longrightarrow> core_items target s' \<noteq> [] \<and> progress target s' s"
      using getEviction_fromqueue_step [OF 1(3)] 1(2,4,5) by auto
    show ?case
    proof (cases r)
      case (Some v)
      then show ?thesis
        using r 1(2) by (subst getEviction_threadlocal.simps) (simp add: Let_def)
    next
      case None
      then have p: "core_items target s' \<noteq> []" "(s', s) \<in> {(s', s). progress target s' s}" "ml_mset s' = ml_mset s"
        using r(3,4) by simp_all
      have e: "getEviction_threadlocal t s = getEviction_threadlocal t s'"
        using r(1) None 1(2) by (subst getEviction_threadlocal.simps) (simp add: Let_def)
      have h: "target = evict_shard t s'" "thread_ok t s'" "uncontended s'" "ready (evict_shard t s') s'"
        "ml_threads s' = ml_threads s"
        using evict_shard_static [OF r(2), of t] thread_ok_static [OF r(2) 1(3)] uncontended_static [OF r(2)] 1(2,4)
          ready_static_core [OF p(1)] r(2) by (simp_all add: static_def)
      from 1(1) [OF p(2) h(1-4)] show ?thesis
        unfolding e using p(3) h(5) static_trans [OF r(2)] by auto
    qed
  qed
qed

text \<open>
  C1: a search for a victim in a shard always ends, and loses no node. However the locks of the queues are
  contended and whichever exchanges of the ghost table succeed, the nodes it promotes, demotes and re-inserts are all still in
  exactly the queues' total, except the victim it returns, if it returns one, and the victim is colder than the thread's
  threshold.
\<close>

theorem getEviction_fromqueue_correct:
  assumes "gs_ok ori s" "target < QUEUE_NUM" "ori < QUEUE_NUM" "cuckoo < QUEUE_NUM" "0 < hotness_threshold (ml_threads s t)"
  shows "\<exists>r s'. getEviction_fromqueue target t ori cuckoo s = Some (Inr (r, s')) \<and> gs_ok ori s' \<and>
    (case r of None \<Rightarrow> ml_mset s' = ml_mset s
     | Some v \<Rightarrow> ml_mset s = add_mset v (ml_mset s') \<and> getFreq v s' < hotness_threshold (ml_threads s t))"
  using evict_loop_ok [OF assms, of 0] assms(1) unfolding getEviction_fromqueue_def static_def by blast

text \<open>
  C2: when an eviction returns. Without contention it returns a victim exactly when the shard with the larger cached size
  has a node in its core, or a node in a filter or staging queue whose cached size is over its share; otherwise it never
  returns, however many nodes the shard has. The cached sizes are refreshed at every 1024th eviction of the thread only.
\<close>

theorem getEviction_returns_iff:
  assumes "thread_ok t s" "uncontended s"
  shows "(ready (evict_shard t s) s \<longrightarrow>
      (\<exists>v s'. getEviction_threadlocal t s = Some (Inr (v, s')) \<and> ml_mset s = add_mset v (ml_mset s') \<and>
         getFreq v s' < hotness_threshold (ml_threads s t))) \<and>
    (\<not> ready (evict_shard t s) s \<longrightarrow> getEviction_threadlocal t s = None)"
  using getEviction_returns [OF assms] getEviction_hangs [of t s] by blast

end
