(* ===== verification/Spec2Isabelle.thy ===== *)
theory Spec2Isabelle
  imports Sim_Prelude CacheObj XXHash HashTable Cache_Base Queue_Cache FIFO LRU S3FIFO Table_Cache Clock Sieve PQueue PQ_Cache Belady Size_Cache CBF Merlin Merlin_Inv
    Merlin_Moves Merlin_Loops Merlin_Cache Merlin_Props
    Splay Stack_Dist Simulator LRU_Profile
    Refcount Merlin_Ghost Merlin_FIFO Merlin_List Merlin_List_Evict
begin

text \<open>
  This library verifies the cache simulator under \<open>src/libCacheSim/libCacheSim\<close>: the Merlin eviction
  algorithm and the parts of the simulator it is built on.

  \<^bold>\<open>The program.\<close> A cache (\<open>include/libCacheSim/cache.h\<close>) is a struct of counters and function
  pointers. \<open>cache_get_base\<close> in \<open>cache/cache.c\<close> serves a request: it looks the object up, and on a
  miss asks the admission test, evicts until the object fits and inserts it. The objects live in a
  chained hash table (\<open>dataStructure/hashtable/chainedHashTableV2.c\<close>) and are linked into doubly linked
  lists (\<open>cache/cacheObj.c\<close>). An eviction algorithm supplies lookup, insertion, choice of a victim,
  eviction and removal.

  \<^bold>\<open>The theories.\<close>

  \<^item> \<open>Sim_Prelude\<close>: errors as values (\<open>c_error\<close>, \<open>result\<close>), computations that may not end (\<open>outcome\<close>,
    whose \<open>None\<close> is a loop that never returns), the C integer conversions, lemma collections.
  \<^item> \<open>CacheObj\<close>: requests, objects and the doubly linked list on a heap of cells (\<open>request.h\<close>,
    \<open>cacheObj.h\<close>, \<open>cacheObj.c\<close>). Each list operation is shown to implement its operation on lists.
  \<^item> \<open>XXHash\<close>: the hash of an 8-byte id (\<open>hash/xxh3.h\<close>, \<open>hash/xxhash.h\<close>) and its injectivity.
  \<^item> \<open>HashTable\<close>: the chained hash table on the heap; the interface \<open>object_index\<close> says that it is a
    finite map from ids to cells.
  \<^item> \<open>Cache_Base\<close>: the cache struct and \<open>cache.c\<close>; the interface \<open>eviction_algorithm\<close> states what
    \<open>cache_get_base\<close> relies on and derives from it that a request is served correctly.
  \<^item> \<open>Queue_Cache\<close>, \<open>FIFO\<close>, \<open>LRU\<close>: the caches that keep one queue (\<open>eviction/FIFO.c\<close>,
    \<open>eviction/LRU.c\<close>). From here on the hash table is a map and the list of cells is the list of
    their ids, head first, as \<open>HashTable\<close> and \<open>CacheObj\<close> justify.
  \<^item> \<open>Table_Cache\<close>, \<open>Clock\<close>, \<open>Sieve\<close>: the interface of the caches that keep every object in the one table
    of the cache, and two algorithms with a moving hand (\<open>eviction/Clock.c\<close>, \<open>eviction/Sieve.c\<close>). Shown for
    each: a request is served correctly, the hand stops, and the function that names the next victim
    agrees with the one that evicts it.
  \<^item> \<open>S3FIFO\<close>: the three-queue algorithm built from FIFO caches (\<open>eviction/S3FIFO.c\<close>): both eviction loops end and
    a request is served correctly, but for objects of exactly the small queue's size, which are never cached.
  \<^item> \<open>PQueue\<close>, \<open>PQ_Cache\<close>, \<open>Belady\<close>, \<open>Size_Cache\<close>: the binary heap with positions in its nodes
    (\<open>dataStructure/pqueue.c\<close>) over a memory of nodes, the link between objects and nodes, and the two caches that
    keep it (\<open>eviction/Belady.c\<close>, \<open>eviction/Size.c\<close>). Shown: the heap operations are safe and keep the heap, the victim
    is the object with the largest priority, no node is leaked, and requests are served correctly.
  \<^item> \<open>CBF\<close>: the counting sketch (\<open>dataStructure/minimalIncrementCBF.c\<close>): it never underestimates.
  \<^item> \<open>Merlin\<close>: the Merlin algorithm (\<open>eviction/cpp/merlin.cpp\<close>), function by function. \<open>Merlin_Inv\<close>: its
    invariant (four disjoint well-formed FIFO queues, frequencies in range, and, where it holds, the
    exact cumulative histogram) and lookup and insertion. \<open>Merlin_Moves\<close>: the moves of one object between
    the queues. \<open>Merlin_Loops\<close>: the loops of the eviction and the measures by which they end.
    \<open>Merlin_Cache\<close>: the interpretation of \<open>eviction_algorithm\<close>. \<open>Merlin_Props\<close>: the properties, with the
    situations in which the code reads out of bounds, does not return or loses count.
  \<^item> \<open>Splay\<close>, \<open>Stack_Dist\<close>: the splay tree (\<open>dataStructure/splay.c\<close>) with its size fields, and the stack and access
    distances computed with it (\<open>profiler/dist.c\<close>, \<open>profiler/profilerLRU.c\<close>), against the textbook definition. The
    \<open>GHashTable\<close> they use belongs to GLib: its operations are a parameter, its documented laws a hypothesis.
  \<^item> \<open>Simulator\<close>, \<open>LRU_Profile\<close>: the simulation loop (\<open>bin/cachesim/sim.c\<close>); a larger LRU cache never misses
    more, and simulation and profiler agree on the misses of an LRU cache.

  \<^bold>\<open>Bounds.\<close> Byte counts are signed 64-bit in the source and are kept as integers; \<open>obj_size\<close> is
  truncated to 32 bits where it is stored, and the 32-bit sum in \<open>cache_remove_obj_base\<close> is kept.
  The counters of the sketch and the hash values are machine words. No loop has fuel: a loop whose
  end is not evident is a partial function, and the properties state that it returns.

  \<^bold>\<open>Not modelled.\<close> Trace readers, the command line tools, the trace analyzer, the learned algorithms and
  the CacheLib tree; the manifest lists them one by one.
\<close>

end
